(* ===== verification/Prelude.thy ===== *)
theory Prelude
  imports Main "HOL-Library.While_Combinator" "HOL-Library.Multiset"
begin

text \<open>
  Shared vocabulary of the development: bit vectors, pointer-keyed maps, the round-robin
  loop that every data-flow analysis of the scheduler runs, and list facts about moving one
  element before another.

  The LLVM containers used by the code are modelled by their documented behaviour.
  A \<open>BitVector\<close> is the list of its bits; its size is the length of the list.  A
  \<open>DenseMap\<close> is a partial map; \<open>operator[]\<close> on a missing key yields a
  default-constructed value (\<open>dm_get\<close>), the insertion of that default being
  unobservable for the maps on which the code uses it, since they are only read through
  \<open>operator[]\<close>.
\<close>

named_theorems bv_simps "tests and sizes of bit vectors after each operation"

section \<open>Bit vectors\<close>

type_synonym bitvec = "bool list"

definition bv_new :: "nat \<Rightarrow> bool \<Rightarrow> bitvec" where
  "bv_new n b = replicate n b"

definition bv_test :: "bitvec \<Rightarrow> nat \<Rightarrow> bool" where
  "bv_test v i \<longleftrightarrow> i < length v \<and> v ! i"

definition bv_set :: "bitvec \<Rightarrow> nat \<Rightarrow> bitvec" where
  "bv_set v i = v[i := True]"

definition bv_reset :: "bitvec \<Rightarrow> nat \<Rightarrow> bitvec" where
  "bv_reset v i = v[i := False]"

definition bv_count :: "bitvec \<Rightarrow> nat" where
  "bv_count v = length (filter (\<lambda>b. b) v)"

text \<open>\<open>|=\<close> grows the left operand to the size of the right one.\<close>

fun bv_or :: "bitvec \<Rightarrow> bitvec \<Rightarrow> bitvec" where
  "bv_or [] ys = ys"
| "bv_or xs [] = xs"
| "bv_or (x # xs) (y # ys) = (x \<or> y) # bv_or xs ys"

text \<open>\<open>&=\<close> keeps the size of the left operand; bits the right one lacks become 0.\<close>

fun bv_and :: "bitvec \<Rightarrow> bitvec \<Rightarrow> bitvec" where
  "bv_and [] ys = []"
| "bv_and (x # xs) [] = False # bv_and xs []"
| "bv_and (x # xs) (y # ys) = (x \<and> y) # bv_and xs ys"

text \<open>\<open>reset(const BitVector &)\<close> clears the bits that are set in the argument.\<close>

fun bv_andnot :: "bitvec \<Rightarrow> bitvec \<Rightarrow> bitvec" where
  "bv_andnot [] ys = []"
| "bv_andnot xs [] = xs"
| "bv_andnot (x # xs) (y # ys) = (x \<and> \<not> y) # bv_andnot xs ys"

definition bv_flip :: "bitvec \<Rightarrow> bitvec" where
  "bv_flip v = map Not v"

definition bv_clear :: "bitvec \<Rightarrow> bitvec" where
  "bv_clear v = bv_new (length v) False"

text \<open>\<open>set_bits()\<close> enumerates the set positions in increasing order.\<close>

definition bv_bits :: "bitvec \<Rightarrow> nat list" where
  "bv_bits v = filter (bv_test v) [0..<length v]"

lemma bv_test_new [bv_simps]: "bv_test (bv_new n b) i \<longleftrightarrow> i < n \<and> b"
  by (auto simp: bv_test_def bv_new_def)

lemma length_bv_new [bv_simps]: "length (bv_new n b) = n"
  by (simp add: bv_new_def)

lemma bv_test_set [bv_simps]:
  "bv_test (bv_set v k) i \<longleftrightarrow> (if i = k then k < length v else bv_test v i)"
  by (auto simp: bv_test_def bv_set_def nth_list_update)

lemma length_bv_set [bv_simps]: "length (bv_set v k) = length v"
  by (simp add: bv_set_def)

lemma bv_test_reset [bv_simps]: "bv_test (bv_reset v k) i \<longleftrightarrow> i \<noteq> k \<and> bv_test v i"
  by (cases "i = k") (auto simp: bv_test_def bv_reset_def)

lemma length_bv_reset [bv_simps]: "length (bv_reset v k) = length v"
  by (simp add: bv_reset_def)

lemma bv_test_Nil [simp]: "\<not> bv_test [] i"
  by (simp add: bv_test_def)

lemma bv_test_Cons: "bv_test (x # xs) i \<longleftrightarrow> (case i of 0 \<Rightarrow> x | Suc j \<Rightarrow> bv_test xs j)"
  by (cases i) (auto simp: bv_test_def)

lemma bv_test_or [bv_simps]: "bv_test (bv_or a b) i \<longleftrightarrow> bv_test a i \<or> bv_test b i"
  by (induction a b arbitrary: i rule: bv_or.induct) (auto simp: bv_test_Cons split: nat.splits)

lemma length_bv_or [bv_simps]: "length (bv_or a b) = max (length a) (length b)"
  by (induction a b rule: bv_or.induct) auto

lemma bv_test_and [bv_simps]: "bv_test (bv_and a b) i \<longleftrightarrow> bv_test a i \<and> bv_test b i"
  by (induction a b arbitrary: i rule: bv_and.induct) (auto simp: bv_test_Cons split: nat.splits)

lemma length_bv_and [bv_simps]: "length (bv_and a b) = length a"
  by (induction a b rule: bv_and.induct) auto

lemma bv_test_andnot [bv_simps]: "bv_test (bv_andnot a b) i \<longleftrightarrow> bv_test a i \<and> \<not> bv_test b i"
  by (induction a b arbitrary: i rule: bv_andnot.induct) (auto simp: bv_test_Cons split: nat.splits)

lemma length_bv_andnot [bv_simps]: "length (bv_andnot a b) = length a"
  by (induction a b rule: bv_andnot.induct) auto

lemma bv_test_flip [bv_simps]: "bv_test (bv_flip v) i \<longleftrightarrow> i < length v \<and> \<not> bv_test v i"
  by (auto simp: bv_test_def bv_flip_def)

lemma length_bv_flip [bv_simps]: "length (bv_flip v) = length v"
  by (simp add: bv_flip_def)

lemma bv_test_clear [bv_simps]: "\<not> bv_test (bv_clear v) i"
  by (simp add: bv_clear_def bv_simps)

lemma length_bv_clear [bv_simps]: "length (bv_clear v) = length v"
  by (simp add: bv_clear_def bv_simps)

lemma bv_test_length: "bv_test v i \<Longrightarrow> i < length v"
  by (simp add: bv_test_def)

lemma set_bv_bits: "set (bv_bits v) = {i. bv_test v i}"
  by (auto simp: bv_bits_def bv_test_length)

lemma sorted_bv_bits: "sorted (bv_bits v)"
  by (simp add: bv_bits_def sorted_wrt_filter)

lemma bv_eqI: "length a = length b \<Longrightarrow> (\<And>i. bv_test a i = bv_test b i) \<Longrightarrow> a = b"
  by (rule nth_equalityI) (auto simp: bv_test_def)

definition bv_ones :: "bitvec \<Rightarrow> nat set" where
  "bv_ones v = {i. bv_test v i}"

lemma bv_ones_sub: "bv_ones v \<subseteq> {..<length v}"
  by (auto simp: bv_ones_def bv_test_length)

lemma finite_bv_ones [simp]: "finite (bv_ones v)"
  by (rule finite_subset [OF bv_ones_sub]) simp

lemma bv_count_card: "bv_count v = card (bv_ones v)"
  by (simp add: bv_count_def bv_ones_def bv_test_def length_filter_conv_card)

lemma bv_count_le: "bv_count v \<le> length v"
  by (simp add: bv_count_def)

lemma bv_ones_set: "k < length v \<Longrightarrow> bv_ones (bv_set v k) = insert k (bv_ones v)"
  by (auto simp: bv_ones_def bv_simps)

lemma bv_ones_reset: "bv_ones (bv_reset v k) = bv_ones v - {k}"
  by (auto simp: bv_ones_def bv_simps)

lemma bv_count_mono:
  assumes "\<And>i. bv_test a i \<Longrightarrow> bv_test b i"
  shows "bv_count a \<le> bv_count b"
  proof -
  have "bv_ones a \<subseteq> bv_ones b" using assms by (auto simp: bv_ones_def)
  then show ?thesis unfolding bv_count_card by (intro card_mono) simp_all
qed

lemma bv_count_strict_mono:
  assumes le: "\<And>i. bv_test a i \<Longrightarrow> bv_test b i" and len: "length a = length b" and "a \<noteq> b"
  shows "bv_count a < bv_count b"
proof -
  have "\<exists>i. bv_test a i \<noteq> bv_test b i"
    using bv_eqI [OF len] \<open>a \<noteq> b\<close> by blast
  then have "bv_ones a \<subset> bv_ones b"
    using le by (auto simp: bv_ones_def)
  then show ?thesis
    unfolding bv_count_card by (intro psubset_card_mono) simp_all
qed

text \<open>
  The interface of a bit vector on which the data-flow analyses rest: sizes and tests after
  each operation.  The transfer function of every analysis here is
  \<open>gen | (x & ~kill)\<close> or \<open>x\<close> with \<open>kill\<close> reset; its bits are computed once.
\<close>

locale bit_vector =
  fixes test :: "'v \<Rightarrow> nat \<Rightarrow> bool" and size :: "'v \<Rightarrow> nat"
    and orv :: "'v \<Rightarrow> 'v \<Rightarrow> 'v" and andv :: "'v \<Rightarrow> 'v \<Rightarrow> 'v"
    and andnot :: "'v \<Rightarrow> 'v \<Rightarrow> 'v" and flip :: "'v \<Rightarrow> 'v" and zeros :: "nat \<Rightarrow> 'v"
  assumes test_or: "test (orv a b) i \<longleftrightarrow> test a i \<or> test b i"
    and size_or: "size (orv a b) = max (size a) (size b)"
    and test_and: "test (andv a b) i \<longleftrightarrow> test a i \<and> test b i"
    and size_and: "size (andv a b) = size a"
    and test_andnot: "test (andnot a b) i \<longleftrightarrow> test a i \<and> \<not> test b i"
    and size_andnot: "size (andnot a b) = size a"
    and test_flip: "test (flip a) i \<longleftrightarrow> i < size a \<and> \<not> test a i"
    and size_flip: "size (flip a) = size a"
    and test_zeros: "\<not> test (zeros n) i"
    and size_zeros: "size (zeros n) = n"
    and test_size: "test a i \<Longrightarrow> i < size a"
    and vec_eqI: "size a = size b \<Longrightarrow> (\<And>i. test a i = test b i) \<Longrightarrow> a = b"
begin

lemma transfer_test: "test (orv g (andnot x k)) i \<longleftrightarrow> test g i \<or> (test x i \<and> \<not> test k i)"
  by (simp add: test_or test_andnot)

lemma transfer_size: "size g = n \<Longrightarrow> size x = n \<Longrightarrow> size (orv g (andnot x k)) = n"
  by (simp add: size_or size_andnot)

text \<open>Masking with the flipped kill set is the same transfer function.\<close>

lemma mask_flip: "size x = size k \<Longrightarrow> andv x (flip k) = andnot x k"
  by (rule vec_eqI) (auto simp: test_and test_andnot test_flip size_and size_andnot dest: test_size)

lemma union_test:
  "test (foldl (\<lambda>acc x. orv acc (f x)) z xs) i \<longleftrightarrow> test z i \<or> (\<exists>x \<in> set xs. test (f x) i)"
  by (induction xs arbitrary: z) (auto simp: test_or)

lemma union_size:
  "size z = n \<Longrightarrow> \<forall>x \<in> set xs. size (f x) \<le> n \<Longrightarrow> size (foldl (\<lambda>acc x. orv acc (f x)) z xs) = n"
  by (induction xs arbitrary: z) (auto simp: size_or)

lemma meet_test:
  "test (foldl (\<lambda>acc x. andv acc (f x)) z xs) i \<longleftrightarrow> test z i \<and> (\<forall>x \<in> set xs. test (f x) i)"
  by (induction xs arbitrary: z) (auto simp: test_and)

lemma meet_size: "size (foldl (\<lambda>acc x. andv acc (f x)) z xs) = size z"
  by (induction xs arbitrary: z) (auto simp: size_and)

end

interpretation bv: bit_vector bv_test length bv_or bv_and bv_andnot bv_flip "\<lambda>n. bv_new n False"
  by unfold_locales (auto simp: bv_simps bv_test_length intro: bv_eqI)

section \<open>Pointer-keyed maps\<close>

definition dm_get :: "'v \<Rightarrow> ('k \<Rightarrow> 'v option) \<Rightarrow> 'k \<Rightarrow> 'v" where
  "dm_get d m k = (case m k of None \<Rightarrow> d | Some v \<Rightarrow> v)"

lemma dm_get_upd [simp]: "dm_get d (m(k \<mapsto> v)) j = (if j = k then v else dm_get d m j)"
  by (simp add: dm_get_def)

lemma dm_get_empty [simp]: "dm_get d Map.empty j = d"
  by (simp add: dm_get_def)

lemma foldl_upd_map: "foldl (\<lambda>m k. m(k \<mapsto> f k)) m0 ks j = (if j \<in> set ks then Some (f j) else m0 j)"
  by (induction ks arbitrary: m0) auto

lemma sum_list_strict_mono_at:
  fixes f g :: "'a \<Rightarrow> nat"
  assumes "x \<in> set xs" "f x < g x" "\<And>y. y \<in> set xs \<Longrightarrow> f y \<le> g y"
  shows "(\<Sum>y \<leftarrow> xs. f y) < (\<Sum>y \<leftarrow> xs. g y)"
  using assms
proof (induction xs)
  case (Cons a xs)
  have "(\<Sum>y \<leftarrow> xs. f y) \<le> (\<Sum>y \<leftarrow> xs. g y)" using Cons.prems(3) by (intro sum_list_mono) simp
  moreover have "f a \<le> g a" using Cons.prems(3) by simp
  moreover have "f a < g a \<or> (\<Sum>y \<leftarrow> xs. f y) < (\<Sum>y \<leftarrow> xs. g y)" using Cons by auto
  ultimately show ?case by auto
qed simp

section \<open>Order of occurrence in a list\<close>

text \<open>\<open>precedes xs a b\<close>: some occurrence of \<open>a\<close> is followed by one of \<open>b\<close>.\<close>

primrec precedes :: "'a list \<Rightarrow> 'a \<Rightarrow> 'a \<Rightarrow> bool" where
  "precedes [] a b = False"
| "precedes (x # xs) a b \<longleftrightarrow> (x = a \<and> b \<in> set xs) \<or> precedes xs a b"

lemma precedes_in: "precedes xs a b \<Longrightarrow> a \<in> set xs \<and> b \<in> set xs"
  by (induction xs) auto

lemma precedes_append:
  "precedes (xs @ ys) a b \<longleftrightarrow> precedes xs a b \<or> precedes ys a b \<or> (a \<in> set xs \<and> b \<in> set ys)"
  by (induction xs) auto

lemma precedes_filter: "precedes (filter P xs) a b \<longleftrightarrow> precedes xs a b \<and> P a \<and> P b"
  by (induction xs) auto

lemma precedes_nth:
  "distinct xs \<Longrightarrow> i < length xs \<Longrightarrow> j < length xs \<Longrightarrow> precedes xs (xs ! i) (xs ! j) \<longleftrightarrow> i < j"
proof (induction xs arbitrary: i j)
  case (Cons x xs)
  then show ?case
    by (cases i; cases j) (auto dest: precedes_in)
qed simp

lemma precedes_asym: "distinct xs \<Longrightarrow> precedes xs a b \<Longrightarrow> \<not> precedes xs b a"
  by (induction xs) (auto dest: precedes_in)

lemma precedes_irrefl: "distinct xs \<Longrightarrow> \<not> precedes xs a a"
  by (induction xs) (auto dest: precedes_in)

lemma precedes_total:
  "a \<in> set xs \<Longrightarrow> b \<in> set xs \<Longrightarrow> a \<noteq> b \<Longrightarrow> precedes xs a b \<or> precedes xs b a"
  by (induction xs) auto

lemma precedes_trans:
  "distinct xs \<Longrightarrow> precedes xs a b \<Longrightarrow> precedes xs b c \<Longrightarrow> precedes xs a c"
  by (induction xs) (auto dest: precedes_in)

lemma precedes_concat:
  "b \<in> set bs \<Longrightarrow> precedes (f b) x y \<Longrightarrow> precedes (concat (map f bs)) x y"
  by (induction bs) (auto simp: precedes_append)

lemma precedes_rev: "precedes (rev xs) a b \<longleftrightarrow> precedes xs b a"
  by (induction xs) (auto simp: precedes_append)

lemma precedes_last: "a \<in> set (butlast xs) \<Longrightarrow> precedes xs a (last xs)"
  by (induction xs) auto

section \<open>Round-robin iteration\<close>

text \<open>
  The three data-flow analyses share one loop: repeat a sweep over the blocks until a whole
  sweep leaves the \<open>changed\<close> flag unset.
\<close>

definition rr_loop :: "('s \<times> bool \<Rightarrow> 'n \<Rightarrow> 's \<times> bool) \<Rightarrow> 'n list \<Rightarrow> 's \<Rightarrow> ('s \<times> bool) option" where
  "rr_loop visit ns s0 =
     while_option snd (\<lambda>(s, _). foldl visit (s, False) ns) (s0, True)"

text \<open>
  The contract of one visit: it keeps the invariant, and it either is quiet (the flag is
  untouched, the node's equations hold afterwards and no other node's equations break) or
  sets the flag and makes progress.  Parameter \<open>'f\<close> is the function being analysed.
\<close>

locale round_robin =
  fixes inv :: "'f \<Rightarrow> 's \<Rightarrow> bool" and nodes :: "'f \<Rightarrow> 'n list"
    and visit :: "'f \<Rightarrow> 's \<times> bool \<Rightarrow> 'n \<Rightarrow> 's \<times> bool"
    and mu :: "'f \<Rightarrow> 's \<Rightarrow> nat" and ok :: "'f \<Rightarrow> 'n \<Rightarrow> 's \<Rightarrow> bool"
  assumes visit_inv:
      "inv f s \<Longrightarrow> n \<in> set (nodes f) \<Longrightarrow> visit f (s, c) n = (s', c') \<Longrightarrow> inv f s'"
    and visit_step:
      "inv f s \<Longrightarrow> n \<in> set (nodes f) \<Longrightarrow> visit f (s, c) n = (s', c') \<Longrightarrow>
         c' = c \<and> mu f s' \<le> mu f s \<and> ok f n s' \<and> (\<forall>m \<in> set (nodes f). ok f m s \<longrightarrow> ok f m s') \<or>
         c' \<and> mu f s' < mu f s"
begin

lemma sweep:
  assumes "inv f s" "set ns \<subseteq> set (nodes f)" "foldl (visit f) (s, c) ns = (s', c')"
  shows "inv f s' \<and> mu f s' \<le> mu f s \<and> (c \<longrightarrow> c') \<and> (c' \<and> \<not> c \<longrightarrow> mu f s' < mu f s) \<and>
    (\<not> c' \<longrightarrow> (\<forall>n \<in> set ns. ok f n s') \<and> (\<forall>m \<in> set (nodes f). ok f m s \<longrightarrow> ok f m s'))"
  using assms
proof (induction ns arbitrary: s c)
  case Nil
  then show ?case by simp
next
  case (Cons n ns)
  obtain s1 c1 where v: "visit f (s, c) n = (s1, c1)" by (cases "visit f (s, c) n")
  have n: "n \<in> set (nodes f)" and ns: "set ns \<subseteq> set (nodes f)" using Cons.prems by auto
  have i1: "inv f s1" using visit_inv [OF Cons.prems(1) n v] .
  have rest: "foldl (visit f) (s1, c1) ns = (s', c')" using Cons.prems(3) v by simp
  note IH = Cons.IH [OF i1 ns rest]
  show ?case using visit_step [OF Cons.prems(1) n v] IH n by auto
qed

lemma loop_terminates:
  assumes "inv f s0"
  shows "\<exists>s. rr_loop (visit f) (nodes f) s0 = Some (s, False)"
proof -
  let ?P = "\<lambda>(s, _::bool). inv f s"
  let ?mu = "\<lambda>(s, c). 2 * mu f s + (if c then 1 else 0)"
  let ?body = "\<lambda>(s, _::bool). foldl (visit f) (s, False) (nodes f)"
  have step: "?P (?body sc) \<and> ?mu (?body sc) < ?mu sc" if "?P sc" "snd sc" for sc
  proof -
    obtain s c where sc: "sc = (s, c)" by (cases sc)
    obtain s' c' where b: "foldl (visit f) (s, False) (nodes f) = (s', c')" by force
    show ?thesis using sweep [OF _ order_refl b] that sc b by auto
  qed
  have "\<exists>t. while_option snd ?body (s0, True) = Some t"
    by (rule measure_while_option_Some [where P = ?P and f = ?mu]) (use assms step in auto)
  then obtain t where t: "while_option snd ?body (s0, True) = Some t" ..
  moreover have "\<not> snd t" using while_option_stop [OF t] .
  ultimately show ?thesis unfolding rr_loop_def by (cases t) auto
qed

lemma loop_result:
  assumes "inv f s0" and res: "rr_loop (visit f) (nodes f) s0 = Some (s, c)"
  shows "inv f s \<and> (\<forall>n \<in> set (nodes f). ok f n s)"
proof -
  let ?P = "\<lambda>(s, c). inv f s \<and> (\<not> c \<longrightarrow> (\<forall>n \<in> set (nodes f). ok f n s))"
  let ?body = "\<lambda>(s, _::bool). foldl (visit f) (s, False) (nodes f)"
  have step: "?P (?body sc)" if "?P sc" "snd sc" for sc
  proof -
    obtain s c where sc: "sc = (s, c)" by (cases sc)
    obtain s' c' where b: "foldl (visit f) (s, False) (nodes f) = (s', c')" by force
    show ?thesis using sweep [OF _ order_refl b] that sc b by auto
  qed
  have w: "while_option snd ?body (s0, True) = Some (s, c)" using res unfolding rr_loop_def .
  have "?P (s, c)" by (rule while_option_rule [OF _ w]) (use assms(1) step in auto)
  moreover have "\<not> c" using while_option_stop [OF w] by simp
  ultimately show ?thesis by simp
qed

end

end
