(* ===== verification/LLVM_IR.thy ===== *)
theory LLVM_IR
  imports Prelude
begin

text \<open>
  The view of LLVM IR that the scheduler has: exactly the queries it makes of functions,
  blocks and instructions, as fields of records.  Pointers to blocks and instructions are
  natural numbers.  What LLVM answers to a query about an instruction (its class, operands,
  name, type and effect flags) is data of the model, never computed by it; only the
  positions of instructions change, through \<open>move_before\<close>, LLVM's
  \<open>Instruction::moveBefore\<close>.
\<close>

type_synonym bid = nat
type_synonym iid = nat

text \<open>A \<open>Value\<close>: a function argument, an instruction, or anything else (constants,
  globals), which no table of the scheduler contains.\<close>

datatype val = Arg nat | Inst iid | Other nat

datatype opcode = Mul | UDiv | SDiv | OtherOp

text \<open>The LLVM classes the code tests for with \<open>isa\<close> and \<open>dyn_cast\<close>.\<close>

datatype iclass =
  PHINode | LoadInst | StoreInst | CallInst | InvokeInst | CallBrInst | AllocaInst
  | BinaryOperator opcode | OtherInst

record instr =
  i_class :: iclass
  i_operands :: "val list"
  i_incoming :: "bid list"     \<comment> \<open>incoming blocks of a PHI, for the SSA invariant only\<close>
  i_name :: string             \<comment> \<open>\<open>getName\<close>\<close>
  i_void :: bool               \<comment> \<open>\<open>getType()->isVoidTy()\<close>\<close>
  i_token :: bool              \<comment> \<open>\<open>getType()->isTokenTy()\<close>\<close>
  i_term :: bool               \<comment> \<open>\<open>isTerminator\<close>\<close>
  i_ehpad :: bool              \<comment> \<open>\<open>isEHPad\<close>\<close>
  i_rwmem :: bool              \<comment> \<open>\<open>mayReadOrWriteMemory\<close>\<close>
  i_effects :: bool            \<comment> \<open>\<open>mayHaveSideEffects\<close>\<close>

record func =
  f_args :: "nat list"
  f_blocks :: "bid list"               \<comment> \<open>layout order; the first is the entry block\<close>
  f_body :: "bid \<Rightarrow> iid list"          \<comment> \<open>the instruction list of a block\<close>
  f_inst :: "iid \<Rightarrow> instr"
  f_succs :: "bid \<Rightarrow> bid list"
  f_preds :: "bid \<Rightarrow> bid list"

abbreviation entry_block :: "func \<Rightarrow> bid" where
  "entry_block F \<equiv> hd (f_blocks F)"

section \<open>Instruction queries\<close>

definition is_phi :: "func \<Rightarrow> iid \<Rightarrow> bool" where
  "is_phi F i \<longleftrightarrow> i_class (f_inst F i) = PHINode"

definition is_term :: "func \<Rightarrow> iid \<Rightarrow> bool" where
  "is_term F i \<longleftrightarrow> i_term (f_inst F i)"

definition is_void :: "func \<Rightarrow> iid \<Rightarrow> bool" where
  "is_void F i \<longleftrightarrow> i_void (f_inst F i)"

definition operands :: "func \<Rightarrow> iid \<Rightarrow> val list" where
  "operands F i = i_operands (f_inst F i)"

text \<open>\<open>CallBase\<close> is the common base of calls, invokes and callbrs.\<close>

definition is_callbase :: "func \<Rightarrow> iid \<Rightarrow> bool" where
  "is_callbase F i \<longleftrightarrow> i_class (f_inst F i) \<in> {CallInst, InvokeInst, CallBrInst}"

text \<open>The instructions of a list of blocks, in the order of the nested loops of the code.\<close>

definition insts_of :: "func \<Rightarrow> bid list \<Rightarrow> iid list" where
  "insts_of F bs = concat (map (f_body F) bs)"

abbreviation all_insts :: "func \<Rightarrow> iid list" where
  "all_insts F \<equiv> insts_of F (f_blocks F)"

definition parent :: "func \<Rightarrow> iid \<Rightarrow> bid option" where
  "parent F i = find (\<lambda>b. i \<in> set (f_body F b)) (f_blocks F)"

text \<open>\<open>getTerminator\<close>: the last instruction, if it is a terminator.\<close>

definition terminator :: "func \<Rightarrow> bid \<Rightarrow> iid option" where
  "terminator F b =
     (if f_body F b = [] then None
      else if is_term F (last (f_body F b)) then Some (last (f_body F b)) else None)"

lemma set_insts_of: "set (insts_of F bs) = (\<Union>b \<in> set bs. set (f_body F b))"
  by (auto simp: insts_of_def)

lemma insts_of_Nil [simp]: "insts_of F [] = []"
  by (simp add: insts_of_def)

lemma insts_of_Cons [simp]: "insts_of F (b # bs) = f_body F b @ insts_of F bs"
  by (simp add: insts_of_def)

lemma insts_of_append [simp]: "insts_of F (bs @ cs) = insts_of F bs @ insts_of F cs"
  by (simp add: insts_of_def)

section \<open>Well-formed functions\<close>

text \<open>What LLVM's verifier guarantees of the shape of a function: blocks and instructions are
  listed once, edges stay inside the function and are mirrored by the predecessor lists,
  nothing branches to the entry block, a block is PHIs, then other instructions, then
  exactly one terminator.\<close>

definition wf_block :: "func \<Rightarrow> bid \<Rightarrow> bool" where
  "wf_block F b \<longleftrightarrow> f_body F b \<noteq> [] \<and>
     (\<forall>k < length (f_body F b). is_term F (f_body F b ! k) \<longleftrightarrow> Suc k = length (f_body F b)) \<and>
     (\<forall>k < length (f_body F b). is_phi F (f_body F b ! k) \<longrightarrow> (\<forall>m < k. is_phi F (f_body F b ! m))) \<and>
     (\<forall>i \<in> set (f_body F b). \<not> (is_phi F i \<and> is_term F i))"

text \<open>The same, as properties of the list's elements.\<close>

lemma wf_block_alt:
  "wf_block F b \<longleftrightarrow> f_body F b \<noteq> [] \<and> is_term F (last (f_body F b)) \<and>
     (\<forall>x \<in> set (butlast (f_body F b)). \<not> is_term F x) \<and>
     sorted_wrt (\<lambda>x y. is_phi F y \<longrightarrow> is_phi F x) (f_body F b) \<and>
     (\<forall>i \<in> set (f_body F b). \<not> (is_phi F i \<and> is_term F i))"
proof (cases "f_body F b" rule: rev_cases)
  case (snoc xs t)
  have "(\<forall>k < length (xs @ [t]). is_term F ((xs @ [t]) ! k) \<longleftrightarrow> Suc k = length (xs @ [t])) \<longleftrightarrow>
      is_term F t \<and> (\<forall>x \<in> set xs. \<not> is_term F x)"
    by (auto simp: less_Suc_eq nth_append all_set_conv_all_nth)
  moreover have "(\<forall>k < length ys. is_phi F (ys ! k) \<longrightarrow> (\<forall>m < k. is_phi F (ys ! m))) \<longleftrightarrow>
      sorted_wrt (\<lambda>x y. is_phi F y \<longrightarrow> is_phi F x) ys" for ys
    unfolding sorted_wrt_iff_nth_less by blast
  ultimately show ?thesis unfolding wf_block_def snoc by (simp only: last_snoc butlast_snoc) blast
qed (simp add: wf_block_def)

lemma wf_block_last: "wf_block F b \<Longrightarrow> f_body F b \<noteq> [] \<and> is_term F (last (f_body F b))"
  by (simp add: wf_block_def last_conv_nth)

definition wf_func :: "func \<Rightarrow> bool" where
  "wf_func F \<longleftrightarrow> f_blocks F \<noteq> [] \<and> distinct (f_blocks F) \<and> distinct (f_args F) \<and>
     distinct (all_insts F) \<and>
     (\<forall>b \<in> set (f_blocks F). set (f_succs F b) \<subseteq> set (f_blocks F) \<and>
        set (f_preds F b) \<subseteq> set (f_blocks F) \<and> wf_block F b) \<and>
     (\<forall>b \<in> set (f_blocks F). \<forall>c \<in> set (f_blocks F). b \<in> set (f_preds F c) \<longleftrightarrow> c \<in> set (f_succs F b)) \<and>
     f_preds F (entry_block F) = []"

lemma wf_entry [intro]: "wf_func F \<Longrightarrow> entry_block F \<in> set (f_blocks F)"
  by (simp add: wf_func_def)

lemma wf_succs: "wf_func F \<Longrightarrow> b \<in> set (f_blocks F) \<Longrightarrow> c \<in> set (f_succs F b) \<Longrightarrow> c \<in> set (f_blocks F)"
  by (auto simp: wf_func_def)

lemma wf_preds: "wf_func F \<Longrightarrow> b \<in> set (f_blocks F) \<Longrightarrow> c \<in> set (f_preds F b) \<Longrightarrow> c \<in> set (f_blocks F)"
  by (auto simp: wf_func_def)

lemma wf_preds_succs:
  "wf_func F \<Longrightarrow> b \<in> set (f_blocks F) \<Longrightarrow> c \<in> set (f_blocks F) \<Longrightarrow>
   b \<in> set (f_preds F c) \<longleftrightarrow> c \<in> set (f_succs F b)"
  by (simp add: wf_func_def)

lemma wf_distinct_insts: "wf_func F \<Longrightarrow> distinct (all_insts F)"
  by (simp add: wf_func_def)

lemma distinct_insts_of_body: "distinct (insts_of F bs) \<Longrightarrow> b \<in> set bs \<Longrightarrow> distinct (f_body F b)"
  by (auto simp: insts_of_def distinct_concat_iff)

lemma wf_distinct_body: "wf_func F \<Longrightarrow> b \<in> set (f_blocks F) \<Longrightarrow> distinct (f_body F b)"
  by (blast dest: wf_distinct_insts distinct_insts_of_body)

text \<open>An instruction lies in one block.\<close>

lemma distinct_insts_of_same:
  assumes "distinct (insts_of F bs)" "distinct bs" "b \<in> set bs" "c \<in> set bs"
    and "i \<in> set (f_body F b)" "i \<in> set (f_body F c)"
  shows "b = c"
  using assms
proof (induction bs)
  case (Cons a bs)
  have split: "distinct (insts_of F bs)" "distinct bs"
    "set (f_body F a) \<inter> set (insts_of F bs) = {}" using Cons.prems by auto
  show ?case
  proof (cases "b = a \<or> c = a")
    case True
    then show ?thesis using Cons.prems split(3) by (auto simp: set_insts_of)
  next
    case False
    then show ?thesis using Cons split by auto
  qed
qed simp

text \<open>The part of well-formedness that moving instructions about never breaks.\<close>

definition dist_func :: "func \<Rightarrow> bool" where
  "dist_func F \<longleftrightarrow> distinct (f_blocks F) \<and> distinct (all_insts F)"

lemma wf_dist_func: "wf_func F \<Longrightarrow> dist_func F"
  by (simp add: wf_func_def dist_func_def)

lemma dist_func_body: "dist_func F \<Longrightarrow> b \<in> set (f_blocks F) \<Longrightarrow> distinct (f_body F b)"
  by (auto simp: dist_func_def dest: distinct_insts_of_body)

lemma dist_same_block:
  "dist_func F \<Longrightarrow> b \<in> set (f_blocks F) \<Longrightarrow> c \<in> set (f_blocks F) \<Longrightarrow>
   i \<in> set (f_body F b) \<Longrightarrow> i \<in> set (f_body F c) \<Longrightarrow> b = c"
  by (rule distinct_insts_of_same [of F "f_blocks F"]) (auto simp: dist_func_def)

lemmas wf_same_block = dist_same_block [OF wf_dist_func]

lemma parent_Some: "parent F i = Some b \<Longrightarrow> b \<in> set (f_blocks F) \<and> i \<in> set (f_body F b)"
  by (auto simp: parent_def find_Some_iff)

lemma parent_eq:
  assumes "dist_func F" "b \<in> set (f_blocks F)" "i \<in> set (f_body F b)"
  shows "parent F i = Some b"
proof (cases "parent F i")
  case None
  then show ?thesis using assms by (auto simp: parent_def find_None_iff)
next
  case (Some c)
  then show ?thesis using assms parent_Some [OF Some] by (auto dest: dist_same_block)
qed

lemma wf_terminator:
  "wf_func F \<Longrightarrow> b \<in> set (f_blocks F) \<Longrightarrow> terminator F b = Some (last (f_body F b))"
  by (auto simp: wf_func_def terminator_def dest: wf_block_last)

section \<open>The value universe and its index\<close>

text \<open>Arguments, then every instruction that produces a value, in layout order.\<close>

definition universe :: "func \<Rightarrow> val list" where
  "universe F = map Arg (f_args F) @ map Inst (filter (\<lambda>i. \<not> is_void F i) (all_insts F))"

definition buildValueIndex :: "val list \<Rightarrow> (val \<Rightarrow> nat option)" where
  "buildValueIndex vals = foldl (\<lambda>index i. index(vals ! i \<mapsto> i)) Map.empty [0..<length vals]"

lemma build_index_fold:
  "n \<le> length vals \<Longrightarrow> distinct vals \<Longrightarrow>
   foldl (\<lambda>index i. index(vals ! i \<mapsto> i)) Map.empty [0..<n] v = Some k \<longleftrightarrow> k < n \<and> vals ! k = v"
  by (induction n arbitrary: v k) (auto simp: nth_eq_iff_index_eq less_Suc_eq)

lemma buildValueIndex_Some:
  "distinct vals \<Longrightarrow> buildValueIndex vals v = Some k \<longleftrightarrow> k < length vals \<and> vals ! k = v"
  unfolding buildValueIndex_def by (rule build_index_fold) simp_all

lemma buildValueIndex_None:
  assumes "distinct vals" shows "buildValueIndex vals v = None \<longleftrightarrow> v \<notin> set vals"
proof -
  have "buildValueIndex vals v \<noteq> None \<longleftrightarrow> v \<in> set vals"
    using buildValueIndex_Some [OF assms] by (auto simp: in_set_conv_nth)
  then show ?thesis by blast
qed

lemma distinct_universe: "wf_func F \<Longrightarrow> distinct (universe F)"
  by (auto simp: universe_def wf_func_def distinct_map inj_on_def)

section \<open>Moving an instruction\<close>

text \<open>Replace the instruction list of one block.\<close>

definition set_body :: "func \<Rightarrow> bid \<Rightarrow> iid list \<Rightarrow> func" where
  "set_body F b xs = F\<lparr>f_body := (f_body F)(b := xs)\<rparr>"

lemma set_body_simps [simp]:
  "f_body (set_body F b xs) = (f_body F)(b := xs)" "f_blocks (set_body F b xs) = f_blocks F"
  "f_args (set_body F b xs) = f_args F" "f_inst (set_body F b xs) = f_inst F"
  "f_succs (set_body F b xs) = f_succs F" "f_preds (set_body F b xs) = f_preds F"
  by (simp_all add: set_body_def)

lemma set_body_twice [simp]: "set_body (set_body F b xs) b ys = set_body F b ys"
  by (simp add: set_body_def)

lemma set_body_id: "f_body F b = xs \<Longrightarrow> set_body F b xs = F"
  by (cases F) (auto simp: set_body_def fun_upd_idem)

primrec insert_before :: "'a \<Rightarrow> 'a \<Rightarrow> 'a list \<Rightarrow> 'a list" where
  "insert_before x p [] = [x]"
| "insert_before x p (y # ys) = (if y = p then x # y # ys else y # insert_before x p ys)"

text \<open>\<open>I->moveBefore(P)\<close>: unlink \<open>I\<close> from its block and insert it in front of \<open>P\<close>
  in the block of \<open>P\<close>.\<close>

definition unlink :: "func \<Rightarrow> iid \<Rightarrow> func" where
  "unlink F i = (case parent F i of None \<Rightarrow> F
     | Some b \<Rightarrow> set_body F b (remove1 i (f_body F b)))"

definition move_before :: "func \<Rightarrow> iid \<Rightarrow> iid \<Rightarrow> func" where
  "move_before F i p = (case parent F p of None \<Rightarrow> F
     | Some b \<Rightarrow> (let G = unlink F i in set_body G b (insert_before i p (f_body G b))))"

lemma insert_before_split:
  "p \<notin> set xs \<Longrightarrow> insert_before x p (xs @ p # ys) = xs @ x # p # ys"
  by (induction xs) auto

lemma set_insert_before: "set (insert_before x p xs) = insert x (set xs)"
  by (induction xs) auto

lemma mset_insert_before: "mset (insert_before x p xs) = add_mset x (mset xs)"
  by (induction xs) auto

text \<open>Everything but the instruction lists of blocks is untouched by a move.\<close>

definition same_frame :: "func \<Rightarrow> func \<Rightarrow> bool" where
  "same_frame F G \<longleftrightarrow> f_args G = f_args F \<and> f_blocks G = f_blocks F \<and> f_inst G = f_inst F \<and>
     f_succs G = f_succs F \<and> f_preds G = f_preds F"

lemma same_frame_refl [simp]: "same_frame F F"
  by (simp add: same_frame_def)

lemma same_frame_trans [trans]: "same_frame F G \<Longrightarrow> same_frame G H \<Longrightarrow> same_frame F H"
  by (simp add: same_frame_def)

lemma same_frame_sym: "same_frame F G \<Longrightarrow> same_frame G F"
  by (simp add: same_frame_def)

lemma same_frame_queries:
  assumes "same_frame F G"
  shows "is_phi G = is_phi F" "is_term G = is_term F" "is_void G = is_void F"
    "operands G = operands F" "is_callbase G = is_callbase F"
  using assms by (auto simp: same_frame_def fun_eq_iff is_phi_def is_term_def is_void_def
      operands_def is_callbase_def)

lemma same_frame_body_upd [simp]: "same_frame F (set_body F b xs)"
  by (simp add: same_frame_def)

lemma same_frame_unlink [simp]: "same_frame F (unlink F i)"
  by (auto simp: unlink_def split: option.splits)

lemma same_frame_move [simp]: "same_frame F (move_before F i p)"
  by (auto simp: move_before_def Let_def same_frame_def unlink_def split: option.splits)

text \<open>The effect of a move on block bodies, inside one block and across two.\<close>

lemma move_before_same:
  assumes wf: "dist_func F" and b: "b \<in> set (f_blocks F)" and body: "f_body F b = xs @ i # ys @ p # zs"
  shows "move_before F i p = set_body F b (xs @ ys @ i # p # zs)"
proof -
  have d: "distinct (xs @ i # ys @ p # zs)" using dist_func_body [OF wf b] body by simp
  have "parent F p = Some b" "parent F i = Some b"
    using parent_eq [OF wf b] body by auto
  moreover have "remove1 i (xs @ i # ys @ p # zs) = (xs @ ys) @ p # zs"
    using d by (simp add: remove1_append)
  moreover have "insert_before i p ((xs @ ys) @ p # zs) = (xs @ ys) @ i # p # zs"
    by (rule insert_before_split) (use d in auto)
  ultimately show ?thesis by (simp add: move_before_def unlink_def Let_def body)
qed

lemma move_before_other:
  assumes wf: "dist_func F" and b: "b \<in> set (f_blocks F)" and c: "c \<in> set (f_blocks F)" and "b \<noteq> c"
    and bb: "f_body F b = xs @ i # ys" and bc: "f_body F c = us @ p # vs"
  shows "move_before F i p = set_body (set_body F b (xs @ ys)) c (us @ i # p # vs)"
proof -
  have d: "distinct (xs @ i # ys)" "distinct (us @ p # vs)"
    using dist_func_body [OF wf] b c bb bc by metis+
  have "parent F p = Some c" "parent F i = Some b" using parent_eq [OF wf] b c bb bc by auto
  moreover have "remove1 i (xs @ i # ys) = xs @ ys" using d by (simp add: remove1_append)
  moreover have "insert_before i p (us @ p # vs) = us @ i # p # vs"
    by (rule insert_before_split) (use d in auto)
  ultimately show ?thesis using \<open>b \<noteq> c\<close> by (simp add: move_before_def unlink_def Let_def bb bc)
qed

section \<open>Reordering the instructions of blocks\<close>

text \<open>Two functions that differ only in where instructions sit, with the same instructions
  overall.\<close>

definition same_insts :: "func \<Rightarrow> func \<Rightarrow> bool" where
  "same_insts F G \<longleftrightarrow> same_frame F G \<and> mset (all_insts G) = mset (all_insts F)"

lemma same_insts_refl [simp]: "same_insts F F"
  by (simp add: same_insts_def)

lemma same_insts_trans [trans]: "same_insts F G \<Longrightarrow> same_insts G H \<Longrightarrow> same_insts F H"
  by (auto simp: same_insts_def intro: same_frame_trans)

lemma same_insts_distinct: "same_insts F G \<Longrightarrow> distinct (all_insts F) \<Longrightarrow> distinct (all_insts G)"
  by (metis same_insts_def mset_eq_imp_distinct_iff)

lemma same_insts_dist: "same_insts F G \<Longrightarrow> dist_func F \<Longrightarrow> dist_func G"
  by (metis dist_func_def same_frame_def same_insts_def same_insts_distinct)

lemma mset_insts_of: "mset (insts_of F bs) = (\<Sum>b \<leftarrow> bs. mset (f_body F b))"
  by (induction bs) auto

lemma same_insts_wf:
  assumes si: "same_insts F G" and wf: "wf_func F"
    and blk: "\<And>b. b \<in> set (f_blocks F) \<Longrightarrow> wf_block G b"
  shows "wf_func G"
proof -
  have fr: "same_frame F G" using si by (simp add: same_insts_def)
  have "distinct (all_insts G)" using same_insts_distinct [OF si wf_distinct_insts [OF wf]] .
  then show ?thesis using wf fr blk unfolding wf_func_def same_frame_def by simp
qed

text \<open>Permuting one block keeps the instructions.\<close>

lemma same_insts_permute:
  assumes "mset ys = mset (f_body F b)"
  shows "same_insts F (set_body F b ys)"
proof -
  have "mset (insts_of (set_body F b ys) bs) = mset (insts_of F bs)" for bs
    by (induction bs) (use assms in auto)
  then show ?thesis by (simp add: same_insts_def)
qed

lemma same_insts_universe_index:
  assumes "same_insts F G"
  shows "set (universe G) = set (universe F)"
proof -
  have "set (all_insts G) = set (all_insts F)" using assms
    by (metis same_insts_def set_mset_mset)
  then show ?thesis using assms
    by (auto simp: universe_def same_insts_def same_frame_def is_void_def)
qed

end
