(* ===== verification/Legality.thy ===== *)
theory Legality
  imports LLVM_IR
begin

text \<open>
  \<open>include/scheduleLegality.hpp\<close>: which instructions are fixed scheduling anchors, and the
  reordering of a block inside its anchor-free regions.  The code moves instructions one at
  a time in front of a region's boundary; the lemmas show that the moves implement a
  functional specification on the block's instruction list, which permutes each region and
  leaves every anchor at its position.
\<close>

section \<open>Anchors and regions\<close>

definition isSchedulingAnchor :: "func \<Rightarrow> iid \<Rightarrow> bool" where
  "isSchedulingAnchor F i \<longleftrightarrow> is_phi F i \<or> is_term F i \<or> i_class (f_inst F i) = AllocaInst \<or>
     is_callbase F i \<or> i_ehpad (f_inst F i) \<or> i_token (f_inst F i) \<or>
     i_rwmem (f_inst F i) \<or> i_effects (f_inst F i)"

text \<open>The scan for maximal runs of non-anchors; the state is \<open>(regions, boundaries, current)\<close>.\<close>

definition region_step ::
    "func \<Rightarrow> iid list list \<times> iid option list \<times> iid list \<Rightarrow> iid \<Rightarrow> iid list list \<times> iid option list \<times> iid list" where
  "region_step F s i = (case s of (regions, boundaries, current) \<Rightarrow>
     (if \<not> isSchedulingAnchor F i then (regions, boundaries, current @ [i])
      else if current \<noteq> [] then (regions @ [current], boundaries @ [Some i], [])
      else (regions, boundaries, current)))"

definition region_scan :: "func \<Rightarrow> bid \<Rightarrow> iid list list \<times> iid option list" where
  "region_scan F b = (case foldl (region_step F) ([], [], []) (f_body F b) of (regions, boundaries, current) \<Rightarrow>
     (if current \<noteq> [] then (regions @ [current], boundaries @ [None]) else (regions, boundaries)))"

text \<open>The members of a region in schedule order, each once.\<close>

definition region_ordered :: "iid list \<Rightarrow> iid list \<Rightarrow> iid list" where
  "region_ordered schedule region =
     snd (foldl (\<lambda>(seen, ordered) i. if i \<in> set region \<and> i \<notin> seen then (insert i seen, ordered @ [i])
                                     else (seen, ordered)) ({}, []) schedule)"

definition reorder_region :: "iid list \<Rightarrow> func \<Rightarrow> iid list \<times> iid option \<Rightarrow> func" where
  "reorder_region schedule F rb =
     (let ordered = region_ordered schedule (fst rb)
      in if length ordered \<noteq> length (fst rb) then F
         else (case snd rb of None \<Rightarrow> F
               | Some boundary \<Rightarrow> foldl (\<lambda>G i. move_before G i boundary) F ordered))"

definition reorderBlockWithinRegions :: "iid list \<Rightarrow> func \<Rightarrow> bid \<Rightarrow> func" where
  "reorderBlockWithinRegions schedule F b = (case region_scan F b of (regions, boundaries) \<Rightarrow>
     foldl (\<lambda>G k. reorder_region schedule G (regions ! k, boundaries ! k)) F [0..<length regions])"

section \<open>Functional specification\<close>

definition region_result :: "iid list \<Rightarrow> iid list \<Rightarrow> iid list" where
  "region_result schedule region =
     (if length (region_ordered schedule region) = length region then region_ordered schedule region else region)"

fun reorder_spec :: "func \<Rightarrow> iid list \<Rightarrow> iid list \<Rightarrow> iid list \<Rightarrow> iid list" where
  "reorder_spec F schedule cur [] = cur"
| "reorder_spec F schedule cur (x # xs) =
     (if \<not> isSchedulingAnchor F x then reorder_spec F schedule (cur @ [x]) xs
      else region_result schedule cur @ x # reorder_spec F schedule [] xs)"

lemma region_ordered_props:
  "distinct (region_ordered schedule region) \<and> set (region_ordered schedule region) = set schedule \<inter> set region"
proof -
  let ?f = "\<lambda>(seen, ordered) i. if i \<in> set region \<and> i \<notin> seen then (insert i seen, ordered @ [i]) else (seen, ordered)"
  have "case foldl ?f ({}, []) xs of (seen, ord) \<Rightarrow> set ord = seen \<and> distinct ord \<and> seen = set xs \<inter> set region" for xs
    by (induction xs rule: rev_induct) (auto split: prod.splits)
  from this [of schedule] show ?thesis unfolding region_ordered_def
    by (cases "foldl ?f ({}, []) schedule") auto
qed

lemma region_ordered_filter:
  assumes "distinct schedule"
  shows "region_ordered schedule region = filter (\<lambda>i. i \<in> set region) schedule"
proof -
  let ?f = "\<lambda>(seen, ordered) i. if i \<in> set region \<and> i \<notin> seen then (insert i seen, ordered @ [i]) else (seen, ordered)"
  have "foldl ?f ({}, []) xs = (set xs \<inter> set region, filter (\<lambda>i. i \<in> set region) xs)" if "distinct xs" for xs
    using that by (induction xs rule: rev_induct) auto
  then show ?thesis using assms by (simp add: region_ordered_def)
qed

lemma region_ordered_perm:
  assumes "distinct region" "length (region_ordered schedule region) = length region"
  shows "mset (region_ordered schedule region) = mset region"
proof -
  have "card (set schedule \<inter> set region) = card (set region)"
    using assms region_ordered_props [of schedule region] by (metis distinct_card)
  then have "set schedule \<inter> set region = set region" by (intro card_subset_eq) auto
  then show ?thesis using assms(1) region_ordered_props [of schedule region]
    by (metis set_eq_iff_mset_eq_distinct)
qed

lemma mset_region_result: "distinct region \<Longrightarrow> mset (region_result schedule region) = mset region"
  by (simp add: region_result_def region_ordered_perm)

lemma length_region_result [simp]: "length (region_result schedule region) = length region"
  by (simp add: region_result_def)

lemma set_region_result: "distinct region \<Longrightarrow> set (region_result schedule region) = set region"
  using mset_region_result by (metis set_mset_mset)

lemma region_result_Nil [simp]: "region_result schedule [] = []"
  by (metis length_region_result length_0_conv)

lemma mset_reorder_spec:
  "distinct (cur @ xs) \<Longrightarrow> mset (reorder_spec F schedule cur xs) = mset (cur @ xs)"
  by (induction F schedule cur xs rule: reorder_spec.induct) (auto simp: mset_region_result)

lemma length_reorder_spec [simp]: "length (reorder_spec F schedule cur xs) = length cur + length xs"
  by (induction F schedule cur xs rule: reorder_spec.induct) auto

section \<open>The moves implement the specification\<close>

text \<open>The regions with their boundaries, as the scan finds them.\<close>

fun pieces :: "func \<Rightarrow> iid list \<Rightarrow> iid list \<Rightarrow> (iid list \<times> iid option) list" where
  "pieces F cur [] = (if cur \<noteq> [] then [(cur, None)] else [])"
| "pieces F cur (x # xs) =
     (if \<not> isSchedulingAnchor F x then pieces F (cur @ [x]) xs
      else if cur \<noteq> [] then (cur, Some x) # pieces F [] xs else pieces F [] xs)"

lemma region_scan_pieces_aux:
  assumes "length rs = length bs"
  shows "(case foldl (region_step F) (rs, bs, cur) xs of (rs', bs', cur') \<Rightarrow>
     length rs' = length bs' \<and>
     zip (if cur' \<noteq> [] then rs' @ [cur'] else rs') (if cur' \<noteq> [] then bs' @ [None] else bs') =
       zip rs bs @ pieces F cur xs)"
  using assms
proof (induction F cur xs arbitrary: rs bs rule: pieces.induct)
  case (2 F cur x xs)
  then show ?case
    using "2.IH"(2) [of "rs @ [cur]" "bs @ [Some x]"]
    by (cases "isSchedulingAnchor F x"; cases "cur = []") (auto simp: region_step_def split: prod.splits)
qed simp

lemma region_scan_pieces:
  "region_scan F b = (rs, bs) \<Longrightarrow> length rs = length bs \<and> zip rs bs = pieces F [] (f_body F b)"
  using region_scan_pieces_aux [of "[]" "[]" F "[]" "f_body F b"]
  by (auto simp: region_scan_def split: prod.splits if_splits)

lemma foldl_index_zip:
  "length rs = length bs \<Longrightarrow> foldl (\<lambda>G k. f G (rs ! k, bs ! k)) F [0..<length rs] = foldl f F (zip rs bs)"
proof -
  assume len: "length rs = length bs"
  have "zip rs bs = map (\<lambda>k. (rs ! k, bs ! k)) [0..<length rs]"
    by (rule nth_equalityI) (use len in auto)
  then show ?thesis by (simp add: foldl_map)
qed

lemma reorder_as_pieces:
  "reorderBlockWithinRegions schedule F b = foldl (reorder_region schedule) F (pieces F [] (f_body F b))"
proof -
  obtain rs bs where rb: "region_scan F b = (rs, bs)" by force
  show ?thesis
    using region_scan_pieces [OF rb] foldl_index_zip [of rs bs "reorder_region schedule" F]
    by (simp add: reorderBlockWithinRegions_def rb)
qed

text \<open>Moving all members of a run, one after another, in front of the boundary.\<close>

lemma move_run:
  assumes "dist_func F" "b \<in> set (f_blocks F)" "mset os = mset rest"
    "f_body F b = pre @ rest @ moved @ p # post"
  shows "foldl (\<lambda>G i. move_before G i p) F os = set_body F b (pre @ moved @ os @ p # post)"
  using assms
proof (induction os arbitrary: F rest moved)
  case Nil
  then have "f_body F b = pre @ moved @ [] @ p # post" by simp
  then show ?case unfolding foldl_Nil by (rule set_body_id [symmetric])
next
  case (Cons i os)
  have "i \<in> set rest" using Cons.prems(3) by (metis list.set_intros(1) set_mset_mset)
  then obtain u v where rest: "rest = u @ i # v" by (auto simp: in_set_conv_decomp)
  let ?G = "set_body F b (pre @ (u @ v) @ (moved @ [i]) @ p # post)"
  have move: "move_before F i p = ?G"
    using move_before_same [OF Cons.prems(1,2), of "pre @ u" i "v @ moved" p post] Cons.prems(4) rest by simp
  have "same_insts F ?G" by (rule same_insts_permute) (simp add: Cons.prems(4) rest)
  then have "dist_func ?G" using Cons.prems(1) by (rule same_insts_dist)
  moreover have "mset os = mset (u @ v)" using Cons.prems(3) rest by simp
  ultimately show ?case using Cons.IH [of ?G "u @ v" "moved @ [i]"] Cons.prems(2) move by simp
qed

lemma reorder_region_body:
  assumes d: "dist_func F" and b: "b \<in> set (f_blocks F)"
    and body: "f_body F b = pre @ cur @ p # post"
  shows "reorder_region schedule F (cur, Some p) =
    set_body F b (pre @ region_result schedule cur @ p # post)"
proof (cases "length (region_ordered schedule cur) = length cur")
  case True
  have "distinct cur" using dist_func_body [OF d b] body by simp
  then have "mset (region_ordered schedule cur) = mset cur" using True by (rule region_ordered_perm)
  then show ?thesis
    using move_run [OF d b, of "region_ordered schedule cur" cur pre "[]" p post] body True
    by (simp add: reorder_region_def region_result_def)
next
  case False
  then have "f_body F b = pre @ region_result schedule cur @ p # post"
    using body by (simp add: region_result_def)
  from set_body_id [OF this] False show ?thesis by (simp add: reorder_region_def)
qed

lemma pieces_frame: "f_inst G = f_inst F \<Longrightarrow> pieces G = pieces F"
proof -
  assume "f_inst G = f_inst F"
  then have "isSchedulingAnchor G = isSchedulingAnchor F"
    by (simp add: fun_eq_iff isSchedulingAnchor_def is_phi_def is_term_def is_callbase_def)
  then have "pieces G cur xs = pieces F cur xs" for cur xs
    by (induction F cur xs rule: pieces.induct) auto
  then show ?thesis by blast
qed

lemma anchor_frame: "f_inst G = f_inst F \<Longrightarrow> isSchedulingAnchor G = isSchedulingAnchor F"
  by (simp add: fun_eq_iff isSchedulingAnchor_def is_phi_def is_term_def is_callbase_def)

lemma reorder_spec_frame: "f_inst G = f_inst F \<Longrightarrow> reorder_spec G schedule cur xs = reorder_spec F schedule cur xs"
proof -
  assume "f_inst G = f_inst F"
  then have "isSchedulingAnchor G = isSchedulingAnchor F" by (rule anchor_frame)
  then show ?thesis by (induction F schedule cur xs rule: reorder_spec.induct) auto
qed

lemma reorder_pieces_body:
  assumes "dist_func F" "b \<in> set (f_blocks F)" "f_body F b = pre @ cur @ xs"
  shows "foldl (reorder_region schedule) F (pieces F cur xs) =
    set_body F b (pre @ reorder_spec F schedule cur xs)"
  using assms
proof (induction xs arbitrary: F pre cur)
  case Nil
  then have "f_body F b = pre @ reorder_spec F schedule cur []" by simp
  then have "set_body F b (pre @ reorder_spec F schedule cur []) = F"
    by (rule set_body_id)
  moreover have "foldl (reorder_region schedule) F (pieces F cur []) = F"
    by (simp add: reorder_region_def Let_def)
  ultimately show ?case by (rule trans [OF _ sym, rotated])
next
  case (Cons x xs)
  show ?case
  proof (cases "isSchedulingAnchor F x")
    case False
    then show ?thesis using Cons.IH [of F pre "cur @ [x]"] Cons.prems by simp
  next
    case True
    let ?G = "set_body F b (pre @ region_result schedule cur @ x # xs)"
    have "distinct cur" using dist_func_body [OF Cons.prems(1,2)] Cons.prems(3) by simp
    then have si: "same_insts F ?G"
      by (intro same_insts_permute) (simp add: Cons.prems(3) mset_region_result)
    have step: "foldl (reorder_region schedule) F (pieces F cur (x # xs)) =
        foldl (reorder_region schedule) ?G (pieces ?G [] xs)"
    proof (cases "cur = []")
      case True
      then have "?G = F" using Cons.prems(3) by (intro set_body_id) simp
      then show ?thesis using True \<open>isSchedulingAnchor F x\<close> by simp
    next
      case False
      have "pieces ?G = pieces F" by (rule pieces_frame) simp
      then show ?thesis
        using reorder_region_body [OF Cons.prems(1,2,3), of schedule] False True by simp
    qed
    have "foldl (reorder_region schedule) ?G (pieces ?G [] xs) =
        set_body ?G b ((pre @ region_result schedule cur @ [x]) @ reorder_spec ?G schedule [] xs)"
      by (rule Cons.IH) (use same_insts_dist [OF si Cons.prems(1)] Cons.prems(2) in simp_all)
    then show ?thesis unfolding step using True by (simp add: reorder_spec_frame [of ?G F])
  qed
qed

lemma reorderBlock_body:
  assumes "dist_func F" "b \<in> set (f_blocks F)"
  shows "reorderBlockWithinRegions schedule F b =
    set_body F b (reorder_spec F schedule [] (f_body F b))"
  using reorder_pieces_body [OF assms, of "[]" "[]" "f_body F b"] by (simp add: reorder_as_pieces)

lemma reorderBlock_same_insts:
  assumes "dist_func F" "b \<in> set (f_blocks F)"
  shows "same_insts F (reorderBlockWithinRegions schedule F b)"
  unfolding reorderBlock_body [OF assms]
  by (rule same_insts_permute) (use mset_reorder_spec [of "[]"] dist_func_body [OF assms] in simp)

section \<open>Anchors stay, dependences are kept\<close>

lemma reorder_spec_anchor:
  assumes "\<forall>i \<in> set cur. \<not> isSchedulingAnchor F i" "k < length (cur @ xs)" "isSchedulingAnchor F ((cur @ xs) ! k)"
  shows "reorder_spec F schedule cur xs ! k = (cur @ xs) ! k"
  using assms
proof (induction F schedule cur xs arbitrary: k rule: reorder_spec.induct)
  case (2 F schedule cur x xs)
  show ?case
  proof (cases "isSchedulingAnchor F x")
    case False
    then show ?thesis using "2.IH"(1) [OF False, of k] "2.prems" by simp
  next
    case True
    have "\<not> k < length cur" using "2.prems" by (auto simp: nth_append)
    then show ?thesis
      using "2.IH"(2) [of "k - length cur - 1"] True "2.prems"
      by (auto simp: nth_append nth_Cons' less_Suc_eq_0_disj)
  qed
qed simp

text \<open>Reordering keeps the order of \<open>a\<close> and \<open>b\<close> when the schedule agrees on it.\<close>

lemma reorder_spec_precedes:
  assumes "distinct (cur @ xs)" "distinct schedule" "precedes (cur @ xs) a b"
    and "a \<in> set schedule \<Longrightarrow> b \<in> set schedule \<Longrightarrow> precedes schedule a b"
  shows "precedes (reorder_spec F schedule cur xs) a b"
  using assms
proof (induction F schedule cur xs rule: reorder_spec.induct)
  case (2 F schedule cur x xs)
  show ?case
  proof (cases "isSchedulingAnchor F x")
    case False
    then show ?thesis using "2.IH"(1) [OF False] "2.prems" by simp
  next
    case True
    let ?r = "region_result schedule cur" and ?s = "reorder_spec F schedule [] xs"
    have cur: "distinct cur" and sets: "set ?r = set cur" "set ?s = set xs"
      using "2.prems"(1) set_region_result mset_reorder_spec [of "[]" xs F schedule]
      by (auto dest: mset_eq_setD)
    have "precedes ?r a b" if p: "precedes cur a b"
    proof (cases "length (region_ordered schedule cur) = length cur")
      case True
      then have "a \<in> set schedule" "b \<in> set schedule" "a \<in> set cur" "b \<in> set cur"
        using set_region_result [OF cur, of schedule] region_ordered_props [of schedule cur] precedes_in [OF p]
        by (auto simp: region_result_def)
      then show ?thesis
        using True "2.prems"(2,4) by (simp add: region_result_def region_ordered_filter precedes_filter)
    qed (use p in \<open>simp add: region_result_def\<close>)
    moreover have "precedes ?s a b" if "precedes xs a b"
      using "2.IH"(2) True that "2.prems" by simp
    ultimately show ?thesis using "2.prems"(3) True sets by (auto simp: precedes_append)
  qed
qed simp

text \<open>The shape of a well-formed block survives.\<close>

text \<open>A permutation that keeps anchors in place has its anchors in the same places.\<close>

lemma anchor_positions:
  assumes "distinct ys" "mset ys = mset xs" "\<And>k. k < length xs \<Longrightarrow> P (xs ! k) \<Longrightarrow> ys ! k = xs ! k"
    and "k < length xs" "P (ys ! k)"
  shows "ys ! k = xs ! k"
proof -
  have len: "length ys = length xs" using assms(2) by (rule mset_eq_length)
  then have "ys ! k \<in> set xs" using assms(2,4) mset_eq_setD nth_mem by metis
  then obtain j where j: "j < length xs" "xs ! j = ys ! k" by (auto simp: in_set_conv_nth)
  then have "ys ! j = ys ! k" using assms(3,5) by metis
  then have "j = k" using assms(1,4) j(1) len by (simp add: nth_eq_iff_index_eq)
  then show ?thesis using j(2) by simp
qed

text \<open>The shape of a well-formed block survives.\<close>

lemma wf_block_reorder:
  assumes wf: "wf_block F b" and d: "distinct (f_body F b)"
    and G: "f_inst G = f_inst F" "f_body G b = reorder_spec F schedule [] (f_body F b)"
  shows "wf_block G b"
proof -
  let ?xs = "f_body F b" and ?ys = "f_body G b"
  have m: "mset ?ys = mset ?xs" using G(2) mset_reorder_spec [of "[]" ?xs F schedule] d by simp
  have dy: "distinct ?ys" and len: "length ?ys = length ?xs"
    using m d mset_eq_imp_distinct_iff mset_eq_length by metis+
  have keep: "?ys ! k = ?xs ! k" if "k < length ?xs" "isSchedulingAnchor F (?xs ! k)" for k
    using reorder_spec_anchor [of "[]" F k ?xs schedule] that G(2) by simp
  have keep': "?ys ! k = ?xs ! k" if "k < length ?xs" "isSchedulingAnchor F (?ys ! k)" for k
    using anchor_positions [where P = "isSchedulingAnchor F", OF dy m keep that] by simp
  have q: "is_phi G = is_phi F" "is_term G = is_term F"
    using G(1) by (auto simp: is_phi_def is_term_def fun_eq_iff)
  have anc: "is_phi F i \<Longrightarrow> isSchedulingAnchor F i" "is_term F i \<Longrightarrow> isSchedulingAnchor F i" for i
    by (simp_all add: isSchedulingAnchor_def)
  have "is_term F (?ys ! k) \<longleftrightarrow> is_term F (?xs ! k)" "is_phi F (?ys ! k) \<longleftrightarrow> is_phi F (?xs ! k)"
    if "k < length ?xs" for k
    using keep [OF that] keep' [OF that] anc by metis+
  then have terms: "(\<forall>k < length ?ys. is_term F (?ys ! k) \<longleftrightarrow> Suc k = length ?ys)"
    and phis: "\<forall>k < length ?ys. is_phi F (?ys ! k) \<longrightarrow> (\<forall>m < k. is_phi F (?ys ! m))"
    using wf len unfolding wf_block_def by (metis, metis less_trans)
  show ?thesis using wf len terms phis mset_eq_setD [OF m] unfolding wf_block_def q by auto
qed

section \<open>Regions\<close>

text \<open>A region of a block, independently of the scan: a maximal run without anchors, up to the next
  anchor \<open>p\<close>.\<close>

definition region_at :: "func \<Rightarrow> iid list \<Rightarrow> iid list \<Rightarrow> iid list \<Rightarrow> iid \<Rightarrow> iid list \<Rightarrow> bool" where
  "region_at F body us r p vs \<longleftrightarrow> body = us @ r @ p # vs \<and> (us = [] \<or> isSchedulingAnchor F (last us)) \<and>
     (\<forall>i \<in> set r. \<not> isSchedulingAnchor F i) \<and> isSchedulingAnchor F p"

lemma reorder_spec_run:
  "\<forall>i \<in> set r. \<not> isSchedulingAnchor F i \<Longrightarrow> isSchedulingAnchor F p \<Longrightarrow>
   reorder_spec F schedule cur (r @ p # vs) = region_result schedule (cur @ r) @ p # reorder_spec F schedule [] vs"
  by (induction r arbitrary: cur) auto

lemma reorder_spec_split:
  "isSchedulingAnchor F a \<Longrightarrow>
   reorder_spec F schedule cur ((us @ [a]) @ zs) = reorder_spec F schedule cur (us @ [a]) @ reorder_spec F schedule [] zs"
  by (induction us arbitrary: cur) auto

text \<open>A region that the schedule lists completely is put in the order of the schedule.\<close>

lemma region_result_sorted:
  assumes "distinct r" "distinct schedule" "set r \<subseteq> set schedule" "precedes (region_result schedule r) i j"
  shows "precedes schedule i j"
proof -
  have "set (region_ordered schedule r) = set r" "distinct (region_ordered schedule r)"
    using region_ordered_props [of schedule r] assms(3) by auto
  then have "length (region_ordered schedule r) = length r" using assms(1) by (metis distinct_card)
  then show ?thesis
    using assms(2,4) by (simp add: region_result_def region_ordered_filter precedes_filter)
qed

lemma region_result_incomplete:
  assumes "distinct r" "\<not> set r \<subseteq> set schedule" shows "region_result schedule r = r"
proof -
  have "set (region_ordered schedule r) \<noteq> set r" using region_ordered_props [of schedule r] assms(2) by auto
  then have "length (region_ordered schedule r) \<noteq> length r"
    using region_ordered_perm [OF assms(1), of schedule] by (metis set_mset_mset)
  then show ?thesis by (simp add: region_result_def)
qed

lemma reorder_spec_region:
  assumes "region_at F body us r p vs" "distinct body" "distinct schedule"
  obtains us' r' vs' where "reorder_spec F schedule [] body = us' @ r' @ p # vs'" "length us' = length us" "mset r' = mset r"
    "if set r \<subseteq> set schedule then \<forall>i j. precedes r' i j \<longrightarrow> precedes schedule i j else r' = r"
proof -
  have body: "body = us @ r @ p # vs" and us: "us = [] \<or> isSchedulingAnchor F (last us)"
    and run: "\<forall>i \<in> set r. \<not> isSchedulingAnchor F i" "isSchedulingAnchor F p"
    using assms(1) by (simp_all add: region_at_def)
  have "reorder_spec F schedule [] body = reorder_spec F schedule [] us @ reorder_spec F schedule [] (r @ p # vs)"
    unfolding body using us reorder_spec_split [of F "last us" schedule "[]" "butlast us" "r @ p # vs"]
    by (cases "us = []") simp_all
  then have "reorder_spec F schedule [] body =
      reorder_spec F schedule [] us @ region_result schedule r @ p # reorder_spec F schedule [] vs"
    using reorder_spec_run [OF run, of schedule "[]"] by simp
  moreover have r: "distinct r" using assms(2) body by simp
  ultimately show thesis
    using that [of "reorder_spec F schedule [] us" "region_result schedule r"] mset_region_result [OF r]
      region_result_sorted [OF r assms(3)] region_result_incomplete [OF r] by simp
qed

end
