(* ===== verification/DDG.thy ===== *)
theory DDG
  imports LLVM_IR
begin

text \<open>
  \<open>include/ddg.hpp\<close> and the graph construction of \<open>include/localScheduler.hpp\<close>: the data
  dependence graph of a trace or of one block.  A graph is the vector \<open>nodes\<close>; a
  \<open>DDGNode*\<close> is a position in it, so that the mutation of nodes through pointers is the
  update of the vector.  The lemmas determine exactly which edges the construction adds,
  that the successor, predecessor and counter fields of the nodes agree, and that the graph
  of instructions in definition-before-use order only has forward edges.
\<close>

section \<open>Nodes and edges\<close>

record ddg_node =
  dn_instr :: iid
  dn_delay :: int
  dn_cp :: int          \<comment> \<open>\<open>criticalPath\<close>\<close>
  dn_pcount :: int      \<comment> \<open>\<open>predCount\<close>\<close>
  dn_succs :: "nat list"
  dn_preds :: "nat list"

type_synonym ddg = "ddg_node list"

definition leaves :: "ddg \<Rightarrow> nat list" where
  "leaves g = filter (\<lambda>n. dn_preds (g ! n) = []) [0..<length g]"

definition roots :: "ddg \<Rightarrow> nat list" where
  "roots g = filter (\<lambda>n. dn_succs (g ! n) = []) [0..<length g]"

definition getDelay :: "func \<Rightarrow> iid \<Rightarrow> int" where
  "getDelay F i = (case i_class (f_inst F i) of
       LoadInst \<Rightarrow> 3 | StoreInst \<Rightarrow> 1 | CallInst \<Rightarrow> 5
     | BinaryOperator opc \<Rightarrow> (case opc of Mul \<Rightarrow> 2 | UDiv \<Rightarrow> 10 | SDiv \<Rightarrow> 10 | OtherOp \<Rightarrow> 1)
     | _ \<Rightarrow> 1)"

definition addEdge :: "ddg \<Rightarrow> nat \<Rightarrow> nat \<Rightarrow> ddg" where
  "addEdge g src dst =
     (if dst \<in> set (dn_succs (g ! src)) then g
      else (let g1 = g[src := (g ! src)\<lparr>dn_succs := dn_succs (g ! src) @ [dst]\<rparr>];
                g2 = g1[dst := (g1 ! dst)\<lparr>dn_preds := dn_preds (g1 ! dst) @ [src]\<rparr>]
            in g2[dst := (g2 ! dst)\<lparr>dn_pcount := dn_pcount (g2 ! dst) + 1\<rparr>]))"

section \<open>Construction\<close>

definition new_node :: "func \<Rightarrow> iid \<Rightarrow> ddg_node" where
  "new_node F i = \<lparr>dn_instr = i, dn_delay = getDelay F i, dn_cp = 0, dn_pcount = 0,
     dn_succs = [], dn_preds = []\<rparr>"

type_synonym node_map = "iid \<Rightarrow> nat option"

text \<open>Append a node and record it in \<open>instrToNode\<close>.\<close>

definition push_node :: "func \<Rightarrow> ddg \<times> node_map \<Rightarrow> iid \<Rightarrow> ddg \<times> node_map" where
  "push_node F gm i = (fst gm @ [new_node F i], (snd gm)(i \<mapsto> length (fst gm)))"

definition trace_nodes :: "func \<Rightarrow> bid list \<Rightarrow> ddg \<times> node_map" where
  "trace_nodes F trace =
     foldl (\<lambda>gm i. if is_phi F i then gm else push_node F gm i) ([], Map.empty) (insts_of F trace)"

definition true_dep_operand :: "func \<Rightarrow> node_map \<Rightarrow> nat \<Rightarrow> ddg \<Rightarrow> val \<Rightarrow> ddg" where
  "true_dep_operand F m dst g v = (case v of
       Inst d \<Rightarrow> (if is_phi F d then g else if is_term F d then g
                else case m d of None \<Rightarrow> g | Some src \<Rightarrow> addEdge g src dst)
     | _ \<Rightarrow> g)"

definition true_dep_instr :: "func \<Rightarrow> node_map \<Rightarrow> ddg \<Rightarrow> iid \<Rightarrow> ddg" where
  "true_dep_instr F m g i =
     (if is_phi F i then g else if is_term F i then g
      else case m i of None \<Rightarrow> g
         | Some dst \<Rightarrow> foldl (true_dep_operand F m dst) g (operands F i))"

text \<open>Operations whose original order is kept: calls, memory accesses, side effects.\<close>

definition is_ordered :: "func \<Rightarrow> iid \<Rightarrow> bool" where
  "is_ordered F i \<longleftrightarrow> is_callbase F i \<or> i_rwmem (f_inst F i) \<or> i_effects (f_inst F i)"

definition ordered_edge :: "node_map \<Rightarrow> iid \<Rightarrow> ddg \<Rightarrow> iid \<Rightarrow> ddg" where
  "ordered_edge m i g prev = (case m prev of None \<Rightarrow> g
     | Some src \<Rightarrow> (case m i of None \<Rightarrow> g | Some dst \<Rightarrow> addEdge g src dst))"

definition ordered_instr :: "func \<Rightarrow> node_map \<Rightarrow> ddg \<times> iid list \<Rightarrow> iid \<Rightarrow> ddg \<times> iid list" where
  "ordered_instr F m go i =
     (if is_ordered F i then (foldl (ordered_edge m i) (fst go) (snd go), snd go @ [i]) else go)"

definition ordered_block :: "func \<Rightarrow> node_map \<Rightarrow> ddg \<Rightarrow> bid \<Rightarrow> ddg" where
  "ordered_block F m g b = fst (foldl (ordered_instr F m) (g, []) (f_body F b))"

definition trace_ddg :: "func \<Rightarrow> bid list \<Rightarrow> ddg" where
  "trace_ddg F trace = (case trace_nodes F trace of (g, m) \<Rightarrow>
     foldl (ordered_block F m) (foldl (true_dep_instr F m) g (insts_of F trace)) trace)"

definition buildDDG :: "func \<Rightarrow> bid list list \<Rightarrow> ddg list" where
  "buildDDG F traces = map (trace_ddg F) traces"

text \<open>The single-block graph: every instruction gets a node, PHIs and terminators too.\<close>

definition local_dep_operand :: "node_map \<Rightarrow> nat \<Rightarrow> ddg \<Rightarrow> val \<Rightarrow> ddg" where
  "local_dep_operand m dst g v = (case v of
       Inst d \<Rightarrow> (case m d of None \<Rightarrow> g | Some src \<Rightarrow> addEdge g src dst)
     | _ \<Rightarrow> g)"

definition local_dep_instr :: "func \<Rightarrow> node_map \<Rightarrow> ddg \<Rightarrow> iid \<Rightarrow> ddg" where
  "local_dep_instr F m g i = (case m i of None \<Rightarrow> g
     | Some dst \<Rightarrow> foldl (local_dep_operand m dst) g (operands F i))"

definition buildLocalDDG :: "func \<Rightarrow> bid \<Rightarrow> ddg" where
  "buildLocalDDG F b = (case foldl (push_node F) ([], Map.empty) (f_body F b) of (g, m) \<Rightarrow>
     ordered_block F m (foldl (local_dep_instr F m) g (f_body F b)) b)"

section \<open>Well-formed graphs\<close>

definition ddg_edge :: "ddg \<Rightarrow> nat \<Rightarrow> nat \<Rightarrow> bool" where
  "ddg_edge g a b \<longleftrightarrow> a < length g \<and> b \<in> set (dn_succs (g ! a))"

definition wf_ddg :: "ddg \<Rightarrow> bool" where
  "wf_ddg g \<longleftrightarrow> (\<forall>a < length g. distinct (dn_succs (g ! a)) \<and> distinct (dn_preds (g ! a)) \<and>
     set (dn_succs (g ! a)) \<subseteq> {..<length g} \<and> set (dn_preds (g ! a)) \<subseteq> {..<length g} \<and>
     dn_pcount (g ! a) = int (length (dn_preds (g ! a))) \<and>
     (\<forall>b < length g. b \<in> set (dn_succs (g ! a)) \<longleftrightarrow> a \<in> set (dn_preds (g ! b))))"

text \<open>What an edge insertion leaves alone.\<close>

definition node_data :: "ddg_node \<Rightarrow> iid \<times> int \<times> int" where
  "node_data n = (dn_instr n, dn_delay n, dn_cp n)"

lemma ddg_edge_range: "wf_ddg g \<Longrightarrow> ddg_edge g a b \<Longrightarrow> a < length g \<and> b < length g"
  by (auto simp: wf_ddg_def ddg_edge_def)

lemma length_addEdge [simp]: "length (addEdge g s d) = length g"
  by (simp add: addEdge_def Let_def)

lemma addEdge_nth:
  assumes "s < length g" "d < length g" "a < length g"
  shows "dn_succs (addEdge g s d ! a) =
      (if a = s \<and> d \<notin> set (dn_succs (g ! s)) then dn_succs (g ! a) @ [d] else dn_succs (g ! a))"
    and "dn_preds (addEdge g s d ! a) =
      (if a = d \<and> d \<notin> set (dn_succs (g ! s)) then dn_preds (g ! a) @ [s] else dn_preds (g ! a))"
    and "dn_pcount (addEdge g s d ! a) =
      (if a = d \<and> d \<notin> set (dn_succs (g ! s)) then dn_pcount (g ! a) + 1 else dn_pcount (g ! a))"
    and "node_data (addEdge g s d ! a) = node_data (g ! a)"
  using assms by (auto simp: addEdge_def Let_def nth_list_update node_data_def)

lemma wf_addEdge:
  assumes wf: "wf_ddg g" and s: "s < length g" and d: "d < length g"
  shows "wf_ddg (addEdge g s d)"
proof (cases "d \<in> set (dn_succs (g ! s))")
  case True
  then show ?thesis using wf by (simp add: addEdge_def)
next
  case False
  then have "s \<notin> set (dn_preds (g ! d))" using wf s d by (auto simp: wf_ddg_def)
  then show ?thesis using wf s d False
    unfolding wf_ddg_def length_addEdge
    by (intro allI impI) (simp add: addEdge_nth; blast)
qed

lemma ddg_edge_addEdge:
  "s < length g \<Longrightarrow> d < length g \<Longrightarrow> ddg_edge (addEdge g s d) a b \<longleftrightarrow> ddg_edge g a b \<or> (a = s \<and> b = d)"
  unfolding ddg_edge_def by (cases "a < length g") (auto simp: addEdge_nth)

text \<open>A batch of insertions.\<close>

definition addEdges :: "ddg \<Rightarrow> (nat \<times> nat) list \<Rightarrow> ddg" where
  "addEdges g ps = foldl (\<lambda>g (s, d). addEdge g s d) g ps"

lemma addEdges_simps [simp]:
  "addEdges g [] = g" "addEdges g ((s, d) # ps) = addEdges (addEdge g s d) ps"
  "addEdges g (ps @ qs) = addEdges (addEdges g ps) qs"
  by (simp_all add: addEdges_def)

lemma addEdges_props:
  assumes "wf_ddg g" "\<forall>(s, d) \<in> set ps. s < length g \<and> d < length g"
  shows "wf_ddg (addEdges g ps) \<and> length (addEdges g ps) = length g \<and>
    map node_data (addEdges g ps) = map node_data g \<and>
    (\<forall>a b. ddg_edge (addEdges g ps) a b \<longleftrightarrow> ddg_edge g a b \<or> (a, b) \<in> set ps)"
  using assms
proof (induction ps arbitrary: g)
  case (Cons p ps)
  obtain s d where p: "p = (s, d)" by (cases p)
  then have sd: "s < length g" "d < length g" using Cons.prems by auto
  have "map node_data (addEdge g s d) = map node_data g"
    by (rule nth_equalityI) (use sd in \<open>simp_all add: addEdge_nth\<close>)
  then show ?case
    using Cons.IH [of "addEdge g s d"] Cons.prems sd p wf_addEdge ddg_edge_addEdge by auto
qed simp

section \<open>The edges of the construction\<close>

text \<open>\<open>node_index xs m\<close>: the map gives each instruction of \<open>xs\<close> its position.\<close>

definition node_index :: "iid list \<Rightarrow> node_map \<Rightarrow> bool" where
  "node_index xs m \<longleftrightarrow> distinct xs \<and> (\<forall>i k. m i = Some k \<longleftrightarrow> k < length xs \<and> xs ! k = i)"

lemma push_nodes:
  assumes "distinct xs"
  shows "fst (foldl (push_node F) ([], Map.empty) xs) = map (new_node F) xs \<and>
    node_index xs (snd (foldl (push_node F) ([], Map.empty) xs))"
  using assms
proof (induction xs rule: rev_induct)
  case (snoc x xs)
  then show ?case
    by (auto simp: push_node_def node_index_def nth_append less_Suc_eq in_set_conv_nth)
qed (simp add: node_index_def)

lemma trace_nodes_filter:
  "trace_nodes F trace =
     foldl (push_node F) ([], Map.empty) (filter (\<lambda>i. \<not> is_phi F i) (insts_of F trace))"
proof -
  have "foldl (\<lambda>gm i. if is_phi F i then gm else push_node F gm i) gm xs =
      foldl (push_node F) gm (filter (\<lambda>i. \<not> is_phi F i) xs)" for gm xs
    by (induction xs arbitrary: gm) auto
  then show ?thesis by (simp add: trace_nodes_def)
qed

lemma wf_new_nodes: "wf_ddg (map (new_node F) xs)"
  by (auto simp: wf_ddg_def new_node_def)

lemma no_edge_new_nodes: "\<not> ddg_edge (map (new_node F) xs) a b"
  by (auto simp: ddg_edge_def new_node_def)

text \<open>Each loop of the construction as a batch of edges.\<close>

definition operand_pairs :: "(iid \<Rightarrow> bool) \<Rightarrow> node_map \<Rightarrow> nat \<Rightarrow> val list \<Rightarrow> (nat \<times> nat) list" where
  "operand_pairs skip m dst vs = concat (map (\<lambda>v. case v of
       Inst d \<Rightarrow> (if skip d then [] else case m d of None \<Rightarrow> [] | Some src \<Rightarrow> [(src, dst)])
     | _ \<Rightarrow> []) vs)"

definition dep_pairs :: "func \<Rightarrow> (iid \<Rightarrow> bool) \<Rightarrow> node_map \<Rightarrow> iid \<Rightarrow> (nat \<times> nat) list" where
  "dep_pairs F skip m i = (if skip i then [] else case m i of None \<Rightarrow> []
     | Some dst \<Rightarrow> operand_pairs skip m dst (operands F i))"

definition order_pairs :: "node_map \<Rightarrow> iid \<Rightarrow> iid list \<Rightarrow> (nat \<times> nat) list" where
  "order_pairs m i prevs = concat (map (\<lambda>prev. case m prev of None \<Rightarrow> []
     | Some src \<Rightarrow> (case m i of None \<Rightarrow> [] | Some dst \<Rightarrow> [(src, dst)])) prevs)"

lemma true_dep_operands:
  "foldl (true_dep_operand F m dst) g vs = addEdges g (operand_pairs (\<lambda>d. is_phi F d \<or> is_term F d) m dst vs)"
  by (induction vs arbitrary: g)
    (auto simp: operand_pairs_def true_dep_operand_def split: val.splits option.splits)

lemma local_dep_operands:
  "foldl (local_dep_operand m dst) g vs = addEdges g (operand_pairs (\<lambda>_. False) m dst vs)"
  by (induction vs arbitrary: g)
    (auto simp: operand_pairs_def local_dep_operand_def split: val.splits option.splits)

lemma true_dep_instrs:
  "foldl (true_dep_instr F m) g xs =
     addEdges g (concat (map (dep_pairs F (\<lambda>d. is_phi F d \<or> is_term F d) m) xs))"
  by (induction xs arbitrary: g)
    (auto simp: true_dep_instr_def dep_pairs_def true_dep_operands split: option.splits)

lemma local_dep_instrs:
  "foldl (local_dep_instr F m) g xs = addEdges g (concat (map (dep_pairs F (\<lambda>_. False) m) xs))"
  by (induction xs arbitrary: g)
    (auto simp: local_dep_instr_def dep_pairs_def local_dep_operands split: option.splits)

lemma ordered_edges: "foldl (ordered_edge m i) g prevs = addEdges g (order_pairs m i prevs)"
  by (induction prevs arbitrary: g) (auto simp: order_pairs_def ordered_edge_def split: option.splits)

lemma set_operand_pairs:
  "(a, b) \<in> set (operand_pairs skip m dst vs) \<longleftrightarrow>
     b = dst \<and> (\<exists>d. Inst d \<in> set vs \<and> \<not> skip d \<and> m d = Some a)"
  by (induction vs) (auto simp: operand_pairs_def split: val.splits option.splits if_splits)

lemma set_dep_pairs:
  "(a, b) \<in> set (dep_pairs F skip m i) \<longleftrightarrow>
     \<not> skip i \<and> m i = Some b \<and> (\<exists>d. Inst d \<in> set (operands F i) \<and> \<not> skip d \<and> m d = Some a)"
  by (auto simp: dep_pairs_def set_operand_pairs split: option.splits)

lemma set_order_pairs:
  "(a, b) \<in> set (order_pairs m i prevs) \<longleftrightarrow> m i = Some b \<and> (\<exists>p \<in> set prevs. m p = Some a)"
  by (induction prevs) (auto simp: order_pairs_def split: option.splits)

lemma ordered_block_pairs:
  "\<exists>ps. ordered_block F m g b = addEdges g ps \<and>
     (\<forall>x y. (x, y) \<in> set ps \<longleftrightarrow> (\<exists>i j. precedes (f_body F b) i j \<and> is_ordered F i \<and> is_ordered F j \<and>
        m i = Some x \<and> m j = Some y))"
proof -
  have "\<exists>ps. foldl (ordered_instr F m) (g, []) xs = (addEdges g ps, filter (is_ordered F) xs) \<and>
      (\<forall>x y. (x, y) \<in> set ps \<longleftrightarrow> (\<exists>i j. precedes (filter (is_ordered F) xs) i j \<and> m i = Some x \<and> m j = Some y))" for xs
  proof (induction xs rule: rev_induct)
    case Nil
    show ?case by (rule exI [of _ "[]"]) simp
  next
    case (snoc i xs)
    then obtain ps where ps: "foldl (ordered_instr F m) (g, []) xs = (addEdges g ps, filter (is_ordered F) xs)"
      "\<And>x y. (x, y) \<in> set ps \<longleftrightarrow> (\<exists>i j. precedes (filter (is_ordered F) xs) i j \<and> m i = Some x \<and> m j = Some y)"
      by blast
    show ?case
    proof (cases "is_ordered F i")
      case True
      have "foldl (ordered_instr F m) (g, []) (xs @ [i]) =
          (addEdges g (ps @ order_pairs m i (filter (is_ordered F) xs)), filter (is_ordered F) (xs @ [i]))"
        using ps(1) True by (simp add: ordered_instr_def ordered_edges)
      moreover have "(x, y) \<in> set (ps @ order_pairs m i (filter (is_ordered F) xs)) \<longleftrightarrow>
          (\<exists>j k. precedes (filter (is_ordered F) (xs @ [i])) j k \<and> m j = Some x \<and> m k = Some y)" for x y
        using ps(2) True by (auto simp: set_order_pairs precedes_append)
      ultimately show ?thesis by blast
    next
      case False
      then have "ordered_instr F m go i = go" for go by (simp add: ordered_instr_def)
      then show ?thesis by (intro exI [of _ ps]) (use ps False in simp)
    qed
  qed
  then obtain ps where "foldl (ordered_instr F m) (g, []) (f_body F b) = (addEdges g ps, filter (is_ordered F) (f_body F b))"
    "\<And>x y. (x, y) \<in> set ps \<longleftrightarrow> (\<exists>i j. precedes (filter (is_ordered F) (f_body F b)) i j \<and> m i = Some x \<and> m j = Some y)"
    by blast
  then show ?thesis unfolding ordered_block_def precedes_filter by (intro exI [of _ ps]) auto
qed

lemma ordered_blocks_pairs:
  "\<exists>ps. foldl (ordered_block F m) g bs = addEdges g ps \<and>
     (\<forall>x y. (x, y) \<in> set ps \<longleftrightarrow> (\<exists>b \<in> set bs. \<exists>i j. precedes (f_body F b) i j \<and> is_ordered F i \<and>
        is_ordered F j \<and> m i = Some x \<and> m j = Some y))"
proof (induction bs arbitrary: g)
  case Nil
  show ?case by (rule exI [of _ "[]"]) simp
next
  case (Cons b bs)
  obtain ps where ps: "ordered_block F m g b = addEdges g ps"
    "\<And>x y. (x, y) \<in> set ps \<longleftrightarrow> (\<exists>i j. precedes (f_body F b) i j \<and> is_ordered F i \<and> is_ordered F j \<and>
        m i = Some x \<and> m j = Some y)"
    using ordered_block_pairs [of F m g b] by blast
  obtain qs where qs: "foldl (ordered_block F m) (addEdges g ps) bs = addEdges (addEdges g ps) qs"
    "\<And>x y. (x, y) \<in> set qs \<longleftrightarrow> (\<exists>b \<in> set bs. \<exists>i j. precedes (f_body F b) i j \<and> is_ordered F i \<and>
        is_ordered F j \<and> m i = Some x \<and> m j = Some y)"
    using Cons.IH by blast
  have "foldl (ordered_block F m) g (b # bs) = addEdges g (ps @ qs)" using ps(1) qs(1) by simp
  moreover have "(x, y) \<in> set (ps @ qs) \<longleftrightarrow> (\<exists>b \<in> set (b # bs). \<exists>i j. precedes (f_body F b) i j \<and> is_ordered F i \<and>
      is_ordered F j \<and> m i = Some x \<and> m j = Some y)" for x y
    using ps(2) qs(2) by auto
  ultimately show ?case by blast
qed

text \<open>The dependences between instructions that a graph must encode.\<close>

definition ordered_dep :: "func \<Rightarrow> bid list \<Rightarrow> iid \<Rightarrow> iid \<Rightarrow> bool" where
  "ordered_dep F bs i j \<longleftrightarrow> is_ordered F i \<and> is_ordered F j \<and> (\<exists>b \<in> set bs. precedes (f_body F b) i j)"

definition trace_dep :: "func \<Rightarrow> bid list \<Rightarrow> iid \<Rightarrow> iid \<Rightarrow> bool" where
  "trace_dep F trace i j \<longleftrightarrow>
     (Inst i \<in> set (operands F j) \<and> \<not> is_term F i \<and> \<not> is_term F j) \<or> ordered_dep F trace i j"

definition local_dep :: "func \<Rightarrow> bid \<Rightarrow> iid \<Rightarrow> iid \<Rightarrow> bool" where
  "local_dep F b i j \<longleftrightarrow> Inst i \<in> set (operands F j) \<or> ordered_dep F [b] i j"

abbreviation trace_insts :: "func \<Rightarrow> bid list \<Rightarrow> iid list" where
  "trace_insts F trace \<equiv> filter (\<lambda>i. \<not> is_phi F i) (insts_of F trace)"

text \<open>\<open>graph_of\<close>: a well-formed graph on the instructions \<open>xs\<close> whose edges are exactly the
  dependences.\<close>

definition graph_of :: "(iid \<Rightarrow> int) \<Rightarrow> (iid \<Rightarrow> iid \<Rightarrow> bool) \<Rightarrow> iid list \<Rightarrow> ddg \<Rightarrow> bool" where
  "graph_of delay dep xs g \<longleftrightarrow> wf_ddg g \<and> map dn_instr g = xs \<and> map dn_delay g = map delay xs \<and>
     (\<forall>a b. ddg_edge g a b \<longleftrightarrow> a < length xs \<and> b < length xs \<and> dep (xs ! a) (xs ! b))"

lemma set_dep_pairs_all:
  assumes "\<And>i k. m i = Some k \<Longrightarrow> i \<in> set xs"
  shows "(a, b) \<in> set (concat (map (dep_pairs F skip m) xs)) \<longleftrightarrow>
    (\<exists>i j. m i = Some a \<and> m j = Some b \<and> Inst i \<in> set (operands F j) \<and> \<not> skip i \<and> \<not> skip j)"
  using assms by (auto simp: set_dep_pairs)

lemma graph_ofI:
  assumes idx: "node_index xs m"
    and pairs: "\<And>a b. (a, b) \<in> set ps \<longleftrightarrow> (\<exists>i j. m i = Some a \<and> m j = Some b \<and> dep i j)"
  shows "graph_of (getDelay F) dep xs (addEdges (map (new_node F) xs) ps)"
proof -
  have m: "m i = Some k \<longleftrightarrow> k < length xs \<and> xs ! k = i" for i k using idx by (simp add: node_index_def)
  have range: "\<forall>(s, d) \<in> set ps. s < length (map (new_node F) xs) \<and> d < length (map (new_node F) xs)"
    using pairs m by auto
  note e = addEdges_props [OF wf_new_nodes range]
  have data: "map node_data (addEdges (map (new_node F) xs) ps) = map (\<lambda>i. (i, getDelay F i, 0)) xs"
    using e by (simp add: new_node_def node_data_def comp_def)
  have "map (fst \<circ> node_data) (addEdges (map (new_node F) xs) ps) = xs"
    "map ((\<lambda>d. fst (snd d)) \<circ> node_data) (addEdges (map (new_node F) xs) ps) = map (getDelay F) xs"
    unfolding map_map [symmetric] data by (simp_all add: comp_def)
  then have "map dn_instr (addEdges (map (new_node F) xs) ps) = xs"
    "map dn_delay (addEdges (map (new_node F) xs) ps) = map (getDelay F) xs"
    by (simp_all add: comp_def node_data_def)
  then show ?thesis
    using e pairs m no_edge_new_nodes unfolding graph_of_def by auto
qed

lemma trace_ddg_graph:
  assumes d: "distinct (insts_of F trace)"
  shows "graph_of (getDelay F) (trace_dep F trace) (trace_insts F trace) (trace_ddg F trace)"
proof -
  let ?xs = "trace_insts F trace"
  obtain g m where gm: "foldl (push_node F) ([], Map.empty) ?xs = (g, m)" by force
  have g: "g = map (new_node F) ?xs" and idx: "node_index ?xs m"
    using push_nodes [of ?xs F] d gm by auto
  have m: "m i = Some k \<Longrightarrow> i \<in> set ?xs" for i k
    using idx unfolding node_index_def by (metis nth_mem)
  let ?ps = "concat (map (dep_pairs F (\<lambda>d. is_phi F d \<or> is_term F d) m) (insts_of F trace))"
  obtain qs where qs: "foldl (ordered_block F m) (addEdges g ?ps) trace = addEdges (addEdges g ?ps) qs"
    "\<And>x y. (x, y) \<in> set qs \<longleftrightarrow> (\<exists>b \<in> set trace. \<exists>i j. precedes (f_body F b) i j \<and> is_ordered F i \<and>
        is_ordered F j \<and> m i = Some x \<and> m j = Some y)"
    using ordered_blocks_pairs [of F m "addEdges g ?ps" trace] by blast
  have eq: "trace_ddg F trace = addEdges (map (new_node F) ?xs) (?ps @ qs)"
    using qs(1) gm g by (simp add: trace_ddg_def trace_nodes_filter true_dep_instrs)
  have pairs: "(a, b) \<in> set (?ps @ qs) \<longleftrightarrow> (\<exists>i j. m i = Some a \<and> m j = Some b \<and> trace_dep F trace i j)" for a b
  proof -
    have skip: "m i = Some k \<Longrightarrow> \<not> is_phi F i" for i k using m by fastforce
    have "(a, b) \<in> set ?ps \<longleftrightarrow> (\<exists>i j. m i = Some a \<and> m j = Some b \<and> Inst i \<in> set (operands F j) \<and>
        \<not> is_term F i \<and> \<not> is_term F j)"
      by (subst set_dep_pairs_all) (use m skip in fastforce)+
    then show ?thesis using qs(2) [of a b] unfolding trace_dep_def ordered_dep_def set_append by blast
  qed
  show ?thesis unfolding eq by (rule graph_ofI [OF idx pairs])
qed

lemma local_ddg_graph:
  assumes d: "distinct (f_body F b)"
  shows "graph_of (getDelay F) (local_dep F b) (f_body F b) (buildLocalDDG F b)"
proof -
  let ?xs = "f_body F b"
  obtain g m where gm: "foldl (push_node F) ([], Map.empty) ?xs = (g, m)" by force
  have g: "g = map (new_node F) ?xs" and idx: "node_index ?xs m"
    using push_nodes [OF d, of F] gm by auto
  have m: "m i = Some k \<Longrightarrow> i \<in> set ?xs" for i k
    using idx unfolding node_index_def by (metis nth_mem)
  let ?ps = "concat (map (dep_pairs F (\<lambda>_. False) m) ?xs)"
  obtain qs where qs: "ordered_block F m (addEdges g ?ps) b = addEdges (addEdges g ?ps) qs"
    "\<And>x y. (x, y) \<in> set qs \<longleftrightarrow> (\<exists>i j. precedes (f_body F b) i j \<and> is_ordered F i \<and>
        is_ordered F j \<and> m i = Some x \<and> m j = Some y)"
    using ordered_block_pairs [of F m "addEdges g ?ps" b] by blast
  have eq: "buildLocalDDG F b = addEdges (map (new_node F) ?xs) (?ps @ qs)"
    using qs(1) gm g by (simp add: buildLocalDDG_def local_dep_instrs)
  have pairs: "(a, c) \<in> set (?ps @ qs) \<longleftrightarrow> (\<exists>i j. m i = Some a \<and> m j = Some c \<and> local_dep F b i j)" for a c
  proof -
    have "(a, c) \<in> set ?ps \<longleftrightarrow> (\<exists>i j. m i = Some a \<and> m j = Some c \<and> Inst i \<in> set (operands F j))"
      by (subst set_dep_pairs_all) (use m in auto)
    then show ?thesis using qs(2) [of a c] unfolding local_dep_def ordered_dep_def set_append by auto
  qed
  show ?thesis unfolding eq by (rule graph_ofI [OF idx pairs])
qed

text \<open>Before \<open>computeCriticalPath\<close> every \<open>criticalPath\<close> is 0.\<close>

lemma map_update_same: "f x = f (xs ! k) \<Longrightarrow> map f (xs[k := x]) = map f xs"
  by (cases "k < length xs") (simp_all add: map_update list_update_same_conv list_update_beyond)

lemma addEdge_cp: "map dn_cp (addEdge g s d) = map dn_cp g"
proof -
  have "map dn_cp ((g1 :: ddg)[k := (g1 ! k)\<lparr>dn_succs := ss\<rparr>]) = map dn_cp g1"
    "map dn_cp (g1[k := (g1 ! k)\<lparr>dn_preds := ss\<rparr>]) = map dn_cp g1"
    "map dn_cp (g1[k := (g1 ! k)\<lparr>dn_pcount := n\<rparr>]) = map dn_cp g1" for g1 k ss n
    by (rule map_update_same, simp)+
  then show ?thesis unfolding addEdge_def Let_def by presburger
qed

lemma addEdges_cp: "map dn_cp (addEdges g ps) = map dn_cp g"
  by (induction ps arbitrary: g) (auto simp: addEdge_cp split: prod.splits)

lemma new_nodes_cp: "n < length xs \<Longrightarrow> dn_cp (map (new_node F) xs ! n) = 0"
  by (simp add: new_node_def)

lemma trace_ddg_fresh:
  assumes d: "distinct (insts_of F trace)"
  shows "\<forall>n < length (trace_ddg F trace). dn_cp (trace_ddg F trace ! n) = 0"
proof -
  let ?xs = "trace_insts F trace"
  obtain g m where gm: "foldl (push_node F) ([], Map.empty) ?xs = (g, m)" by force
  have g: "g = map (new_node F) ?xs" using push_nodes [of ?xs F] d gm by auto
  obtain ps where "trace_ddg F trace = addEdges g ps"
    using ordered_blocks_pairs [of F m _ trace] gm
    by (simp add: trace_ddg_def trace_nodes_filter true_dep_instrs) (metis addEdges_simps(3))
  then have "map dn_cp (trace_ddg F trace) = map dn_cp (map (new_node F) ?xs)" using g addEdges_cp by simp
  then show ?thesis using new_nodes_cp by (metis length_map nth_map)
qed

lemma local_ddg_fresh:
  assumes d: "distinct (f_body F b)"
  shows "\<forall>n < length (buildLocalDDG F b). dn_cp (buildLocalDDG F b ! n) = 0"
proof -
  let ?xs = "f_body F b"
  obtain g m where gm: "foldl (push_node F) ([], Map.empty) ?xs = (g, m)" by force
  have g: "g = map (new_node F) ?xs" using push_nodes [OF d, of F] gm by auto
  obtain ps where "buildLocalDDG F b = addEdges g ps"
    using ordered_block_pairs [of F m _ b] gm
    by (simp add: buildLocalDDG_def local_dep_instrs) (metis addEdges_simps(3))
  then have "map dn_cp (buildLocalDDG F b) = map dn_cp (map (new_node F) ?xs)" using g addEdges_cp by simp
  then show ?thesis using new_nodes_cp by (metis length_map nth_map)
qed

section \<open>Acyclicity\<close>

text \<open>In a list where definitions come before their uses, all edges go forward.\<close>

definition defs_first :: "func \<Rightarrow> iid list \<Rightarrow> bool" where
  "defs_first F xs \<longleftrightarrow> (\<forall>j \<in> set xs. \<forall>i \<in> set xs. Inst i \<in> set (operands F j) \<longrightarrow> precedes xs i j)"

definition forward :: "ddg \<Rightarrow> bool" where
  "forward g \<longleftrightarrow> (\<forall>a b. ddg_edge g a b \<longrightarrow> a < b)"

lemma graph_of_forward:
  assumes "graph_of delay dep xs g" "distinct xs"
    and "\<And>i j. i \<in> set xs \<Longrightarrow> j \<in> set xs \<Longrightarrow> dep i j \<Longrightarrow> precedes xs i j"
  shows "forward g"
  unfolding forward_def
proof (intro allI impI)
  fix a b assume "ddg_edge g a b"
  then have ab: "a < length xs" "b < length xs" and "dep (xs ! a) (xs ! b)"
    using assms(1) by (auto simp: graph_of_def)
  then have "precedes xs (xs ! a) (xs ! b)" using assms(3) nth_mem by blast
  then show "a < b" using precedes_nth [OF assms(2) ab] by simp
qed

lemma trace_ddg_forward:
  assumes d: "distinct (insts_of F trace)" and first: "defs_first F (trace_insts F trace)"
  shows "forward (trace_ddg F trace)"
proof (rule graph_of_forward [OF trace_ddg_graph [OF d]])
  show "distinct (trace_insts F trace)" using d by simp
  show "precedes (trace_insts F trace) i j"
    if "i \<in> set (trace_insts F trace)" "j \<in> set (trace_insts F trace)" "trace_dep F trace i j" for i j
    using that first precedes_concat [of _ trace "f_body F" i j]
    by (auto simp: trace_dep_def ordered_dep_def defs_first_def precedes_filter insts_of_def)
qed

lemma getDelay_bounds: "1 \<le> getDelay F i \<and> getDelay F i \<le> 10"
  by (simp add: getDelay_def split: iclass.splits opcode.splits)

lemma graph_delays:
  assumes "graph_of (getDelay F) dep xs g"
  shows "\<forall>k < length g. 0 < dn_delay (g ! k) \<and> dn_delay (g ! k) \<le> 10"
proof (intro allI impI)
  fix k assume k: "k < length g"
  have "map dn_delay g = map (getDelay F) xs" using assms by (simp add: graph_of_def)
  then have "k < length xs" "dn_delay (g ! k) = getDelay F (xs ! k)" using k by (metis length_map, metis length_map nth_map)
  then show "0 < dn_delay (g ! k) \<and> dn_delay (g ! k) \<le> 10" using getDelay_bounds [of F "xs ! k"] by simp
qed

end
