(* ===== verification/Critical.thy ===== *)
theory Critical
  imports DDG
begin

text \<open>
  \<open>include/critical.hpp\<close>: a depth-first topological sort of the graph and the critical
  path of each node, the length of the longest latency-weighted path from the node to a
  sink.  The sort visits every node once on any graph, cyclic ones included; on an acyclic
  graph every node comes after its successors in the depth-first result; and where edges go
  forward, as in every identified trace, the computed value is the weight of a longest path.
\<close>

section \<open>Topological sort\<close>

definition succs_of :: "ddg \<Rightarrow> nat \<Rightarrow> nat list" where
  "succs_of g n = (if n < length g then dn_succs (g ! n) else [])"

text \<open>The loop \<open>for (n : ns) if (!visited.count(n)) topoSortDFS(n)\<close>, which is both the body
  of \<open>topoSortDFS\<close> (over the successors) and of \<open>topologicalSort\<close> (over all nodes).  The
  state is the pair of \<open>visited\<close> and \<open>result\<close>.\<close>

function topo_visit :: "ddg \<Rightarrow> nat list \<Rightarrow> nat set \<Rightarrow> nat list \<Rightarrow> nat set \<times> nat list" where
  "topo_visit g [] V R = (V, R)"
| "topo_visit g (n # ns) V R =
     (if n \<in> V then topo_visit g ns V R
      else (case topo_visit g (succs_of g n) (insert n V) R of
              (V1, R1) \<Rightarrow> topo_visit g ns V1 (R1 @ [n])))"
  by pat_completeness auto

lemma topo_visit_grows:
  "topo_visit_dom (g, ns, V, R) \<Longrightarrow> V \<subseteq> fst (topo_visit g ns V R)"
  by (induction g ns V R rule: topo_visit.pinduct)
    (fastforce simp: topo_visit.psimps split: prod.splits)+

termination topo_visit
proof (relation "inv_image (finite_psubset <*lex*> less_than)
    (\<lambda>(g, ns, V, _). ({..<length g} - V, length ns))", goal_cases)
  case 1
  show ?case by auto
next
  case (3 g n ns V R)
  then show ?case by (cases "n < length g") (auto simp: finite_psubset_def succs_of_def)
next
  case (4 g n ns V R V1 R1)
  then have "insert n V \<subseteq> V1"
    using topo_visit_grows [of g "succs_of g n" "insert n V" R] by (metis fst_conv)
  then show ?case by (auto simp: finite_psubset_def)
qed (auto simp: finite_psubset_def)

definition topoSortDFS :: "ddg \<Rightarrow> nat \<Rightarrow> nat set \<Rightarrow> nat list \<Rightarrow> nat set \<times> nat list" where
  "topoSortDFS g n V R =
     (case topo_visit g (succs_of g n) (insert n V) R of (V1, R1) \<Rightarrow> (V1, R1 @ [n]))"

lemma topo_visit_DFS:
  "topo_visit g (n # ns) V R =
     (if n \<in> V then topo_visit g ns V R else case topoSortDFS g n V R of (V1, R1) \<Rightarrow> topo_visit g ns V1 R1)"
  by (simp add: topoSortDFS_def split: prod.splits)

definition topologicalSort :: "ddg \<Rightarrow> nat list" where
  "topologicalSort g = rev (snd (topo_visit g [0..<length g] {} []))"

section \<open>Critical paths\<close>

definition max_succ_cp :: "ddg \<Rightarrow> nat \<Rightarrow> int" where
  "max_succ_cp g n =
     foldl (\<lambda>maxCP s. if dn_cp (g ! s) > maxCP then dn_cp (g ! s) else maxCP) 0 (dn_succs (g ! n))"

definition cp_step :: "ddg \<Rightarrow> nat \<Rightarrow> ddg" where
  "cp_step g n =
     (if dn_succs (g ! n) = [] then g[n := (g ! n)\<lparr>dn_cp := dn_delay (g ! n)\<rparr>]
      else g[n := (g ! n)\<lparr>dn_cp := dn_delay (g ! n) + max_succ_cp g n\<rparr>])"

definition computeCriticalPath :: "ddg \<Rightarrow> ddg" where
  "computeCriticalPath g = foldl cp_step g (rev (topologicalSort g))"

section \<open>The sort visits every node once\<close>

text \<open>On every graph: the result grows by exactly the newly visited nodes, each once.\<close>

lemma topo_visit_nodes:
  assumes "topo_visit g ns V R = (V', R')" "set R \<subseteq> V"
  shows "V \<subseteq> V' \<and> set ns \<subseteq> V' \<and> set R' = set R \<union> (V' - V) \<and> (distinct R \<longrightarrow> distinct R')"
  using assms
proof (induction g ns V R arbitrary: V' R' rule: topo_visit.induct)
  case (2 g n ns V R)
  show ?case
  proof (cases "n \<in> V")
    case True
    then show ?thesis using 2 by auto
  next
    case False
    obtain V1 R1 where in1: "topo_visit g (succs_of g n) (insert n V) R = (V1, R1)" by force
    then have in2: "topo_visit g ns V1 (R1 @ [n]) = (V', R')" using "2.prems"(1) False by simp
    have h1: "insert n V \<subseteq> V1" "set R1 = set R \<union> (V1 - insert n V)" "distinct R \<longrightarrow> distinct R1"
      using "2.IH"(2) [OF False in1] "2.prems"(2) by auto
    have "n \<notin> set R1" "set (R1 @ [n]) \<subseteq> V1" using h1 False "2.prems"(2) by auto
    then show ?thesis using "2.IH"(3) [OF False in1 [symmetric] in2] h1 "2.prems"(2) False by auto
  qed
qed auto

lemma succs_in_range: "wf_ddg g \<Longrightarrow> set (succs_of g n) \<subseteq> {..<length g}"
  by (auto simp: succs_of_def wf_ddg_def)

lemma topo_visit_range:
  "wf_ddg g \<Longrightarrow> set ns \<subseteq> {..<length g} \<Longrightarrow> V \<subseteq> {..<length g} \<Longrightarrow>
   fst (topo_visit g ns V R) \<subseteq> {..<length g}"
proof (induction g ns V R rule: topo_visit.induct)
  case (2 g n ns V R)
  show ?case
  proof (cases "n \<in> V")
    case False
    obtain V1 R1 where in1: "topo_visit g (succs_of g n) (insert n V) R = (V1, R1)" by force
    then have "V1 \<subseteq> {..<length g}"
      using "2.IH"(2) [OF False] "2.prems" succs_in_range by fastforce
    then show ?thesis using "2.IH"(3) [OF False in1 [symmetric]] "2.prems" in1 False by simp
  qed (use 2 in auto)
qed simp

lemma topologicalSort_perm:
  assumes "wf_ddg g"
  shows "distinct (topologicalSort g) \<and> set (topologicalSort g) = {..<length g}"
proof -
  obtain V R where t: "topo_visit g [0..<length g] {} [] = (V, R)" by force
  have "set [0..<length g] \<subseteq> V" "set R = V" "distinct R"
    using topo_visit_nodes [OF t] by auto
  moreover have "V \<subseteq> {..<length g}"
    using topo_visit_range [OF assms, of "[0..<length g]" "{}" "[]"] t by (auto simp: lessThan_atLeast0)
  ultimately show ?thesis using t by (auto simp: topologicalSort_def)
qed

section \<open>Successors first\<close>

definition succs_first :: "ddg \<Rightarrow> nat list \<Rightarrow> bool" where
  "succs_first g R \<longleftrightarrow> (\<forall>a \<in> set R. \<forall>b \<in> set (succs_of g a). precedes R b a)"

lemma succs_first_snoc:
  "succs_first g R \<Longrightarrow> set (succs_of g n) \<subseteq> set R \<Longrightarrow> succs_first g (R @ [n])"
  by (auto simp: succs_first_def precedes_append)

text \<open>The graph as a relation.  Forward edges are a special case of acyclic ones.\<close>

definition ddg_edges :: "ddg \<Rightarrow> (nat \<times> nat) set" where
  "ddg_edges g = {(a, b). ddg_edge g a b}"

lemma ddg_edges_succs: "(a, b) \<in> ddg_edges g \<longleftrightarrow> b \<in> set (succs_of g a)"
  by (simp add: ddg_edges_def ddg_edge_def succs_of_def)

lemma forward_acyclic:
  assumes "forward g" shows "acyclic (ddg_edges g)"
proof (rule acyclic_subset)
  show "acyclic less_than" by (rule wf_acyclic [OF wf_less_than])
  show "ddg_edges g \<subseteq> less_than" using assms by (auto simp: ddg_edges_def forward_def)
qed

text \<open>Every node on the recursion stack reaches the nodes being visited, so in an acyclic graph none
  of these is on the stack, and every successor of a finished node is finished.\<close>

lemma topo_visit_succs_first:
  assumes "acyclic (ddg_edges g)" "topo_visit g ns V R = (V', R')" "set R \<subseteq> V" "succs_first g R"
    and "\<forall>s \<in> V - set R. \<forall>n \<in> set ns. (s, n) \<in> (ddg_edges g)\<^sup>+"
  shows "succs_first g R' \<and> set ns \<subseteq> set R' \<and> set R \<subseteq> set R' \<and> V' - set R' = V - set R"
  using assms
proof (induction g ns V R arbitrary: V' R' rule: topo_visit.induct)
  case (2 g n ns V R)
  show ?case
  proof (cases "n \<in> V")
    case True
    then have "n \<in> set R" using "2.prems"(1,5) by (fastforce simp: acyclic_def)
    then show ?thesis using 2 True by auto
  next
    case False
    obtain V1 R1 where in1: "topo_visit g (succs_of g n) (insert n V) R = (V1, R1)" by force
    then have in2: "topo_visit g ns V1 (R1 @ [n]) = (V', R')" using "2.prems"(2) False by simp
    have "\<forall>s \<in> insert n V - set R. \<forall>m \<in> set (succs_of g n). (s, m) \<in> (ddg_edges g)\<^sup>+"
      using "2.prems"(5) by (auto simp: ddg_edges_succs [symmetric] intro: trancl_into_trancl)
    then have h1: "succs_first g R1" "set (succs_of g n) \<subseteq> set R1" "set R \<subseteq> set R1"
        "V1 - set R1 = insert n V - set R"
      using "2.IH"(2) [OF False "2.prems"(1) in1] "2.prems"(3,4) by auto
    have sub: "insert n V \<subseteq> V1" "set R1 = set R \<union> (V1 - insert n V)"
      using topo_visit_nodes [OF in1] "2.prems"(3) by auto
    have stack: "V1 - set (R1 @ [n]) = V - set R" using h1(4) False "2.prems"(3) by auto
    have "succs_first g (R1 @ [n])" by (rule succs_first_snoc [OF h1(1,2)])
    moreover have "set (R1 @ [n]) \<subseteq> V1" using sub "2.prems"(3) by auto
    moreover have "\<forall>s \<in> V1 - set (R1 @ [n]). \<forall>m \<in> set ns. (s, m) \<in> (ddg_edges g)\<^sup>+"
      unfolding stack using "2.prems"(5) by simp
    ultimately show ?thesis
      using "2.IH"(3) [OF False in1 [symmetric] "2.prems"(1) in2] h1(3) stack by auto
  qed
qed auto

lemma topologicalSort_order:
  assumes "acyclic (ddg_edges g)"
  shows "succs_first g (rev (topologicalSort g))"
proof -
  obtain V R where t: "topo_visit g [0..<length g] {} [] = (V, R)" by force
  then show ?thesis
    using topo_visit_succs_first [OF assms t] by (simp add: topologicalSort_def succs_first_def)
qed

section \<open>Critical path is longest path\<close>

lemma max_fold_props:
  fixes f :: "nat \<Rightarrow> int"
  defines "r z ns \<equiv> foldl (\<lambda>m s. if f s > m then f s else m) z ns"
  shows "z \<le> r z ns" "\<And>s. s \<in> set ns \<Longrightarrow> f s \<le> r z ns" "r z ns = z \<or> (\<exists>s \<in> set ns. r z ns = f s)"
proof -
  have "z \<le> r z ns \<and> (\<forall>s \<in> set ns. f s \<le> r z ns) \<and> (r z ns = z \<or> (\<exists>s \<in> set ns. r z ns = f s))"
    unfolding r_def
    by (induction ns arbitrary: z) (auto, (smt (verit, ccfv_threshold))+)
  then show "z \<le> r z ns" "\<And>s. s \<in> set ns \<Longrightarrow> f s \<le> r z ns" "r z ns = z \<or> (\<exists>s \<in> set ns. r z ns = f s)"
    by auto
qed

text \<open>What \<open>computeCriticalPath\<close> leaves alone.\<close>

definition same_graph :: "ddg \<Rightarrow> ddg \<Rightarrow> bool" where
  "same_graph g h \<longleftrightarrow> length h = length g \<and> (\<forall>a < length g. dn_instr (h ! a) = dn_instr (g ! a) \<and>
     dn_delay (h ! a) = dn_delay (g ! a) \<and> dn_succs (h ! a) = dn_succs (g ! a) \<and>
     dn_preds (h ! a) = dn_preds (g ! a) \<and> dn_pcount (h ! a) = dn_pcount (g ! a))"

lemma same_graph_refl [simp]: "same_graph g g"
  by (simp add: same_graph_def)

lemma same_graph_trans: "same_graph g h \<Longrightarrow> same_graph h k \<Longrightarrow> same_graph g k"
  by (simp add: same_graph_def)

lemma same_graph_cp_step: "same_graph g (cp_step g n)"
  unfolding same_graph_def
proof (intro conjI allI impI)
  fix a assume "a < length g"
  then show "dn_instr (cp_step g n ! a) = dn_instr (g ! a)" "dn_delay (cp_step g n ! a) = dn_delay (g ! a)"
    "dn_succs (cp_step g n ! a) = dn_succs (g ! a)" "dn_preds (cp_step g n ! a) = dn_preds (g ! a)"
    "dn_pcount (cp_step g n ! a) = dn_pcount (g ! a)"
    by (cases "a = n"; simp add: cp_step_def)+
qed (simp add: cp_step_def)

lemma same_graph_cp_fold: "same_graph g (foldl cp_step g ns)"
  by (induction ns arbitrary: g) (auto intro: same_graph_trans same_graph_cp_step)

lemma same_graph_critical: "same_graph g (computeCriticalPath g)"
  by (simp add: computeCriticalPath_def same_graph_cp_fold)

lemma same_graph_edge: "same_graph g h \<Longrightarrow> ddg_edge h = ddg_edge g"
  by (auto simp: same_graph_def ddg_edge_def fun_eq_iff)

lemma same_graph_wf: "same_graph g h \<Longrightarrow> wf_ddg g \<Longrightarrow> wf_ddg h"
  by (simp add: same_graph_def wf_ddg_def)

text \<open>The defining equation of the critical path, solved by the sweep.\<close>

definition cp_eq :: "ddg \<Rightarrow> nat \<Rightarrow> bool" where
  "cp_eq g n \<longleftrightarrow> dn_cp (g ! n) = dn_delay (g ! n) + max_succ_cp g n"

lemma cp_step_nth:
  assumes "m < length g"
  shows "dn_cp (cp_step g n ! m) =
    (if m = n then dn_delay (g ! n) + max_succ_cp g n else dn_cp (g ! m))"
  using assms by (auto simp: cp_step_def nth_list_update max_succ_cp_def)

lemma cp_fold_unchanged: "m < length g \<Longrightarrow> m \<notin> set ns \<Longrightarrow> dn_cp (foldl cp_step g ns ! m) = dn_cp (g ! m)"
  by (induction ns rule: rev_induct) (auto simp: cp_step_nth same_graph_cp_fold [unfolded same_graph_def])

lemma max_succ_cp_cong:
  assumes "dn_succs (h ! n) = dn_succs (g ! n)" "\<And>s. s \<in> set (dn_succs (g ! n)) \<Longrightarrow> dn_cp (h ! s) = dn_cp (g ! s)"
  shows "max_succ_cp h n = max_succ_cp g n"
  unfolding max_succ_cp_def assms(1) using assms(2) by (intro foldl_cong) auto

lemma cp_fold_eq:
  assumes "wf_ddg g" "distinct ns" "set ns \<subseteq> {..<length g}" "succs_first g ns"
  shows "\<forall>n \<in> set ns. cp_eq (foldl cp_step g ns) n"
  using assms(2-4)
proof (induction ns rule: rev_induct)
  case (snoc x xs)
  let ?h = "foldl cp_step g xs" and ?h' = "foldl cp_step g (xs @ [x])"
  have sg: "same_graph g ?h" "same_graph g ?h'" by (rule same_graph_cp_fold)+
  have range: "n < length g \<Longrightarrow> s \<in> set (dn_succs (g ! n)) \<Longrightarrow> s < length g" for n s
    using assms(1) by (auto simp: wf_ddg_def)
  have len: "length ?h = length g" using sg(1) by (simp add: same_graph_def)
  have first: "precedes (xs @ [x]) b a" if "a \<in> set (xs @ [x])" "b \<in> set (succs_of g a)" for a b
    using snoc.prems(3) that unfolding succs_first_def by blast
  have no_x: "x \<notin> set (dn_succs (g ! n))" if n: "n \<in> set (xs @ [x])" for n
  proof
    assume "x \<in> set (dn_succs (g ! n))"
    then have "precedes (xs @ [x]) x n" using first [OF n] n snoc.prems(2) by (auto simp: succs_of_def)
    then show False using snoc.prems(1) by (auto simp: precedes_append dest: precedes_in)
  qed
  have cp: "dn_cp (?h' ! m) = (if m = x then dn_delay (g ! x) + max_succ_cp ?h x else dn_cp (?h ! m))"
    if "m < length g" for m
    using cp_step_nth [of m ?h x] that len sg(1) snoc.prems(2) by (simp add: same_graph_def)
  have max: "max_succ_cp ?h' n = max_succ_cp ?h n" if n: "n \<in> set (xs @ [x])" for n
  proof (rule max_succ_cp_cong)
    have ng: "n < length g" using n snoc.prems(2) by auto
    show "dn_succs (?h' ! n) = dn_succs (?h ! n)" using sg ng by (simp add: same_graph_def)
    show "dn_cp (?h' ! s) = dn_cp (?h ! s)" if "s \<in> set (dn_succs (?h ! n))" for s
      using that sg(1) ng cp [of s] range no_x [OF n] by (auto simp: same_graph_def)
  qed
  have xs_first: "succs_first g xs" unfolding succs_first_def
  proof (intro ballI)
    fix a b assume "a \<in> set xs" "b \<in> set (succs_of g a)"
    moreover have "a \<noteq> x" using snoc.prems(1) \<open>a \<in> set xs\<close> by auto
    ultimately show "precedes xs b a" using first [of a b] by (auto simp: precedes_append)
  qed
  have IH: "\<forall>n \<in> set xs. cp_eq ?h n" using snoc xs_first by auto
  show ?case
  proof
    fix n assume n: "n \<in> set (xs @ [x])"
    then have ng: "n < length g" using snoc.prems(2) by auto
    show "cp_eq ?h' n"
      using n IH cp [OF ng] max [OF n] sg ng unfolding cp_eq_def
      by (cases "n = x") (auto simp: same_graph_def)
  qed
qed simp

text \<open>Paths of a graph and their weights.\<close>

inductive ddg_path :: "ddg \<Rightarrow> nat \<Rightarrow> nat list \<Rightarrow> bool" for g where
  path_one: "n < length g \<Longrightarrow> ddg_path g n [n]"
| path_cons: "ddg_edge g n m \<Longrightarrow> ddg_path g m p \<Longrightarrow> ddg_path g n (n # p)"

inductive_cases ddg_path_elim: "ddg_path g n p"

definition path_weight :: "ddg \<Rightarrow> nat list \<Rightarrow> int" where
  "path_weight g p = (\<Sum>n \<leftarrow> p. dn_delay (g ! n))"

lemma longest_path:
  assumes wf: "wf_ddg g" and fwd: "forward g"
    and eqs: "\<forall>n < length g. cp_eq g n" and pos: "\<forall>n < length g. 0 < dn_delay (g ! n)"
  shows "n < length g \<Longrightarrow> (\<exists>p. ddg_path g n p \<and> path_weight g p = dn_cp (g ! n)) \<and>
    (\<forall>p. ddg_path g n p \<longrightarrow> path_weight g p \<le> dn_cp (g ! n))"
proof (induction "length g - n" arbitrary: n rule: less_induct)
  case less
  let ?d = "dn_delay (g ! n)" and ?M = "max_succ_cp g n"
  have cp: "dn_cp (g ! n) = ?d + ?M" using eqs less.prems by (simp add: cp_eq_def)
  note M = max_fold_props [where f = "\<lambda>s. dn_cp (g ! s)" and z = 0 and ns = "dn_succs (g ! n)",
      folded max_succ_cp_def]
  have IH: "(\<exists>p. ddg_path g s p \<and> path_weight g p = dn_cp (g ! s)) \<and>
      (\<forall>p. ddg_path g s p \<longrightarrow> path_weight g p \<le> dn_cp (g ! s))"
    if "ddg_edge g n s" for s
    using less.hyps that fwd ddg_edge_range [OF wf that] unfolding forward_def
    by (metis diff_less_mono2)
  have "path_weight g p \<le> dn_cp (g ! n)" if "ddg_path g n p" for p
    using that
  proof (cases rule: ddg_path.cases)
    case path_one
    then show ?thesis using M(1) cp by (simp add: path_weight_def)
  next
    case (path_cons m q)
    then have "path_weight g q \<le> ?M" using IH [of m] M(2) [of m] by (force simp: ddg_edge_def)
    then show ?thesis using path_cons cp by (simp add: path_weight_def)
  qed
  moreover have "\<exists>p. ddg_path g n p \<and> path_weight g p = dn_cp (g ! n)"
    using M(3)
  proof
    assume "?M = 0"
    then show ?thesis
      using less.prems cp by (intro exI [of _ "[n]"]) (simp add: path_one path_weight_def)
  next
    assume "\<exists>s \<in> set (dn_succs (g ! n)). ?M = dn_cp (g ! s)"
    then obtain s where s: "ddg_edge g n s" "?M = dn_cp (g ! s)"
      using less.prems by (auto simp: ddg_edge_def)
    then obtain p where "ddg_path g s p" "path_weight g p = ?M" using IH by auto
    then show ?thesis
      using path_cons [OF s(1)] cp by (intro exI [of _ "n # p"]) (simp add: path_weight_def)
  qed
  ultimately show ?case by blast
qed

lemma critical_cp_eq:
  assumes wf: "wf_ddg g" and fwd: "forward g"
  shows "\<forall>n < length g. cp_eq (computeCriticalPath g) n"
proof -
  have "\<forall>n \<in> set (rev (topologicalSort g)). cp_eq (foldl cp_step g (rev (topologicalSort g))) n"
    using topologicalSort_perm [OF wf] topologicalSort_order [OF forward_acyclic [OF fwd]] by (intro cp_fold_eq [OF wf]) auto
  then show ?thesis using topologicalSort_perm [OF wf] by (simp add: computeCriticalPath_def)
qed

lemma forward_path_increasing:
  assumes "ddg_path g n p" "forward g" shows "sorted_wrt (<) p \<and> (\<forall>m \<in> set p. n \<le> m)"
  using assms by (induction rule: ddg_path.induct) (fastforce simp: forward_def)+

lemma ddg_path_range: "ddg_path g n p \<Longrightarrow> wf_ddg g \<Longrightarrow> set p \<subseteq> {..<length g}"
  by (induction rule: ddg_path.induct) (auto dest: ddg_edge_range)

text \<open>Critical paths are non-negative on every graph, so that \<open>pickBest\<close>'s initial \<open>-1\<close> is
  below all of them.\<close>

lemma cp_step_nonneg:
  assumes "\<forall>n < length g. 0 \<le> dn_delay (g ! n) \<and> 0 \<le> dn_cp (g ! n)"
  shows "\<forall>n < length (cp_step g k). 0 \<le> dn_delay (cp_step g k ! n) \<and> 0 \<le> dn_cp (cp_step g k ! n)"
proof (intro allI impI)
  fix n assume "n < length (cp_step g k)"
  then have n: "n < length g" using same_graph_cp_step [of g k] by (simp add: same_graph_def)
  have "0 \<le> max_succ_cp g k" unfolding max_succ_cp_def by (rule max_fold_props(1))
  then show "0 \<le> dn_delay (cp_step g k ! n) \<and> 0 \<le> dn_cp (cp_step g k ! n)"
    using assms n cp_step_nth [OF n, of k] same_graph_cp_step [of g k]
    by (cases "n = k") (auto simp: same_graph_def)
qed

lemma critical_nonneg:
  assumes "\<forall>n < length g. 0 \<le> dn_delay (g ! n) \<and> 0 \<le> dn_cp (g ! n)"
  shows "\<forall>n < length g. 0 \<le> dn_cp (computeCriticalPath g ! n)"
proof -
  have "\<forall>n < length (foldl cp_step g ns). 0 \<le> dn_delay (foldl cp_step g ns ! n) \<and> 0 \<le> dn_cp (foldl cp_step g ns ! n)" for ns
    by (induction ns rule: rev_induct) (use assms cp_step_nonneg in simp_all)
  then show ?thesis
    using same_graph_critical [of g] by (simp add: computeCriticalPath_def same_graph_def)
qed

section \<open>Longest paths\<close>

lemma same_graph_sym: "same_graph g h \<Longrightarrow> same_graph h g"
  by (simp add: same_graph_def)

lemma same_graph_path_mono:
  assumes "ddg_path g n p" "same_graph g h" shows "ddg_path h n p"
  using assms
proof (induction rule: ddg_path.induct)
  case (path_one n)
  then show ?case by (intro ddg_path.path_one) (simp add: same_graph_def)
next
  case (path_cons n m p)
  then show ?case using same_graph_edge by (metis ddg_path.path_cons)
qed

lemma same_graph_path:
  assumes "same_graph g h" shows "ddg_path h = ddg_path g"
  using same_graph_path_mono assms same_graph_sym by (intro ext) blast

lemma same_graph_weight:
  assumes "same_graph g h" "set p \<subseteq> {..<length g}" shows "path_weight h p = path_weight g p"
  unfolding path_weight_def using assms by (intro arg_cong [where f = sum_list] map_cong) (auto simp: same_graph_def)

lemma critical_longest:
  assumes wf: "wf_ddg g" and fwd: "forward g" and pos: "\<forall>n < length g. 0 < dn_delay (g ! n)" and n: "n < length g"
  shows "\<exists>p. ddg_path g n p \<and> path_weight g p = dn_cp (computeCriticalPath g ! n)"
    "ddg_path g n p \<Longrightarrow> path_weight g p \<le> dn_cp (computeCriticalPath g ! n)"
proof -
  let ?h = "computeCriticalPath g"
  have sg: "same_graph g ?h" by (rule same_graph_critical)
  have "forward ?h" using fwd same_graph_edge [OF sg] by (simp add: forward_def)
  moreover have "\<forall>n < length ?h. cp_eq ?h n" "\<forall>n < length ?h. 0 < dn_delay (?h ! n)" "n < length ?h"
    using critical_cp_eq [OF wf fwd] pos n sg by (simp_all add: same_graph_def)
  ultimately have l: "(\<exists>p. ddg_path ?h n p \<and> path_weight ?h p = dn_cp (?h ! n)) \<and>
      (\<forall>p. ddg_path ?h n p \<longrightarrow> path_weight ?h p \<le> dn_cp (?h ! n))"
    using longest_path [OF same_graph_wf [OF sg wf]] by blast
  have w: "path_weight ?h q = path_weight g q" if "ddg_path g n q" for q
    by (rule same_graph_weight [OF sg ddg_path_range [OF that wf]])
  show "\<exists>p. ddg_path g n p \<and> path_weight g p = dn_cp (?h ! n)"
    using l w unfolding same_graph_path [OF sg] by metis
  show "path_weight g p \<le> dn_cp (?h ! n)" if "ddg_path g n p"
    using conjunct2 [OF l] w [OF that] that unfolding same_graph_path [OF sg] by fastforce
qed

lemma critical_bound:
  assumes wf: "wf_ddg g" and fwd: "forward g" and d: "\<forall>n < length g. 0 < dn_delay (g ! n) \<and> dn_delay (g ! n) \<le> D"
    and n: "n < length g"
  shows "dn_cp (computeCriticalPath g ! n) \<le> D * int (length g)"
proof -
  obtain p where p: "ddg_path g n p" "path_weight g p = dn_cp (computeCriticalPath g ! n)"
    using critical_longest(1) [OF wf fwd _ n] d by blast
  have r: "set p \<subseteq> {..<length g}" by (rule ddg_path_range [OF p(1) wf])
  have D: "0 \<le> D" using d n by force
  have "path_weight g p \<le> (\<Sum>n \<leftarrow> p. D)"
    unfolding path_weight_def by (rule sum_list_mono) (use d r in auto)
  then have "path_weight g p \<le> D * int (length p)" by (simp add: sum_list_triv mult.commute)
  moreover have "distinct p"
    using forward_path_increasing [OF p(1) fwd] by (simp add: strict_sorted_iff)
  then have "length p \<le> length g"
    using card_mono [OF _ r] by (simp add: distinct_card)
  then have "D * int (length p) \<le> D * int (length g)" using D by (intro mult_left_mono) auto
  ultimately show ?thesis using p(2) by simp
qed

end
