(* ===== verification/CFG.thy ===== *)
theory CFG
  imports LLVM_IR
begin

text \<open>
  The control-flow graph: paths from the entry block, dominance as the scheduler's legality
  argument needs it, and the breadth-first traversal that \<open>dom.hpp\<close>, \<open>reaching.hpp\<close>
  and \<open>traceIdentification.hpp\<close> each run from the entry block.
\<close>

section \<open>Paths and dominance\<close>

definition cfg_edge :: "func \<Rightarrow> bid \<Rightarrow> bid \<Rightarrow> bool" where
  "cfg_edge F b c \<longleftrightarrow> c \<in> set (f_succs F b)"

definition entry_path :: "func \<Rightarrow> bid list \<Rightarrow> bid \<Rightarrow> bool" where
  "entry_path F p b \<longleftrightarrow> p \<noteq> [] \<and> hd p = entry_block F \<and> last p = b \<and> successively (cfg_edge F) p"

definition reachable :: "func \<Rightarrow> bid \<Rightarrow> bool" where
  "reachable F b \<longleftrightarrow> (\<exists>p. entry_path F p b)"

text \<open>Block \<open>a\<close> dominates \<open>b\<close> when every path from the entry to \<open>b\<close> passes \<open>a\<close>; as
  in LLVM, every block dominates an unreachable one.\<close>

definition dominates :: "func \<Rightarrow> bid \<Rightarrow> bid \<Rightarrow> bool" where
  "dominates F a b \<longleftrightarrow> (\<forall>p. entry_path F p b \<longrightarrow> a \<in> set p)"

lemma entry_path_entry [simp]: "entry_path F [entry_block F] (entry_block F)"
  by (simp add: entry_path_def)

lemma entry_path_snoc: "entry_path F p b \<Longrightarrow> cfg_edge F b c \<Longrightarrow> entry_path F (p @ [c]) c"
  by (auto simp: entry_path_def successively_append_iff)

lemma entry_path_prefix: "entry_path F (p @ a # q) b \<Longrightarrow> entry_path F (p @ [a]) a"
  by (auto simp: entry_path_def successively_append_iff hd_append split: if_splits)

lemma entry_path_swap:
  "entry_path F (p @ a # q) b \<Longrightarrow> entry_path F p' a \<Longrightarrow> entry_path F (p' @ q) b"
  by (auto simp: entry_path_def successively_append_iff successively_Cons)

lemma entry_path_induct [consumes 1, case_names entry step]:
  assumes "entry_path F p b" and "P [entry_block F] (entry_block F)"
    and "\<And>p b c. entry_path F p b \<Longrightarrow> P p b \<Longrightarrow> cfg_edge F b c \<Longrightarrow> P (p @ [c]) c"
  shows "P p b"
  using assms(1)
proof (induction p arbitrary: b rule: rev_induct)
  case (snoc c p)
  show ?case
  proof (cases "p = []")
    case True
    then have "c = entry_block F" "b = entry_block F" using snoc.prems by (simp_all add: entry_path_def)
    then show ?thesis using True assms(2) by simp
  next
    case False
    then have "entry_path F p (last p)" "cfg_edge F (last p) c" "b = c"
      using snoc.prems by (auto simp: entry_path_def successively_append_iff)
    then show ?thesis using assms(3) snoc.IH by blast
  qed
qed (simp add: entry_path_def)

lemma entry_path_blocks:
  assumes "wf_func F" "entry_path F p b" shows "set p \<subseteq> set (f_blocks F) \<and> b \<in> set (f_blocks F)"
  using assms(2)
  by (induction rule: entry_path_induct) (use assms(1) in \<open>auto simp: cfg_edge_def dest: wf_succs\<close>)

lemma reachable_block: "wf_func F \<Longrightarrow> reachable F b \<Longrightarrow> b \<in> set (f_blocks F)"
  by (auto simp: reachable_def dest: entry_path_blocks)

lemma reachable_entry [simp]: "reachable F (entry_block F)"
  unfolding reachable_def using entry_path_entry by blast

lemma reachable_step: "reachable F b \<Longrightarrow> cfg_edge F b c \<Longrightarrow> reachable F c"
  unfolding reachable_def by (blast intro: entry_path_snoc)

lemma entry_path_pred:
  assumes "entry_path F p b" "b \<noteq> entry_block F"
  obtains q a where "entry_path F q a" "cfg_edge F a b" "p = q @ [b]"
proof -
  have "b \<noteq> entry_block F \<longrightarrow> (\<exists>q a. entry_path F q a \<and> cfg_edge F a b \<and> p = q @ [b])"
    using assms(1) by (induction rule: entry_path_induct) auto
  then show thesis using assms(2) that by blast
qed

lemma has_reachable_pred:
  assumes "wf_func F" "reachable F b" "b \<noteq> entry_block F"
  shows "\<exists>a \<in> set (f_preds F b). reachable F a"
proof -
  obtain p where "entry_path F p b" using assms(2) by (auto simp: reachable_def)
  then obtain q a where "entry_path F q a" "cfg_edge F a b" using entry_path_pred assms(3) by metis
  moreover then have "reachable F a" by (auto simp: reachable_def)
  ultimately show ?thesis
    using wf_preds_succs [OF assms(1), of a b] reachable_block [OF assms(1)] assms(2) by (auto simp: cfg_edge_def)
qed

lemma entry_path_cfg: "same_frame F G \<Longrightarrow> entry_path G = entry_path F"
  by (auto simp: same_frame_def entry_path_def cfg_edge_def fun_eq_iff)

lemma dominates_cfg: "same_frame F G \<Longrightarrow> dominates G = dominates F"
  by (simp add: dominates_def entry_path_cfg fun_eq_iff)

lemma reachable_cfg: "same_frame F G \<Longrightarrow> reachable G = reachable F"
  by (simp add: reachable_def entry_path_cfg fun_eq_iff)

lemma dominates_refl [simp]: "dominates F b b"
  by (auto simp: dominates_def entry_path_def)

lemma dominates_entry: "dominates F (entry_block F) b"
  unfolding dominates_def entry_path_def by (metis hd_in_set)

lemma dominates_trans:
  assumes "dominates F a b" "dominates F b c" shows "dominates F a c"
  unfolding dominates_def
proof (intro allI impI)
  fix p assume p: "entry_path F p c"
  then have "b \<in> set p" using assms(2) by (simp add: dominates_def)
  then obtain u v where "p = u @ b # v" by (auto simp: in_set_conv_decomp)
  then have "a \<in> set (u @ [b])" using assms(1) p entry_path_prefix by (metis dominates_def)
  then show "a \<in> set p" using \<open>p = u @ b # v\<close> by auto
qed

lemma dominates_antisym:
  assumes "dominates F a b" "dominates F b a" "reachable F b" shows "a = b"
proof (rule ccontr)
  assume ne: "a \<noteq> b"
  have "\<exists>q. entry_path F q b \<and> length q < length p" if "entry_path F p b" for p
  proof -
    from that have "a \<in> set p" using assms(1) by (simp add: dominates_def)
    then obtain u v where p: "p = u @ a # v" by (auto simp: in_set_conv_decomp)
    have "b \<in> set (u @ [a])" using assms(2) entry_path_prefix that p by (metis dominates_def)
    then have "b \<in> set u" using ne by simp
    then obtain x y where "u = x @ b # y" by (auto simp: in_set_conv_decomp)
    then show ?thesis using that p entry_path_prefix [of F x b "y @ a # v" b] by force
  qed
  then have "\<not> entry_path F p b" for p
    by (induction "length p" arbitrary: p rule: less_induct) blast
  then show False using assms(3) by (simp add: reachable_def)
qed

text \<open>The dominators of a reachable block form a chain.\<close>

lemma dominates_pred:
  assumes "dominates F a b" "a \<noteq> b" "cfg_edge F p b" shows "dominates F a p"
  unfolding dominates_def
proof (intro allI impI)
  fix q assume "entry_path F q p"
  then have "entry_path F (q @ [b]) b" using assms(3) by (rule entry_path_snoc)
  then show "a \<in> set q" using assms(1,2) unfolding dominates_def by fastforce
qed

lemma dominates_reachable:
  assumes "dominates F a b" "reachable F b" shows "reachable F a"
proof -
  obtain p where p: "entry_path F p b" using assms(2) unfolding reachable_def by blast
  then have "a \<in> set p" using assms(1) unfolding dominates_def by blast
  then obtain us vs where "p = us @ a # vs" by (auto simp: in_set_conv_decomp)
  then show ?thesis using entry_path_prefix p unfolding reachable_def by blast
qed

lemma dominates_chain:
  assumes "dominates F a c" "dominates F b c" "reachable F c"
  shows "dominates F a b \<or> dominates F b a"
proof (rule ccontr)
  assume "\<not> ?thesis"
  then obtain pa pb where pa: "entry_path F pa a" "b \<notin> set pa" and pb: "entry_path F pb b" "a \<notin> set pb"
    unfolding dominates_def by blast
  obtain p where p: "entry_path F p c" using assms(3) by (auto simp: reachable_def)
  have "a \<in> set p" "b \<in> set p" using assms p by (auto simp: dominates_def)
  then obtain u x v where p_eq: "p = u @ x # v" and x: "x \<in> {a, b}" and v: "set v \<inter> {a, b} = {}"
    using split_list_last_prop [of p "\<lambda>x. x \<in> {a, b}"] by blast
  show False
  proof (cases "x = a")
    case True
    then have "entry_path F (pa @ v) c" using entry_path_swap p p_eq pa(1) by blast
    then have "b \<in> set (pa @ v)" using assms(2) unfolding dominates_def by blast
    then show False using pa(2) v by auto
  next
    case False
    then have "entry_path F (pb @ v) c" using entry_path_swap p p_eq pb(1) x by blast
    then have "a \<in> set (pb @ v)" using assms(1) unfolding dominates_def by blast
    then show False using pb(2) v by auto
  qed
qed

text \<open>The laws of dominance on which code motion and the dominator tree rest.\<close>

locale dominance_order =
  fixes dom :: "'f \<Rightarrow> 'b \<Rightarrow> 'b \<Rightarrow> bool" and live :: "'f \<Rightarrow> 'b \<Rightarrow> bool"
  assumes dom_refl: "dom f b b"
    and dom_trans: "dom f a b \<Longrightarrow> dom f b c \<Longrightarrow> dom f a c"
    and dom_antisym: "dom f a b \<Longrightarrow> dom f b a \<Longrightarrow> live f b \<Longrightarrow> a = b"
    and dom_chain: "dom f a c \<Longrightarrow> dom f b c \<Longrightarrow> live f c \<Longrightarrow> dom f a b \<or> dom f b a"
begin

text \<open>Moving a definition from \<open>b\<close> up to a dominator \<open>a\<close> keeps it above a use in \<open>u\<close>.\<close>

lemma hoist_above:
  assumes "dom f a b" "a \<noteq> b" "dom f b u" "live f u"
  shows "dom f a u \<and> a \<noteq> u"
  using assms dom_trans [of f a b u] dom_antisym [of f b u] by blast

text \<open>At most one strict dominator is closest.\<close>

lemma closest_unique:
  assumes "live f b" and d: "dom f d b" "\<And>e. dom f e b \<Longrightarrow> e \<noteq> b \<Longrightarrow> dom f e d"
    and d': "dom f d' b" "\<And>e. dom f e b \<Longrightarrow> e \<noteq> b \<Longrightarrow> dom f e d'"
    and "d \<noteq> b" "d' \<noteq> b" "live f d"
  shows "d = d'"
  using assms dom_antisym by blast

lemma not_below_above:
  assumes "live f b" "dom f d b" "dom f e b" "\<not> dom f d e"
  shows "dom f e d"
  using assms dom_chain by blast

end

interpretation cfgdom: dominance_order dominates reachable
  by unfold_locales
    (auto intro: dominates_trans dominates_antisym dest: dominates_chain)

section \<open>Breadth-first order\<close>

text \<open>One step of the outer loop: append the successors of a block not yet in the order.\<close>

definition bfs_visit :: "func \<Rightarrow> bid list \<Rightarrow> bid \<Rightarrow> bid list" where
  "bfs_visit F order b =
     foldl (\<lambda>ord succ. if succ \<in> set ord then ord else ord @ [succ]) order (f_succs F b)"

definition bfs_order :: "func \<Rightarrow> bid list option" where
  "bfs_order F = map_option snd
     (while_option (\<lambda>(i, order). i < length order)
       (\<lambda>(i, order). (Suc i, bfs_visit F order (order ! i))) (0, [entry_block F]))"

lemma bfs_push_props:
  fixes cs :: "bid list"
  defines "push \<equiv> \<lambda>ord succ. if succ \<in> set ord then ord else ord @ [succ]"
  shows "\<exists>new. foldl push ord cs = ord @ new \<and> set new = set cs - set ord \<and>
    (distinct ord \<longrightarrow> distinct (ord @ new))"
proof (induction cs arbitrary: ord)
  case (Cons c cs)
  obtain new where new: "foldl push (push ord c) cs = push ord c @ new"
    "set new = set cs - set (push ord c)" "distinct (push ord c) \<longrightarrow> distinct (push ord c @ new)"
    using Cons.IH by blast
  have push: "push ord c = ord @ (if c \<in> set ord then [] else [c])" by (simp add: push_def)
  show ?case
    by (rule exI [of _ "(if c \<in> set ord then [] else [c]) @ new"]) (use new push in auto)
qed simp

lemma bfs_visit_props:
  obtains new where "bfs_visit F ord b = ord @ new" "set new = set (f_succs F b) - set ord"
    "distinct ord \<Longrightarrow> distinct (ord @ new)"
  using bfs_push_props [of ord "f_succs F b"] that unfolding bfs_visit_def by blast

text \<open>The invariant: every block of the order is reached by a path inside the order's prefix
  that it ends, and the blocks before \<open>i\<close> have all their successors in the order.\<close>

definition bfs_inv :: "func \<Rightarrow> nat \<times> bid list \<Rightarrow> bool" where
  "bfs_inv F s = (case s of (i, order) \<Rightarrow> order \<noteq> [] \<and> hd order = entry_block F \<and> distinct order \<and>
     i \<le> length order \<and> (\<forall>j < i. set (f_succs F (order ! j)) \<subseteq> set order) \<and>
     (\<forall>k < length order. \<exists>p. entry_path F p (order ! k) \<and> set p \<subseteq> set (take (Suc k) order)))"

lemma bfs_inv_step:
  assumes inv: "bfs_inv F (i, order)" and i: "i < length order"
  shows "bfs_inv F (Suc i, bfs_visit F order (order ! i))"
proof -
  from inv have ne: "order \<noteq> []" and h: "hd order = entry_block F" and d: "distinct order"
    and cl: "\<forall>j < i. set (f_succs F (order ! j)) \<subseteq> set order"
    and pa: "\<And>k. k < length order \<Longrightarrow> \<exists>p. entry_path F p (order ! k) \<and> set p \<subseteq> set (take (Suc k) order)"
    by (simp_all add: bfs_inv_def)
  obtain new where v: "bfs_visit F order (order ! i) = order @ new"
    and new: "set new = set (f_succs F (order ! i)) - set order" and d': "distinct (order @ new)"
    using bfs_visit_props d by metis
  have "\<exists>p. entry_path F p ((order @ new) ! k) \<and> set p \<subseteq> set (take (Suc k) (order @ new))"
    if k: "k < length (order @ new)" for k
  proof (cases "k < length order")
    case True
    then show ?thesis using pa [of k] by (simp add: nth_append)
  next
    case False
    let ?b = "(order @ new) ! k"
    have "?b \<in> set new" using False k by (simp add: nth_append)
    then have e: "cfg_edge F (order ! i) ?b" using new by (simp add: cfg_edge_def)
    obtain p where p: "entry_path F p (order ! i)" "set p \<subseteq> set (take (Suc i) order)" using pa i by blast
    have "set (take (Suc i) order) \<subseteq> set order" by (rule set_take_subset)
    also have "set order \<subseteq> set (take (Suc k) (order @ new))" using False by simp
    finally have "set p \<subseteq> set (take (Suc k) (order @ new))" using p(2) by blast
    moreover have "?b \<in> set (take (Suc k) (order @ new))"
      by (subst take_Suc_conv_app_nth [OF k]) simp
    ultimately have "set (p @ [?b]) \<subseteq> set (take (Suc k) (order @ new))" by simp
    then show ?thesis using entry_path_snoc [OF p(1) e] by blast
  qed
  moreover have "set (f_succs F ((order @ new) ! j)) \<subseteq> set (order @ new)" if "j < Suc i" for j
  proof (cases "j = i")
    case False
    then have "j < i" using that by simp
    then have "set (f_succs F (order ! j)) \<subseteq> set order" using cl by blast
    then show ?thesis using \<open>j < i\<close> i by (auto simp: nth_append)
  qed (use new i in \<open>auto simp: nth_append\<close>)
  ultimately show ?thesis using ne h d' i unfolding v by (simp add: bfs_inv_def)
qed

lemma bfs_inv_init: "bfs_inv F (0, [entry_block F])"
  unfolding bfs_inv_def by (auto intro!: exI [of _ "[entry_block F]"])

lemma bfs_inv_bound:
  assumes "wf_func F" "bfs_inv F (i, order)" shows "length order \<le> length (f_blocks F)"
proof -
  have "set order \<subseteq> set (f_blocks F)"
  proof
    fix b assume "b \<in> set order"
    then obtain k where "k < length order" "order ! k = b" by (auto simp: in_set_conv_nth)
    then show "b \<in> set (f_blocks F)" using assms entry_path_blocks by (fastforce simp: bfs_inv_def)
  qed
  then have "card (set order) \<le> card (set (f_blocks F))" by (intro card_mono) auto
  then show ?thesis using assms by (simp add: bfs_inv_def wf_func_def distinct_card)
qed

lemma bfs_order_result:
  assumes "wf_func F"
  obtains order where "bfs_order F = Some order" "bfs_inv F (length order, order)"
proof -
  let ?b = "\<lambda>(i, order). i < length order" and ?c = "\<lambda>(i, order). (Suc i, bfs_visit F order (order ! i))"
  have "\<exists>t. while_option ?b ?c (0, [entry_block F]) = Some t"
  proof (rule measure_while_option_Some [where P = "bfs_inv F" and f = "\<lambda>(i, _). length (f_blocks F) - i"])
    show "bfs_inv F (0, [entry_block F])" by (rule bfs_inv_init)
    show "bfs_inv F (?c s) \<and> (case ?c s of (i, _) \<Rightarrow> length (f_blocks F) - i)
        < (case s of (i, _) \<Rightarrow> length (f_blocks F) - i)" if "bfs_inv F s" "?b s" for s
      using that bfs_inv_step [of F "fst s" "snd s"] bfs_inv_bound [OF assms, of "fst s" "snd s"]
      by (cases s) auto
  qed
  then obtain t where t: "while_option ?b ?c (0, [entry_block F]) = Some t" by blast
  have "bfs_inv F t"
    by (rule while_option_rule [where P = "bfs_inv F", OF _ t bfs_inv_init]) (auto intro: bfs_inv_step)
  moreover have "\<not> ?b t" using while_option_stop [OF t] .
  ultimately have "bfs_inv F (length (snd t), snd t)" by (cases t) (auto simp: bfs_inv_def)
  then show thesis using that [of "snd t"] t by (simp add: bfs_order_def)
qed

lemma bfs_inv_reachable:
  assumes "bfs_inv F (length order, order)"
  shows "set order = {b. reachable F b}"
proof
  show "set order \<subseteq> {b. reachable F b}"
    using assms by (fastforce simp: bfs_inv_def reachable_def in_set_conv_nth)
  have "b \<in> set order" if "entry_path F p b" for p b
    using that
  proof (induction rule: entry_path_induct)
    case entry
    then show ?case using assms by (auto simp: bfs_inv_def intro: list.set_sel(1) dest: sym)
  next
    case (step p b c)
    then obtain k where "k < length order" "order ! k = b" by (auto simp: in_set_conv_nth)
    then show ?case using step.hyps assms by (auto simp: bfs_inv_def cfg_edge_def)
  qed
  then show "{b. reachable F b} \<subseteq> set order" by (auto simp: reachable_def)
qed

text \<open>A strict dominator comes earlier in breadth-first order.\<close>

lemma bfs_dominator_earlier:
  assumes inv: "bfs_inv F (length order, order)" and k: "k < length order"
    and j: "j < length order" and dom: "dominates F (order ! j) (order ! k)"
  shows "j \<le> k"
proof -
  obtain p where "entry_path F p (order ! k)" "set p \<subseteq> set (take (Suc k) order)"
    using inv k by (auto simp: bfs_inv_def)
  then have "order ! j \<in> set (take (Suc k) order)" using dom by (auto simp: dominates_def)
  then obtain m where "m < length (take (Suc k) order)" "take (Suc k) order ! m = order ! j"
    by (auto simp: in_set_conv_nth)
  then have "m \<le> k" "order ! m = order ! j" "m < length order" by auto
  then show ?thesis using inv j by (auto simp: bfs_inv_def nth_eq_iff_index_eq)
qed

text \<open>
  The traversal finds exactly the blocks reachable from the entry, each once, entry first:
  the statement on which the three users of the order rely.
\<close>

lemma bfs_order_correct:
  assumes "wf_func F" and "bfs_order F = Some order"
  shows "distinct order" "set order = {b. reachable F b}" "order \<noteq> []" "order ! 0 = entry_block F"
    "bfs_inv F (length order, order)"
proof -
  obtain ord where o: "bfs_order F = Some ord" and i: "bfs_inv F (length ord, ord)"
    using bfs_order_result [OF assms(1)] by blast
  then have [simp]: "ord = order" using assms(2) by simp
  show "distinct order" "order \<noteq> []" "order ! 0 = entry_block F" "bfs_inv F (length order, order)"
    using i by (auto simp: bfs_inv_def hd_conv_nth)
  show "set order = {b. reachable F b}" using bfs_inv_reachable i by simp
qed

end
