(* ===== verification/Liveness.thy ===== *)
theory Liveness
  imports CFG
begin

text \<open>
  \<open>include/liveness.hpp\<close>: backward liveness of SSA values.  Per block, the sets
  \<open>use\<close> and \<open>def\<close> are collected from top to bottom; then the blocks are swept in reverse
  layout order until no \<open>in\<close> or \<open>out\<close> set changes.  The analysis is shown to terminate and
  to compute, for every block, exactly the values that some path leads to a use of before
  their definition.
\<close>

section \<open>The analysis\<close>

record live_state =
  l_in :: bitvec
  l_out :: bitvec
  l_use :: bitvec
  l_def :: bitvec

definition empty_live :: live_state where
  "empty_live = \<lparr>l_in = [], l_out = [], l_use = [], l_def = []\<rparr>"

type_synonym live_map = "bid \<Rightarrow> live_state option"

abbreviation live_at :: "live_map \<Rightarrow> bid \<Rightarrow> live_state" where
  "live_at st b \<equiv> dm_get empty_live st b"

text \<open>One operand of an instruction: a use, unless the block has defined the value before.\<close>

definition live_operand :: "(val \<Rightarrow> nat option) \<Rightarrow> bitvec \<times> bitvec \<Rightarrow> val \<Rightarrow> bitvec \<times> bitvec" where
  "live_operand index ud v = (case index v of None \<Rightarrow> ud
     | Some idx \<Rightarrow> (if \<not> bv_test (snd ud) idx then (bv_set (fst ud) idx, snd ud) else ud))"

definition live_instr :: "func \<Rightarrow> (val \<Rightarrow> nat option) \<Rightarrow> bitvec \<times> bitvec \<Rightarrow> iid \<Rightarrow> bitvec \<times> bitvec" where
  "live_instr F index ud i =
     (let ud' = foldl (live_operand index) ud (operands F i)
      in case index (Inst i) of None \<Rightarrow> ud' | Some idx \<Rightarrow> (fst ud', bv_set (snd ud') idx))"

definition live_block :: "func \<Rightarrow> (val \<Rightarrow> nat option) \<Rightarrow> nat \<Rightarrow> bid \<Rightarrow> live_state" where
  "live_block F index N b =
     (let ud = foldl (live_instr F index) (bv_new N False, bv_new N False) (f_body F b)
      in \<lparr>l_in = bv_new N False, l_out = bv_new N False, l_use = fst ud, l_def = snd ud\<rparr>)"

definition live_init :: "func \<Rightarrow> live_map" where
  "live_init F =
     (let index = buildValueIndex (universe F); N = length (universe F)
      in foldl (\<lambda>st b. st(b \<mapsto> live_block F index N b)) Map.empty (f_blocks F))"

text \<open>The meet over the successors and the transfer function.\<close>

definition live_newOut :: "func \<Rightarrow> live_map \<Rightarrow> bid \<Rightarrow> bitvec" where
  "live_newOut F st b =
     foldl (\<lambda>acc succ. bv_or acc (l_in (live_at st succ)))
       (bv_new (length (universe F)) False) (f_succs F b)"

definition live_newIn :: "func \<Rightarrow> live_map \<Rightarrow> bid \<Rightarrow> bitvec" where
  "live_newIn F st b =
     bv_or (l_use (live_at st b)) (bv_andnot (live_newOut F st b) (l_def (live_at st b)))"

text \<open>One block of a backward sweep.\<close>

definition live_visit :: "func \<Rightarrow> live_map \<times> bool \<Rightarrow> bid \<Rightarrow> live_map \<times> bool" where
  "live_visit F sc b = (case sc of (st, changed) \<Rightarrow>
     (let newOut = live_newOut F st b; newIn = live_newIn F st b; bs = live_at st b
      in if newIn \<noteq> l_in bs \<or> newOut \<noteq> l_out bs
         then (st(b \<mapsto> bs\<lparr>l_in := newIn, l_out := newOut\<rparr>), True)
         else (st, changed)))"

definition computeLiveness :: "func \<Rightarrow> live_map option" where
  "computeLiveness F = map_option fst (rr_loop (live_visit F) (rev (f_blocks F)) (live_init F))"

section \<open>What liveness means\<close>

text \<open>A value is exposed in an instruction list if it is used before the list defines it.\<close>

definition exposed :: "func \<Rightarrow> iid list \<Rightarrow> val \<Rightarrow> bool" where
  "exposed F xs v \<longleftrightarrow> (\<exists>ys i zs. xs = ys @ i # zs \<and> v \<in> set (operands F i) \<and> v \<notin> Inst ` set ys)"

text \<open>A value is live into a block if some path leads from the block's start to a use of
  the value without passing its definition.\<close>

inductive live_in :: "func \<Rightarrow> bid \<Rightarrow> val \<Rightarrow> bool" for F where
  live_use: "exposed F (f_body F b) v \<Longrightarrow> live_in F b v"
| live_pass: "c \<in> set (f_succs F b) \<Longrightarrow> live_in F c v \<Longrightarrow> v \<notin> Inst ` set (f_body F b) \<Longrightarrow> live_in F b v"

inductive_simps live_in_iff: "live_in F b v"

definition live_out :: "func \<Rightarrow> bid \<Rightarrow> val \<Rightarrow> bool" where
  "live_out F b v \<longleftrightarrow> (\<exists>c \<in> set (f_succs F b). live_in F c v)"

lemma exposed_Nil [simp]: "\<not> exposed F [] v"
  by (simp add: exposed_def)

lemma exposed_snoc:
  "exposed F (xs @ [i]) v \<longleftrightarrow> exposed F xs v \<or> (v \<in> set (operands F i) \<and> v \<notin> Inst ` set xs)"
proof
  assume "exposed F (xs @ [i]) v"
  then obtain ys j zs where *: "xs @ [i] = ys @ j # zs" "v \<in> set (operands F j)" "v \<notin> Inst ` set ys"
    by (auto simp: exposed_def)
  then show "exposed F xs v \<or> (v \<in> set (operands F i) \<and> v \<notin> Inst ` set xs)"
    by (cases zs rule: rev_cases) (auto simp: exposed_def)
next
  assume "exposed F xs v \<or> (v \<in> set (operands F i) \<and> v \<notin> Inst ` set xs)"
  then show "exposed F (xs @ [i]) v"
  proof
    assume "exposed F xs v"
    then obtain ys j zs where "xs = ys @ j # zs" "v \<in> set (operands F j)" "v \<notin> Inst ` set ys"
      by (auto simp: exposed_def)
    then show ?thesis unfolding exposed_def by (intro exI [of _ ys] exI [of _ j] exI [of _ "zs @ [i]"]) simp
  qed (auto simp: exposed_def)
qed

section \<open>Use and def sets\<close>

text \<open>The index assigns each value of the universe its position.\<close>

lemma index_Some_iff:
  assumes "wf_func F"
  shows "buildValueIndex (universe F) v = Some k \<longleftrightarrow> k < length (universe F) \<and> universe F ! k = v"
  by (rule buildValueIndex_Some [OF distinct_universe [OF assms]])

lemma live_operand_fold:
  fixes u d :: bitvec and vs :: "val list"
  assumes wf: "wf_func F" and len: "length u = length (universe F)"
  defines "r \<equiv> foldl (live_operand (buildValueIndex (universe F))) (u, d) vs"
  shows "snd r = d \<and> length (fst r) = length (universe F) \<and>
    (\<forall>k < length (universe F). bv_test (fst r) k \<longleftrightarrow>
       bv_test u k \<or> (universe F ! k \<in> set vs \<and> \<not> bv_test d k))"
  unfolding r_def using len
proof (induction vs arbitrary: u)
  case (Cons v vs)
  let ?idx = "buildValueIndex (universe F)"
  show ?case
  proof (cases "?idx v")
    case None
    then have "v \<notin> set (universe F)"
      using buildValueIndex_None [OF distinct_universe [OF wf]] by simp
    then have "k < length (universe F) \<Longrightarrow> universe F ! k \<noteq> v" for k by (metis nth_mem)
    then show ?thesis using Cons None by (auto simp: live_operand_def)
  next
    case (Some k)
    then have k: "k < length (universe F)" "universe F ! k = v" using index_Some_iff [OF wf] by auto
    have inj: "j < length (universe F) \<Longrightarrow> universe F ! j = v \<longleftrightarrow> j = k" for j
      using distinct_universe [OF wf] k by (metis nth_eq_iff_index_eq)
    show ?thesis
      using Cons.IH [of "if bv_test d k then u else bv_set u k"] Cons.prems Some k inj
      by (auto simp: live_operand_def bv_simps split: if_splits)
  qed
qed simp

lemma live_block_fold:
  fixes F :: func and xs :: "iid list"
  assumes wf: "wf_func F"
  defines "N \<equiv> length (universe F)"
  defines "r \<equiv> foldl (live_instr F (buildValueIndex (universe F))) (bv_new N False, bv_new N False)"
  shows "length (fst (r xs)) = N \<and> length (snd (r xs)) = N \<and>
    (\<forall>k < N. (bv_test (fst (r xs)) k \<longleftrightarrow> exposed F xs (universe F ! k)) \<and>
       (bv_test (snd (r xs)) k \<longleftrightarrow> universe F ! k \<in> Inst ` set xs))"
proof (induction xs rule: rev_induct)
  case Nil
  then show ?case by (simp add: r_def bv_simps)
next
  case (snoc i xs)
  let ?idx = "buildValueIndex (universe F)"
  let ?ud = "foldl (live_operand ?idx) (r xs) (operands F i)"
  have fold: "snd ?ud = snd (r xs)" "length (fst ?ud) = N"
    "\<And>k. k < N \<Longrightarrow> bv_test (fst ?ud) k \<longleftrightarrow>
       bv_test (fst (r xs)) k \<or> (universe F ! k \<in> set (operands F i) \<and> \<not> bv_test (snd (r xs)) k)"
    using live_operand_fold [OF wf, of "fst (r xs)" "snd (r xs)" "operands F i"] snoc
    by (auto simp: N_def)
  have r_eq: "r xs = foldl (live_instr F ?idx) (bv_new N False, bv_new N False) xs" for xs by (simp add: r_def)
  have step: "r (xs @ [i]) = (case ?idx (Inst i) of None \<Rightarrow> ?ud | Some k \<Rightarrow> (fst ?ud, bv_set (snd ?ud) k))"
    unfolding r_eq by (simp add: live_instr_def Let_def)
  have hit: "k < N \<Longrightarrow> ?idx (Inst i) = Some k \<longleftrightarrow> universe F ! k = Inst i" for k
    using index_Some_iff [OF wf] by (auto simp: N_def)
  show ?case
  proof (cases "?idx (Inst i)")
    case None
    then show ?thesis using snoc fold hit by (auto simp: step exposed_snoc)
  next
    case (Some k)
    then have "\<And>j. j < N \<Longrightarrow> j = k \<longleftrightarrow> universe F ! j = Inst i" using hit by (metis option.inject)
    then show ?thesis using snoc fold Some by (auto simp: step exposed_snoc bv_simps)
  qed
qed

lemma live_block_use_def:
  fixes F :: func and b :: bid
  assumes "wf_func F" "k < length (universe F)"
  defines "s \<equiv> live_block F (buildValueIndex (universe F)) (length (universe F)) b"
  shows "bv_test (l_use s) k \<longleftrightarrow> exposed F (f_body F b) (universe F ! k)"
    and "bv_test (l_def s) k \<longleftrightarrow> universe F ! k \<in> Inst ` set (f_body F b)"
    and "length (l_use s) = length (universe F)" "length (l_def s) = length (universe F)"
  using live_block_fold [OF assms(1), of "f_body F b"] assms(2)
  by (simp_all add: s_def live_block_def Let_def)

lemma live_init_at:
  "b \<in> set (f_blocks F) \<Longrightarrow>
   live_init F b = Some (live_block F (buildValueIndex (universe F)) (length (universe F)) b)"
  by (simp add: live_init_def Let_def foldl_upd_map)

section \<open>The fixed point\<close>

text \<open>
  The loop's invariant: the use and def sets stay as collected, every bit set so far is
  justified by a path (soundness), and each set is below the right-hand side of its
  equation, so that a visit can only add bits.
\<close>

definition live_blk :: "func \<Rightarrow> live_map \<Rightarrow> bid \<Rightarrow> bool" where
  "live_blk F st b \<longleftrightarrow> (let s = live_at st b; N = length (universe F);
         s0 = live_block F (buildValueIndex (universe F)) N b
     in length (l_in s) = N \<and> length (l_out s) = N \<and> l_use s = l_use s0 \<and> l_def s = l_def s0 \<and>
        (\<forall>k. bv_test (l_in s) k \<longrightarrow> live_in F b (universe F ! k)) \<and>
        (\<forall>k. bv_test (l_out s) k \<longrightarrow> (\<exists>c \<in> set (f_succs F b). bv_test (l_in (live_at st c)) k)) \<and>
        (\<forall>k. bv_test (l_in s) k \<longrightarrow> bv_test (l_use s) k \<or> (bv_test (l_out s) k \<and> \<not> bv_test (l_def s) k)))"

definition live_inv :: "func \<Rightarrow> live_map \<Rightarrow> bool" where
  "live_inv F st \<longleftrightarrow> wf_func F \<and> (\<forall>b \<in> set (f_blocks F). live_blk F st b)"

definition live_ok :: "func \<Rightarrow> bid \<Rightarrow> live_map \<Rightarrow> bool" where
  "live_ok F b st \<longleftrightarrow>
     (\<forall>k. bv_test (l_out (live_at st b)) k \<longleftrightarrow> (\<exists>c \<in> set (f_succs F b). bv_test (l_in (live_at st c)) k)) \<and>
     (\<forall>k. bv_test (l_in (live_at st b)) k \<longleftrightarrow> bv_test (l_use (live_at st b)) k \<or>
        (bv_test (l_out (live_at st b)) k \<and> \<not> bv_test (l_def (live_at st b)) k))"

definition live_mu :: "func \<Rightarrow> live_map \<Rightarrow> nat" where
  "live_mu F st = (\<Sum>b \<leftarrow> f_blocks F. (length (universe F) - bv_count (l_in (live_at st b))) +
     (length (universe F) - bv_count (l_out (live_at st b))))"

lemma live_inv_init: "wf_func F \<Longrightarrow> live_inv F (live_init F)"
  by (auto simp: live_inv_def live_blk_def Let_def dm_get_def live_init_at live_block_def bv_simps)

text \<open>The sets a visit computes.\<close>

lemma live_visit_sets:
  assumes inv: "live_inv F st" and b: "b \<in> set (f_blocks F)"
  shows "length (live_newOut F st b) = length (universe F)" "length (live_newIn F st b) = length (universe F)"
    "bv_test (live_newOut F st b) k \<longleftrightarrow> (\<exists>c \<in> set (f_succs F b). bv_test (l_in (live_at st c)) k)"
    "bv_test (live_newIn F st b) k \<longleftrightarrow> bv_test (l_use (live_at st b)) k \<or>
       (bv_test (live_newOut F st b) k \<and> \<not> bv_test (l_def (live_at st b)) k)"
    "bv_test (l_out (live_at st b)) k \<Longrightarrow> bv_test (live_newOut F st b) k"
    "bv_test (l_in (live_at st b)) k \<Longrightarrow> bv_test (live_newIn F st b) k"
    "bv_test (live_newIn F st b) k \<Longrightarrow> k < length (universe F) \<and> live_in F b (universe F ! k)"
proof -
  let ?N = "length (universe F)"
  have wf: "wf_func F" using inv by (simp add: live_inv_def)
  note at_b = inv [unfolded live_inv_def live_blk_def Let_def, THEN conjunct2, rule_format]
  have use_len: "length (l_use (live_at st b)) = ?N" "length (l_def (live_at st b)) = ?N"
    using at_b [OF b] live_block_fold [OF wf, of "f_body F b"]
    by (simp_all add: live_block_def Let_def)
  have succ: "c \<in> set (f_blocks F)" if "c \<in> set (f_succs F b)" for c using wf_succs [OF wf b that] .
  show out_len: "length (live_newOut F st b) = ?N"
    unfolding live_newOut_def using at_b succ by (intro bv.union_size) (auto simp: bv_simps)
  show in_len: "length (live_newIn F st b) = ?N"
    unfolding live_newIn_def by (rule bv.transfer_size [OF use_len(1) out_len])
  show out: "bv_test (live_newOut F st b) k \<longleftrightarrow> (\<exists>c \<in> set (f_succs F b). bv_test (l_in (live_at st c)) k)" for k
    unfolding live_newOut_def by (simp add: bv.union_test bv_simps)
  show new_in: "bv_test (live_newIn F st b) k \<longleftrightarrow> bv_test (l_use (live_at st b)) k \<or>
      (bv_test (live_newOut F st b) k \<and> \<not> bv_test (l_def (live_at st b)) k)" for k
    unfolding live_newIn_def by (rule bv.transfer_test)
  have len: "length (l_in (live_at st b)) = ?N" "length (l_out (live_at st b)) = ?N"
    using at_b [OF b] by simp_all
  show old_out: "bv_test (live_newOut F st b) k" if "bv_test (l_out (live_at st b)) k" for k
    using that at_b [OF b] bv_test_length [OF that] len out by auto
  show "bv_test (live_newIn F st b) k" if "bv_test (l_in (live_at st b)) k" for k
    using that at_b [OF b] bv_test_length [OF that] len old_out [of k] new_in by auto
  show "k < ?N \<and> live_in F b (universe F ! k)" if t: "bv_test (live_newIn F st b) k" for k
  proof -
    have k: "k < ?N" using bv_test_length [OF t] in_len by simp
    have ud: "bv_test (l_use (live_at st b)) k \<longleftrightarrow> exposed F (f_body F b) (universe F ! k)"
      "bv_test (l_def (live_at st b)) k \<longleftrightarrow> universe F ! k \<in> Inst ` set (f_body F b)"
      using at_b [OF b] live_block_use_def [OF wf k, of b] by simp_all
    have "live_in F c (universe F ! k)" if "c \<in> set (f_succs F b)" "bv_test (l_in (live_at st c)) k" for c
      using at_b [OF succ [OF that(1)]] that(2) k by simp
    then show ?thesis using t new_in out ud k by (auto intro: live_in.intros)
  qed
qed

text \<open>The two outcomes of a visit.\<close>

lemma live_visit_cases:
  assumes "live_visit F (st, c) b = (st', c')"
  obtains (quiet) "st' = st" "c' = c" "live_newIn F st b = l_in (live_at st b)"
      "live_newOut F st b = l_out (live_at st b)"
    | (change) "st' = st(b \<mapsto> (live_at st b)\<lparr>l_in := live_newIn F st b, l_out := live_newOut F st b\<rparr>)" c'
      "live_newIn F st b \<noteq> l_in (live_at st b) \<or> live_newOut F st b \<noteq> l_out (live_at st b)"
  using assms that by (auto simp: live_visit_def Let_def split: if_splits)

lemma live_visit_inv:
  assumes inv: "live_inv F st" and b: "b \<in> set (f_blocks F)" and v: "live_visit F (st, c) b = (st', c')"
  shows "live_inv F st'"
  using v
proof (cases rule: live_visit_cases)
  case change
  note new = live_visit_sets [OF inv b]
  have mono: "bv_test (l_in (live_at st d)) k \<Longrightarrow> bv_test (l_in (live_at st' d)) k" for d k
    using new(6) [of k] by (cases "d = b") (simp_all add: change(1))
  have "live_blk F st' d" if d: "d \<in> set (f_blocks F)" for d
  proof -
    have old: "live_blk F st d" using inv d by (simp add: live_inv_def)
    have succ: "(\<exists>c \<in> set (f_succs F d). bv_test (l_in (live_at st c)) k) \<Longrightarrow>
      (\<exists>c \<in> set (f_succs F d). bv_test (l_in (live_at st' c)) k)" for k using mono by blast
    show ?thesis
    proof (cases "d = b")
      case True
      then show ?thesis using old new succ unfolding live_blk_def Let_def by (auto simp: change(1))
    next
      case False
      then have "live_at st' d = live_at st d" by (simp add: change(1))
      then show ?thesis using old succ unfolding live_blk_def Let_def by metis
    qed
  qed
  then show ?thesis using inv by (simp add: live_inv_def)
qed (use inv in simp)

lemma live_mu_decreases:
  assumes inv: "live_inv F st" and b: "b \<in> set (f_blocks F)"
    and change: "live_newIn F st b \<noteq> l_in (live_at st b) \<or> live_newOut F st b \<noteq> l_out (live_at st b)"
  shows "live_mu F (st(b \<mapsto> (live_at st b)\<lparr>l_in := live_newIn F st b, l_out := live_newOut F st b\<rparr>)) < live_mu F st"
    (is "live_mu F ?st' < _")
proof -
  let ?N = "length (universe F)" and ?in = "live_newIn F st b" and ?out = "live_newOut F st b"
  note new = live_visit_sets [OF inv b]
  have len: "length (l_in (live_at st b)) = ?N" "length (l_out (live_at st b)) = ?N"
    using inv b by (auto simp: live_inv_def live_blk_def Let_def)
  have le: "bv_count (l_in (live_at st b)) \<le> bv_count ?in" "bv_count (l_out (live_at st b)) \<le> bv_count ?out"
    using new(5,6) by (blast intro: bv_count_mono)+
  have lt: "bv_count (l_in (live_at st b)) < bv_count ?in \<or> bv_count (l_out (live_at st b)) < bv_count ?out"
    using change
  proof
    assume "?in \<noteq> l_in (live_at st b)"
    then show ?thesis using bv_count_strict_mono [of "l_in (live_at st b)" ?in] new(2,6) len by metis
  next
    assume "?out \<noteq> l_out (live_at st b)"
    then show ?thesis using bv_count_strict_mono [of "l_out (live_at st b)" ?out] new(1,5) len by metis
  qed
  have top: "bv_count ?in \<le> ?N" "bv_count ?out \<le> ?N" using bv_count_le new(1,2) by metis+
  show ?thesis
    unfolding live_mu_def
  proof (rule sum_list_strict_mono_at [OF b])
    show "?N - bv_count (l_in (live_at ?st' b)) + (?N - bv_count (l_out (live_at ?st' b)))
      < ?N - bv_count (l_in (live_at st b)) + (?N - bv_count (l_out (live_at st b)))"
      using le lt top by auto
  qed (use le in \<open>auto intro!: add_mono diff_le_mono2\<close>)
qed

lemma live_visit_step:
  assumes inv: "live_inv F st" and b: "b \<in> set (f_blocks F)" and v: "live_visit F (st, c) b = (st', c')"
  shows "c' = c \<and> live_mu F st' \<le> live_mu F st \<and> live_ok F b st' \<and>
     (\<forall>m \<in> set (rev (f_blocks F)). live_ok F m st \<longrightarrow> live_ok F m st') \<or> c' \<and> live_mu F st' < live_mu F st"
  using v
proof (cases rule: live_visit_cases)
  case quiet
  have "live_ok F b st"
    unfolding live_ok_def using live_visit_sets(3,4) [OF inv b] quiet(3,4) by metis
  then show ?thesis using quiet by simp
next
  case change
  then show ?thesis using live_mu_decreases [OF inv b] by simp
qed

interpretation live: round_robin live_inv "\<lambda>F. rev (f_blocks F)" live_visit live_mu live_ok
proof unfold_locales
  fix F st b c st' c'
  assume a: "live_inv F st" "b \<in> set (rev (f_blocks F))" "live_visit F (st, c) b = (st', c')"
  then have b: "b \<in> set (f_blocks F)" by simp
  show "live_inv F st'" using live_visit_inv [OF a(1) b a(3)] .
  show "c' = c \<and> live_mu F st' \<le> live_mu F st \<and> live_ok F b st' \<and>
     (\<forall>m \<in> set (rev (f_blocks F)). live_ok F m st \<longrightarrow> live_ok F m st') \<or> c' \<and> live_mu F st' < live_mu F st"
    using live_visit_step [OF a(1) b a(3)] .
qed

section \<open>Correctness\<close>

lemma computeLiveness_result:
  assumes "wf_func F"
  obtains st where "computeLiveness F = Some st" "live_inv F st" "\<forall>b \<in> set (f_blocks F). live_ok F b st"
proof -
  obtain st where st: "rr_loop (live_visit F) (rev (f_blocks F)) (live_init F) = Some (st, False)"
    using live.loop_terminates [OF live_inv_init [OF assms]] by blast
  show thesis
    using live.loop_result [OF live_inv_init [OF assms] st] that [of st] st by (simp add: computeLiveness_def)
qed

lemma live_in_complete:
  assumes "live_in F b v" and inv: "live_inv F st" and ok: "\<forall>b \<in> set (f_blocks F). live_ok F b st"
    and "b \<in> set (f_blocks F)" "k < length (universe F)" "universe F ! k = v"
  shows "bv_test (l_in (live_at st b)) k"
  using assms(1,4-6)
proof (induction rule: live_in.induct)
  case (live_use b v)
  then show ?case using inv ok live_block_use_def [of F k b]
    by (auto simp: live_inv_def live_blk_def live_ok_def Let_def)
next
  case (live_pass c b v)
  have wf: "wf_func F" using inv by (simp add: live_inv_def)
  have "bv_test (l_in (live_at st c)) k" using live_pass wf_succs [OF wf] by blast
  then have "bv_test (l_out (live_at st b)) k" using ok live_pass by (auto simp: live_ok_def)
  moreover have "\<not> bv_test (l_def (live_at st b)) k"
    using inv live_pass live_block_use_def [OF wf, of k b] by (auto simp: live_inv_def live_blk_def Let_def)
  ultimately show ?case using ok live_pass by (auto simp: live_ok_def)
qed

text \<open>The sets of a finished analysis: sizes and meaning.\<close>

lemma computeLiveness_sound_complete:
  assumes wf: "wf_func F" and res: "computeLiveness F = Some st" and b: "b \<in> set (f_blocks F)"
  shows "length (l_in (live_at st b)) = length (universe F)" "length (l_out (live_at st b)) = length (universe F)"
    "k < length (universe F) \<Longrightarrow> bv_test (l_in (live_at st b)) k \<longleftrightarrow> live_in F b (universe F ! k)"
    "k < length (universe F) \<Longrightarrow> bv_test (l_out (live_at st b)) k \<longleftrightarrow> live_out F b (universe F ! k)"
proof -
  have inv: "live_inv F st" and ok: "\<forall>b \<in> set (f_blocks F). live_ok F b st"
    using computeLiveness_result [OF wf] res by (metis option.inject)+
  show "length (l_in (live_at st b)) = length (universe F)" "length (l_out (live_at st b)) = length (universe F)"
    using inv b by (auto simp: live_inv_def live_blk_def Let_def)
  have iff: "bv_test (l_in (live_at st c)) k \<longleftrightarrow> live_in F c (universe F ! k)"
    if "k < length (universe F)" "c \<in> set (f_blocks F)" for c
    using that inv live_in_complete [OF _ inv ok that(2,1) refl] by (auto simp: live_inv_def live_blk_def Let_def)
  show "bv_test (l_in (live_at st b)) k \<longleftrightarrow> live_in F b (universe F ! k)" if "k < length (universe F)"
    using iff [OF that b] .
  show "bv_test (l_out (live_at st b)) k \<longleftrightarrow> live_out F b (universe F ! k)" if "k < length (universe F)"
    using ok b iff [OF that] wf_succs [OF wf b] by (auto simp: live_ok_def live_out_def)
qed

end
