(* ===== verification/Config.thy ===== *)
theory Config
  imports Main
begin

text \<open>
  The environment variables that tune the passes: \<open>getTraceThreshold\<close> and
  \<open>schedStatsEnabled\<close> of \<open>include/traceIdentification.hpp\<close> and \<open>getPressureBudget\<close> of
  \<open>include/applySchedule.hpp\<close>.  The process environment (\<open>std::getenv\<close>) is a parameter;
  each variable is read once per process, so a setting is a function of the environment.
\<close>

type_synonym environment = "string \<Rightarrow> string option"

section \<open>C's atoi\<close>

text \<open>White space is skipped, then an optional sign and the longest run of digits are read;
  no digits give 0.  C leaves values outside \<open>int\<close> undefined; the model returns the number
  that is written.\<close>

definition c_isspace :: "char \<Rightarrow> bool" where
  "c_isspace c \<longleftrightarrow> of_char c \<in> {32, 9, 10, 11, 12, 13 :: nat}"

definition c_isdigit :: "char \<Rightarrow> bool" where
  "c_isdigit c \<longleftrightarrow> 48 \<le> (of_char c :: nat) \<and> (of_char c :: nat) \<le> 57"

definition digits_value :: "string \<Rightarrow> int" where
  "digits_value s = foldl (\<lambda>n c. 10 * n + (of_char c - 48)) 0 (takeWhile c_isdigit s)"

definition atoi :: "string \<Rightarrow> int" where
  "atoi s = (case dropWhile c_isspace s of
       [] \<Rightarrow> 0
     | c # cs \<Rightarrow> (if c = CHR ''-'' then - digits_value cs
                else if c = CHR ''+'' then digits_value cs
                else digits_value (c # cs)))"

section \<open>Settings\<close>

definition trace_threshold_pct :: "environment \<Rightarrow> int" where
  "trace_threshold_pct env = (case env ''SCHED_TRACE_THRESHOLD_PCT'' of
       None \<Rightarrow> 60
     | Some s \<Rightarrow> (let parsed = atoi s in if parsed > 0 \<and> parsed \<le> 100 then parsed else 60))"

text \<open>\<open>mkprob n d\<close> is LLVM's \<open>BranchProbability(n, d)\<close>; probabilities are represented by
  their numerators over LLVM's fixed denominator, on which its comparisons are defined.\<close>

definition getTraceThreshold :: "(nat \<Rightarrow> nat \<Rightarrow> nat) \<Rightarrow> environment \<Rightarrow> nat" where
  "getTraceThreshold mkprob env = mkprob (nat (trace_threshold_pct env)) 100"

definition schedStatsEnabled :: "environment \<Rightarrow> bool" where
  "schedStatsEnabled env = (case env ''SCHED_STATS'' of None \<Rightarrow> False | Some s \<Rightarrow> s = ''1'')"

definition getPressureBudget :: "environment \<Rightarrow> int" where
  "getPressureBudget env = (case env ''SCHED_PRESSURE_BUDGET'' of
       None \<Rightarrow> 12
     | Some s \<Rightarrow> (let parsed = atoi s in if parsed > 0 then parsed else 12))"

lemma trace_threshold_pct_range: "1 \<le> trace_threshold_pct env \<and> trace_threshold_pct env \<le> 100"
  by (auto simp: trace_threshold_pct_def Let_def split: option.splits)

lemma getPressureBudget_pos: "1 \<le> getPressureBudget env"
  by (auto simp: getPressureBudget_def Let_def split: option.splits)

end
