(* ===== verification/List_Scheduler.thy ===== *)
theory List_Scheduler
  imports Critical Liveness Config
begin

text \<open>
  \<open>include/listScheduler.hpp\<close>: list scheduling of one dependence graph.  A ready queue
  holds the nodes whose predecessors are all scheduled; the node with the highest critical
  path is taken, ties broken by the smallest change of register pressure.  The lemmas show
  that the loop ends on every graph, that the schedule lists each node at most once and
  after all its predecessors, and that on acyclic graphs nothing is left out.
\<close>

section \<open>Register pressure\<close>

text \<open>\<open>liveness[I->getParent()].out\<close>.\<close>

definition out_of_parent :: "func \<Rightarrow> live_map \<Rightarrow> iid \<Rightarrow> bitvec" where
  "out_of_parent F lv i =
     (case parent F i of None \<Rightarrow> [] | Some b \<Rightarrow> l_out (live_at lv b))"

definition pressureDelta :: "func \<Rightarrow> iid \<Rightarrow> bitvec \<Rightarrow> (val \<Rightarrow> nat option) \<Rightarrow> live_map \<Rightarrow> int" where
  "pressureDelta F i currentLive index lv =
     (let delta0 = (if \<not> is_void F i
                    then (case index (Inst i) of None \<Rightarrow> 0
                          | Some idx \<Rightarrow> (if \<not> bv_test currentLive idx then 1 else 0)) else 0)
      in foldl (\<lambda>delta v. case index v of None \<Rightarrow> delta
                 | Some idx \<Rightarrow> (if bv_test currentLive idx \<and> \<not> bv_test (out_of_parent F lv i) idx
                               then delta - 1 else delta)) delta0 (operands F i))"

definition updateLiveSet :: "func \<Rightarrow> iid \<Rightarrow> bitvec \<Rightarrow> (val \<Rightarrow> nat option) \<Rightarrow> live_map \<Rightarrow> bitvec" where
  "updateLiveSet F i currentLive index lv =
     (let live0 = (if \<not> is_void F i
                   then (case index (Inst i) of None \<Rightarrow> currentLive | Some idx \<Rightarrow> bv_set currentLive idx)
                   else currentLive)
      in foldl (\<lambda>live v. case index v of None \<Rightarrow> live
                 | Some idx \<Rightarrow> (if \<not> bv_test (out_of_parent F lv i) idx then bv_reset live idx else live))
           live0 (operands F i))"

section \<open>The ready queue\<close>

definition INT_MAX :: int where
  "INT_MAX = 2147483647"

text \<open>One candidate of \<open>pickBest\<close>; the state is \<open>(best, bestCP, bestDelta)\<close>.\<close>

definition pick_step :: "(nat \<Rightarrow> int) \<Rightarrow> (nat \<Rightarrow> int) \<Rightarrow> nat option \<times> int \<times> int \<Rightarrow> nat \<Rightarrow> nat option \<times> int \<times> int" where
  "pick_step cp delta s n = (case s of (best, bestCP, bestDelta) \<Rightarrow>
     (if cp n > bestCP then (Some n, cp n, delta n)
      else if cp n = bestCP \<and> delta n < bestDelta then (Some n, bestCP, delta n)
      else (best, bestCP, bestDelta)))"

definition pickBest :: "func \<Rightarrow> ddg \<Rightarrow> nat list \<Rightarrow> bitvec \<Rightarrow> (val \<Rightarrow> nat option) \<Rightarrow> live_map \<Rightarrow> bool \<Rightarrow> nat option" where
  "pickBest F g readyQueue currentLive index lv useRegPressure =
     fst (foldl (pick_step (\<lambda>n. dn_cp (g ! n))
            (\<lambda>n. if useRegPressure then pressureDelta F (dn_instr (g ! n)) currentLive index lv else 0))
          (None, -1, INT_MAX) readyQueue)"

section \<open>The scheduling loop\<close>

record sched_state =
  ss_queue :: "nat list"
  ss_ddg :: ddg
  ss_live :: bitvec
  ss_schedule :: "iid list"
  ss_peak :: nat             \<comment> \<open>\<open>g_peakLivePressure\<close>\<close>

text \<open>Fixed inputs of one run.\<close>

record sched_ctx =
  sc_func :: func
  sc_index :: "val \<Rightarrow> nat option"
  sc_live :: live_map
  sc_pressure :: bool        \<comment> \<open>\<open>useRegPressure\<close>\<close>
  sc_stats :: bool           \<comment> \<open>\<open>schedStatsEnabled()\<close>\<close>

definition schedulable :: "func \<Rightarrow> ddg \<Rightarrow> nat \<Rightarrow> bool" where
  "schedulable F g n \<longleftrightarrow> \<not> is_term F (dn_instr (g ! n)) \<and> \<not> is_phi F (dn_instr (g ! n))"

definition reset_pcount :: "ddg_node \<Rightarrow> ddg_node" where
  "reset_pcount n = n\<lparr>dn_pcount := int (length (dn_preds n))\<rparr>"

definition note_peak :: "bool \<Rightarrow> bitvec \<Rightarrow> nat \<Rightarrow> nat" where
  "note_peak statsOn live peak = (if statsOn \<and> bv_count live > peak then bv_count live else peak)"

definition sched_init :: "sched_ctx \<Rightarrow> ddg \<Rightarrow> bitvec \<Rightarrow> nat \<Rightarrow> sched_state" where
  "sched_init c g live peak =
     (let g0 = map reset_pcount g
      in \<lparr>ss_queue = filter (\<lambda>n. dn_pcount (g0 ! n) = 0 \<and> schedulable (sc_func c) g0 n) [0..<length g0],
          ss_ddg = g0, ss_live = live, ss_schedule = [], ss_peak = note_peak (sc_stats c) live peak\<rparr>)"

text \<open>Release one successor of the node just scheduled.\<close>

definition release :: "func \<Rightarrow> ddg \<times> nat list \<Rightarrow> nat \<Rightarrow> ddg \<times> nat list" where
  "release F gq s = (case gq of (g, q) \<Rightarrow>
     (let g' = g[s := (g ! s)\<lparr>dn_pcount := dn_pcount (g ! s) - 1\<rparr>]
      in if dn_pcount (g' ! s) = 0 \<and> schedulable F g' s then (g', q @ [s]) else (g', q)))"

definition sched_step :: "sched_ctx \<Rightarrow> sched_state \<Rightarrow> nat \<Rightarrow> sched_state" where
  "sched_step c st best =
     (let g = ss_ddg st; i = dn_instr (g ! best);
          live = updateLiveSet (sc_func c) i (ss_live st) (sc_index c) (sc_live c);
          gq = foldl (release (sc_func c)) (g, remove1 best (ss_queue st)) (dn_succs (g ! best))
      in \<lparr>ss_queue = snd gq, ss_ddg = fst gq, ss_live = live, ss_schedule = ss_schedule st @ [i],
          ss_peak = note_peak (sc_stats c) live (ss_peak st)\<rparr>)"

text \<open>\<open>None\<close> is a loop that does not return, or the undefined \<open>erase(end())\<close> that a null
  \<open>best\<close> would cause.\<close>

partial_function (option) sched_loop :: "sched_ctx \<Rightarrow> sched_state \<Rightarrow> sched_state option" where
  "sched_loop c st =
     (if ss_queue st = [] then Some st
      else (case pickBest (sc_func c) (ss_ddg st) (ss_queue st) (ss_live st) (sc_index c) (sc_live c) (sc_pressure c) of
              None \<Rightarrow> None
            | Some best \<Rightarrow> sched_loop c (sched_step c st best)))"

declare sched_loop.simps [code]

definition listSchedule :: "sched_ctx \<Rightarrow> ddg \<Rightarrow> bitvec \<Rightarrow> nat \<Rightarrow> sched_state option" where
  "listSchedule c g currentLive peak = sched_loop c (sched_init c g currentLive peak)"

section \<open>pickBest\<close>

text \<open>What \<open>best\<close> is after some candidates: of maximal critical path, of minimal delta among
  those, and the first such.\<close>

definition best_of :: "(nat \<Rightarrow> int) \<Rightarrow> (nat \<Rightarrow> int) \<Rightarrow> nat list \<Rightarrow> nat \<Rightarrow> bool" where
  "best_of cp delta q n \<longleftrightarrow> (\<exists>us vs. q = us @ n # vs \<and>
     (\<forall>m \<in> set us. cp m < cp n \<or> (cp m = cp n \<and> delta n < delta m)) \<and>
     (\<forall>m \<in> set vs. cp m < cp n \<or> (cp m = cp n \<and> delta n \<le> delta m)))"

lemma best_of_in: "best_of cp delta q n \<Longrightarrow> n \<in> set q"
  by (auto simp: best_of_def)

lemma best_of_cong:
  "\<forall>m \<in> set q. cp m = cp' m \<and> delta m = delta' m \<Longrightarrow> best_of cp delta q n \<longleftrightarrow> best_of cp' delta' q n"
  unfolding best_of_def by (intro ex_cong1 conj_cong refl) auto

lemma best_of_max: "best_of cp delta q n \<Longrightarrow> m \<in> set q \<Longrightarrow> cp m < cp n \<or> (cp m = cp n \<and> delta n \<le> delta m)"
  by (fastforce simp: best_of_def)

lemma best_of_snoc_new:
  assumes "best_of cp delta q n" "cp n < cp x \<or> (cp x = cp n \<and> delta x < delta n)"
  shows "best_of cp delta (q @ [x]) x"
proof -
  have "\<forall>m \<in> set q. cp m < cp n \<or> (cp m = cp n \<and> delta n \<le> delta m)"
    using assms(1) by (fastforce simp: best_of_def)
  then have "\<forall>m \<in> set q. cp m < cp x \<or> (cp m = cp x \<and> delta x < delta m)"
    using assms(2) by fastforce
  then show ?thesis unfolding best_of_def by (intro exI [of _ q] exI [of _ "[]"]) simp
qed

lemma best_of_snoc_old:
  assumes "best_of cp delta q n" "\<not> (cp n < cp x \<or> (cp x = cp n \<and> delta x < delta n))"
  shows "best_of cp delta (q @ [x]) n"
proof -
  from assms(1) obtain us vs where "q = us @ n # vs"
     "\<forall>m \<in> set us. cp m < cp n \<or> (cp m = cp n \<and> delta n < delta m)"
     "\<forall>m \<in> set vs. cp m < cp n \<or> (cp m = cp n \<and> delta n \<le> delta m)"
    by (auto simp: best_of_def)
  then show ?thesis using assms(2) unfolding best_of_def
    by (intro exI [of _ us] exI [of _ "vs @ [x]"]) auto
qed

lemma pick_fold:
  assumes "q \<noteq> []" "\<forall>n \<in> set q. 0 \<le> cp n"
  shows "\<exists>n. foldl (pick_step cp delta) (None, -1, INT_MAX) q = (Some n, cp n, delta n) \<and> best_of cp delta q n"
  using assms
proof (induction q rule: rev_induct)
  case (snoc x q)
  show ?case
  proof (cases "q = []")
    case True
    then show ?thesis using snoc.prems by (simp add: pick_step_def best_of_def Cons_eq_append_conv)
  next
    case False
    then obtain n where n: "foldl (pick_step cp delta) (None, -1, INT_MAX) q = (Some n, cp n, delta n)"
      "best_of cp delta q n" using snoc by auto
    then have fold: "foldl (pick_step cp delta) (None, -1, INT_MAX) (q @ [x]) =
        pick_step cp delta (Some n, cp n, delta n) x" by simp
    show ?thesis
      unfolding fold using best_of_snoc_new [OF n(2), of x] best_of_snoc_old [OF n(2), of x]
      by (auto simp: pick_step_def)
  qed
qed simp

lemma pickBest_best:
  assumes "q \<noteq> []" "\<forall>n \<in> set q. 0 \<le> dn_cp (g ! n)"
  obtains n where "pickBest F g q live index lv useP = Some n"
    "best_of (\<lambda>n. dn_cp (g ! n)) (\<lambda>n. if useP then pressureDelta F (dn_instr (g ! n)) live index lv else 0) q n"
  using pick_fold [OF assms, where delta = "\<lambda>n. if useP then pressureDelta F (dn_instr (g ! n)) live index lv else 0"]
    that by (auto simp: pickBest_def)

section \<open>The loop invariant\<close>

text \<open>
  \<open>sched_inv c g0 done st\<close>: \<open>done\<close> are the nodes scheduled so far.  Counters count the
  unscheduled predecessors, the queue holds exactly the schedulable nodes that have none,
  and every scheduled node comes after its predecessors.
\<close>

definition preds_of :: "ddg \<Rightarrow> nat \<Rightarrow> nat set" where
  "preds_of g n = set (dn_preds (g ! n))"

definition sched_inv :: "sched_ctx \<Rightarrow> ddg \<Rightarrow> nat list \<Rightarrow> sched_state \<Rightarrow> bool" where
  "sched_inv c g0 don st \<longleftrightarrow>
     length (ss_ddg st) = length g0 \<and>
     (\<forall>a < length g0. dn_instr (ss_ddg st ! a) = dn_instr (g0 ! a) \<and> dn_cp (ss_ddg st ! a) = dn_cp (g0 ! a) \<and>
        dn_succs (ss_ddg st ! a) = dn_succs (g0 ! a) \<and>
        dn_pcount (ss_ddg st ! a) = int (card (preds_of g0 a - set don))) \<and>
     distinct don \<and> distinct (ss_queue st) \<and> set don \<subseteq> {..<length g0} \<and>
     set (ss_queue st) = {a. a < length g0 \<and> a \<notin> set don \<and> preds_of g0 a \<subseteq> set don \<and> schedulable (sc_func c) g0 a} \<and>
     (\<forall>a \<in> set don. schedulable (sc_func c) g0 a) \<and>
     (\<forall>us a vs. don = us @ a # vs \<longrightarrow> preds_of g0 a \<subseteq> set us) \<and>
     ss_schedule st = map (\<lambda>a. dn_instr (g0 ! a)) don"

lemma sched_inv_queue:
  "sched_inv c g0 don st \<Longrightarrow> a \<in> set (ss_queue st) \<longleftrightarrow>
     a < length g0 \<and> a \<notin> set don \<and> preds_of g0 a \<subseteq> set don \<and> schedulable (sc_func c) g0 a"
  by (simp add: sched_inv_def)

lemma wf_ddg_facts:
  assumes "wf_ddg g" "a < length g"
  shows "distinct (dn_preds (g ! a))" "distinct (dn_succs (g ! a))" "preds_of g a \<subseteq> {..<length g}"
    "set (dn_succs (g ! a)) \<subseteq> {..<length g}"
    "b < length g \<Longrightarrow> b \<in> set (dn_succs (g ! a)) \<longleftrightarrow> a \<in> preds_of g b"
  using assms by (auto simp: wf_ddg_def preds_of_def)

lemma sched_inv_init:
  assumes wf: "wf_ddg g0"
  shows "sched_inv c g0 [] (sched_init c g0 live peak)"
  using wf_ddg_facts [OF wf]
  by (auto simp: sched_inv_def sched_init_def Let_def reset_pcount_def preds_of_def schedulable_def distinct_card)

text \<open>The release loop: every successor loses one pending predecessor, and those left with
  none join the queue.\<close>

lemma release_fold:
  fixes F :: func and g :: ddg and q ss :: "nat list"
  assumes "distinct ss" "set ss \<subseteq> {..<length g}"
  defines "r \<equiv> foldl (release F) (g, q) ss"
  shows "length (fst r) = length g \<and>
    (\<forall>a < length g. dn_instr (fst r ! a) = dn_instr (g ! a) \<and> dn_cp (fst r ! a) = dn_cp (g ! a) \<and>
       dn_succs (fst r ! a) = dn_succs (g ! a) \<and>
       dn_pcount (fst r ! a) = dn_pcount (g ! a) - (if a \<in> set ss then 1 else 0)) \<and>
    snd r = q @ filter (\<lambda>s. dn_pcount (g ! s) = 1 \<and> schedulable F g s) ss"
  using assms(1,2) unfolding r_def
proof (induction ss rule: rev_induct)
  case (snoc s ss)
  let ?r = "foldl (release F) (g, q) ss"
  obtain h p where r: "?r = (h, p)" by force
  have IH: "length h = length g" "p = q @ filter (\<lambda>s. dn_pcount (g ! s) = 1 \<and> schedulable F g s) ss"
    "\<And>a. a < length g \<Longrightarrow> dn_instr (h ! a) = dn_instr (g ! a) \<and> dn_cp (h ! a) = dn_cp (g ! a) \<and>
       dn_succs (h ! a) = dn_succs (g ! a) \<and> dn_pcount (h ! a) = dn_pcount (g ! a) - (if a \<in> set ss then 1 else 0)"
    using snoc r by auto
  have s: "s < length g" "s \<notin> set ss" using snoc.prems by auto
  let ?h = "h[s := (h ! s)\<lparr>dn_pcount := dn_pcount (h ! s) - 1\<rparr>]"
  have at: "dn_instr (?h ! a) = dn_instr (g ! a) \<and> dn_cp (?h ! a) = dn_cp (g ! a) \<and>
       dn_succs (?h ! a) = dn_succs (g ! a) \<and>
       dn_pcount (?h ! a) = dn_pcount (g ! a) - (if a \<in> set (ss @ [s]) then 1 else 0)" if "a < length g" for a
    using IH(3) [OF that] IH(1) s by (cases "a = s") auto
  have "release F (h, p) s = (?h, q @ filter (\<lambda>s. dn_pcount (g ! s) = 1 \<and> schedulable F g s) (ss @ [s]))"
    using at [OF s(1)] IH(2) by (auto simp: release_def Let_def schedulable_def)
  then show ?case using r at IH(1) by simp
qed simp

text \<open>Pending predecessors when one more node is scheduled.\<close>

lemma card_drop:
  assumes "finite P" "x \<notin> D"
  shows "int (card (P - insert x D)) = int (card (P - D)) - (if x \<in> P then 1 else 0)"
proof (cases "x \<in> P")
  case True
  then have "card (P - D) = Suc (card (P - D - {x}))" using assms by (intro card.remove) auto
  moreover have "P - insert x D = P - D - {x}" by auto
  ultimately show ?thesis using True by simp
next
  case False
  then have "P - insert x D = P - D" by auto
  then show ?thesis using False by simp
qed

lemma card_last: "x \<in> P \<Longrightarrow> x \<notin> D \<Longrightarrow> card (P - D) = 1 \<longleftrightarrow> P \<subseteq> insert x D"
proof
  show "P \<subseteq> insert x D" if "x \<in> P" "x \<notin> D" "card (P - D) = 1"
    using card_1_singletonE [OF that(3)] that(1,2) by (metis DiffI Diff_subset_conv insert_is_Un singletonD subset_refl sup.commute)
  have "P - D = {x}" if "x \<in> P" "x \<notin> D" "P \<subseteq> insert x D" using that by auto
  then show "card (P - D) = 1" if "x \<in> P" "x \<notin> D" "P \<subseteq> insert x D" using that by simp
qed

lemma sched_inv_unscheduled:
  assumes "sched_inv c g0 don st" "best \<notin> set don" "best \<in> preds_of g0 a"
  shows "a \<notin> set don"
proof
  assume "a \<in> set don"
  then obtain us vs where "don = us @ a # vs" by (auto simp: in_set_conv_decomp)
  then have "preds_of g0 a \<subseteq> set us" "set us \<subseteq> set don" using assms(1) by (auto simp: sched_inv_def)
  then show False using assms(2,3) by blast
qed

text \<open>The graph and the queue after the node \<open>best\<close> has released its successors.\<close>

definition released :: "sched_ctx \<Rightarrow> sched_state \<Rightarrow> nat \<Rightarrow> ddg \<times> nat list" where
  "released c st best =
     foldl (release (sc_func c)) (ss_ddg st, remove1 best (ss_queue st)) (dn_succs (ss_ddg st ! best))"

lemma released_graph:
  assumes wf: "wf_ddg g0" and inv: "sched_inv c g0 don st" and best: "best \<in> set (ss_queue st)"
  shows "length (fst (released c st best)) = length g0"
    and "a < length g0 \<Longrightarrow> dn_instr (fst (released c st best) ! a) = dn_instr (g0 ! a) \<and>
       dn_cp (fst (released c st best) ! a) = dn_cp (g0 ! a) \<and> dn_succs (fst (released c st best) ! a) = dn_succs (g0 ! a) \<and>
       dn_pcount (fst (released c st best) ! a) = int (card (preds_of g0 a - set (don @ [best])))"
    and "snd (released c st best) = remove1 best (ss_queue st) @
       filter (\<lambda>a. preds_of g0 a \<subseteq> set (don @ [best]) \<and> schedulable (sc_func c) g0 a) (dn_succs (g0 ! best))"
proof -
  note I = inv [unfolded sched_inv_def] and W = wf_ddg_facts [OF wf]
  let ?g = "ss_ddg st" and ?F = "sc_func c" and ?s = "dn_succs (g0 ! best)"
  have b: "best < length g0" "best \<notin> set don" using I best by auto
  have r: "released c st best = foldl (release ?F) (?g, remove1 best (ss_queue st)) ?s"
    using I b(1) by (simp add: released_def)
  have R: "length (fst (released c st best)) = length ?g \<and>
      (\<forall>a < length ?g. dn_instr (fst (released c st best) ! a) = dn_instr (?g ! a) \<and>
         dn_cp (fst (released c st best) ! a) = dn_cp (?g ! a) \<and> dn_succs (fst (released c st best) ! a) = dn_succs (?g ! a) \<and>
         dn_pcount (fst (released c st best) ! a) = dn_pcount (?g ! a) - (if a \<in> set ?s then 1 else 0)) \<and>
      snd (released c st best) = remove1 best (ss_queue st) @ filter (\<lambda>s. dn_pcount (?g ! s) = 1 \<and> schedulable ?F ?g s) ?s"
    unfolding r by (rule release_fold) (use W(2,4) [OF b(1)] I in simp_all)
  show "length (fst (released c st best)) = length g0" using R I by simp
  have fin: "finite (preds_of g0 a)" for a by (simp add: preds_of_def)
  show "dn_instr (fst (released c st best) ! a) = dn_instr (g0 ! a) \<and>
      dn_cp (fst (released c st best) ! a) = dn_cp (g0 ! a) \<and> dn_succs (fst (released c st best) ! a) = dn_succs (g0 ! a) \<and>
      dn_pcount (fst (released c st best) ! a) = int (card (preds_of g0 a - set (don @ [best])))" if "a < length g0"
    using R I that W(5) [OF b(1) that] card_drop [OF fin b(2), of a] by simp
  have "dn_pcount (?g ! a) = 1 \<and> schedulable ?F ?g a \<longleftrightarrow> preds_of g0 a \<subseteq> set (don @ [best]) \<and> schedulable ?F g0 a"
    if "a \<in> set ?s" for a
  proof -
    have a: "a < length g0" "best \<in> preds_of g0 a" using W(4,5) [OF b(1)] that by auto
    then show ?thesis using I card_last [OF a(2) b(2)] by (auto simp: schedulable_def)
  qed
  then show "snd (released c st best) = remove1 best (ss_queue st) @
      filter (\<lambda>a. preds_of g0 a \<subseteq> set (don @ [best]) \<and> schedulable ?F g0 a) ?s"
    using R by (simp cong: filter_cong)
qed

lemma released_queue:
  assumes wf: "wf_ddg g0" and inv: "sched_inv c g0 don st" and best: "best \<in> set (ss_queue st)"
  shows "distinct (snd (released c st best))"
    and "set (snd (released c st best)) = {a. a < length g0 \<and> a \<notin> set (don @ [best]) \<and>
      preds_of g0 a \<subseteq> set (don @ [best]) \<and> schedulable (sc_func c) g0 a}"
proof -
  note I = inv [unfolded sched_inv_def] and Q = sched_inv_queue [OF inv]
  have b: "best < length g0" "best \<notin> set don" "preds_of g0 best \<subseteq> set don" using Q [of best] best by simp_all
  have dq: "distinct (ss_queue st)" using I by simp
  note W = wf_ddg_facts [OF wf b(1)] and r = released_graph(3) [OF wf inv best] and new = sched_inv_unscheduled [OF inv b(2)]
  have succ: "a \<in> set (dn_succs (g0 ! best)) \<longleftrightarrow> a < length g0 \<and> best \<in> preds_of g0 a" for a
    using W(4,5) by blast
  have queued: "a \<in> set (remove1 best (ss_queue st)) \<longleftrightarrow>
      a \<noteq> best \<and> a < length g0 \<and> a \<notin> set don \<and> preds_of g0 a \<subseteq> set don \<and> schedulable (sc_func c) g0 a" for a
    using dq Q [of a] by auto
  have "set (remove1 best (ss_queue st)) \<inter> set (dn_succs (g0 ! best)) = {}" using queued succ b(2) by blast
  then show "distinct (snd (released c st best))" unfolding r using dq W(2) by auto
  have "a \<in> set (snd (released c st best)) \<longleftrightarrow> a < length g0 \<and> a \<notin> set (don @ [best]) \<and>
      preds_of g0 a \<subseteq> set (don @ [best]) \<and> schedulable (sc_func c) g0 a" for a
    unfolding r set_append set_filter Un_iff mem_Collect_eq queued succ using new [of a] b(2,3) by auto
  then show "set (snd (released c st best)) = {a. a < length g0 \<and> a \<notin> set (don @ [best]) \<and>
      preds_of g0 a \<subseteq> set (don @ [best]) \<and> schedulable (sc_func c) g0 a}" by blast
qed

lemma sched_inv_step:
  assumes wf: "wf_ddg g0" and inv: "sched_inv c g0 don st" and best: "best \<in> set (ss_queue st)"
  shows "sched_inv c g0 (don @ [best]) (sched_step c st best)"
proof -
  note I = inv [unfolded sched_inv_def]
  have b: "best < length g0" "best \<notin> set don" "preds_of g0 best \<subseteq> set don" "schedulable (sc_func c) g0 best"
    using I best by auto
  have order: "preds_of g0 a \<subseteq> set us" if "don @ [best] = us @ a # vs" for us a vs
    using that I b(3) by (cases vs rule: rev_cases) auto
  show ?thesis
    unfolding sched_inv_def sched_step_def Let_def released_def [symmetric]
    using I b released_graph [OF wf inv best] released_queue [OF wf inv best] order by simp
qed

text \<open>The loop returns on every well-formed graph with non-negative critical paths, and whatever
  its steps keep holds at the end, when the queue is empty.\<close>

lemma sched_loop_rule:
  assumes wf: "wf_ddg g0" and cp: "\<forall>a < length g0. 0 \<le> dn_cp (g0 ! a)"
    and step: "\<And>don st n. sched_inv c g0 don st \<Longrightarrow> P don st \<Longrightarrow> n \<in> set (ss_queue st) \<Longrightarrow>
      best_of (\<lambda>n. dn_cp (g0 ! n)) (\<lambda>n. if sc_pressure c
        then pressureDelta (sc_func c) (dn_instr (g0 ! n)) (ss_live st) (sc_index c) (sc_live c) else 0) (ss_queue st) n \<Longrightarrow>
      P (don @ [n]) (sched_step c st n)"
    and inv: "sched_inv c g0 don st" "P don st"
  shows "\<exists>don' st'. sched_loop c st = Some st' \<and> sched_inv c g0 don' st' \<and> P don' st' \<and> ss_queue st' = []"
  using inv
proof (induction "length g0 - length don" arbitrary: don st rule: less_induct)
  case less
  note I = less.prems(1) [unfolded sched_inv_def]
  show ?case
  proof (cases "ss_queue st = []")
    case True
    then show ?thesis using less.prems by (subst sched_loop.simps) auto
  next
    case False
    let ?delta = "\<lambda>g n. if sc_pressure c then pressureDelta (sc_func c) (dn_instr (g ! n)) (ss_live st) (sc_index c) (sc_live c) else 0"
    have "\<forall>n \<in> set (ss_queue st). 0 \<le> dn_cp (ss_ddg st ! n)" using I cp by auto
    then obtain n where n: "pickBest (sc_func c) (ss_ddg st) (ss_queue st) (ss_live st) (sc_index c)
        (sc_live c) (sc_pressure c) = Some n" "best_of (\<lambda>n. dn_cp (ss_ddg st ! n)) (?delta (ss_ddg st)) (ss_queue st) n"
      using pickBest_best [OF False] by metis
    have nq: "n \<in> set (ss_queue st)" by (rule best_of_in [OF n(2)])
    have "\<forall>m \<in> set (ss_queue st). dn_cp (ss_ddg st ! m) = dn_cp (g0 ! m) \<and> ?delta (ss_ddg st) m = ?delta g0 m"
      using I by auto
    then have best: "best_of (\<lambda>n. dn_cp (g0 ! n)) (?delta g0) (ss_queue st) n"
      using n(2) by (rule best_of_cong [THEN iffD1])
    have inv': "sched_inv c g0 (don @ [n]) (sched_step c st n)" by (rule sched_inv_step [OF wf less.prems(1) nq])
    have "distinct (don @ [n])" "set (don @ [n]) \<subseteq> {..<length g0}" using inv' by (auto simp: sched_inv_def)
    then have "length (don @ [n]) \<le> length g0"
      by (metis card_mono distinct_card finite_lessThan card_lessThan)
    then have "length g0 - length (don @ [n]) < length g0 - length don" by simp
    then show ?thesis
      using less.hyps [OF _ inv' step [OF less.prems nq best]] False n(1) by (subst sched_loop.simps) simp
  qed
qed

lemma listSchedule_result:
  assumes wf: "wf_ddg g" and cp: "\<forall>a < length g. 0 \<le> dn_cp (g ! a)"
  obtains don st where "listSchedule c g live peak = Some st" "sched_inv c g don st" "ss_queue st = []"
  using sched_loop_rule [OF wf cp, of c "\<lambda>_ _. True", OF _ sched_inv_init [OF wf]] that
  unfolding listSchedule_def by blast

section \<open>What a schedule guarantees\<close>

lemma precedes_split: "xs = us @ a # vs \<Longrightarrow> b \<in> set us \<Longrightarrow> precedes xs b a"
  by (simp add: precedes_append)

lemma precedes_map: "precedes xs a b \<Longrightarrow> precedes (map f xs) (f a) (f b)"
  by (induction xs) auto

text \<open>On the graph of the instructions \<open>xs\<close>: each instruction is scheduled at most once, with
  everything it depends on before it.\<close>

lemma schedule_sound:
  assumes gr: "graph_of delay dep xs g" and xs: "distinct xs"
    and inv: "sched_inv c g don st"
  shows "distinct (ss_schedule st)" "set (ss_schedule st) \<subseteq> set xs"
    "\<forall>i \<in> set (ss_schedule st). \<not> is_term (sc_func c) i \<and> \<not> is_phi (sc_func c) i"
    "i \<in> set xs \<Longrightarrow> j \<in> set (ss_schedule st) \<Longrightarrow> dep i j \<Longrightarrow> precedes (ss_schedule st) i j"
proof -
  note I = inv [unfolded sched_inv_def]
  have len: "length g = length xs" and nth: "a < length xs \<Longrightarrow> dn_instr (g ! a) = xs ! a" for a
    using gr by (auto simp: graph_of_def)
  have don: "set don \<subseteq> {..<length xs}" "distinct don" using I len by auto
  have sched: "ss_schedule st = map ((!) xs) don" using I nth don by auto
  show "distinct (ss_schedule st)"
    unfolding sched distinct_map using don xs by (auto simp: inj_on_def nth_eq_iff_index_eq subset_iff)
  show "set (ss_schedule st) \<subseteq> set xs" unfolding sched using don by auto
  show "\<forall>i \<in> set (ss_schedule st). \<not> is_term (sc_func c) i \<and> \<not> is_phi (sc_func c) i"
    unfolding sched using I don nth by (auto simp: schedulable_def subset_iff)
  show "precedes (ss_schedule st) i j"
    if i: "i \<in> set xs" and j: "j \<in> set (ss_schedule st)" and dep: "dep i j" for i j
  proof -
    obtain b where b: "b \<in> set don" "xs ! b = j" using j sched by auto
    obtain a where a: "a < length xs" "xs ! a = i" using i by (auto simp: in_set_conv_nth)
    have "ddg_edge g a b" using gr a b dep don by (auto simp: graph_of_def)
    moreover have "wf_ddg g" using gr by (simp add: graph_of_def)
    ultimately have "a \<in> preds_of g b"
      using wf_ddg_facts(5) [of g a b] b don a len by (auto simp: ddg_edge_def)
    moreover obtain us vs where "don = us @ b # vs" using b by (auto simp: in_set_conv_decomp)
    ultimately have "precedes don a b" using I precedes_split by fast
    then show ?thesis unfolding sched using precedes_map [of don a b "(!) xs"] a b by simp
  qed
qed

text \<open>With forward edges and no edge out of an unschedulable node, nothing is left out.\<close>

lemma schedule_complete:
  assumes gr: "graph_of delay dep xs g" and fwd: "forward g" and inv: "sched_inv c g don st"
    and q: "ss_queue st = []" and nophi: "\<forall>i \<in> set xs. \<not> is_phi (sc_func c) i"
    and noout: "\<And>i j. i \<in> set xs \<Longrightarrow> j \<in> set xs \<Longrightarrow> dep i j \<Longrightarrow> \<not> is_term (sc_func c) i"
  shows "set (ss_schedule st) = {i \<in> set xs. \<not> is_term (sc_func c) i}"
proof -
  note I = inv [unfolded sched_inv_def]
  have len: "length g = length xs" and nth: "a < length xs \<Longrightarrow> dn_instr (g ! a) = xs ! a" for a
    using gr by (auto simp: graph_of_def)
  have wf: "wf_ddg g" using gr by (simp add: graph_of_def)
  have sched: "a < length xs \<Longrightarrow> schedulable (sc_func c) g a \<longleftrightarrow> \<not> is_term (sc_func c) (xs ! a)" for a
    using nophi nth by (simp add: schedulable_def)
  have all: "a < length xs \<Longrightarrow> \<not> is_term (sc_func c) (xs ! a) \<Longrightarrow> a \<in> set don" for a
  proof (induction a rule: less_induct)
    case (less a)
    have "p \<in> set don" if p: "p \<in> preds_of g a" for p
    proof -
      have "p < length xs" using wf_ddg_facts(3) [OF wf, of a] p less.prems len by auto
      moreover have "ddg_edge g p a"
        using wf_ddg_facts(5) [OF wf, of p a] p less.prems len calculation by (simp add: ddg_edge_def)
      moreover have "dep (xs ! p) (xs ! a)" "p < a"
        using gr fwd calculation by (auto simp: graph_of_def forward_def)
      ultimately show ?thesis using less noout [of "xs ! p" "xs ! a"] by auto
    qed
    then have "preds_of g a \<subseteq> set don" by blast
    then show ?case using less.prems len sched [of a] sched_inv_queue [OF inv, of a] q by simp
  qed
  have don: "set don \<subseteq> {..<length xs}" "\<forall>a \<in> set don. schedulable (sc_func c) g a" using I len by auto
  then have "ss_schedule st = map ((!) xs) don" using I nth by auto
  then have "set (ss_schedule st) = (!) xs ` set don" by simp
  also have "\<dots> = {i \<in> set xs. \<not> is_term (sc_func c) i}"
  proof (intro equalityI subsetI)
    fix i assume "i \<in> (!) xs ` set don"
    then obtain a where "a \<in> set don" "i = xs ! a" by blast
    then show "i \<in> {i \<in> set xs. \<not> is_term (sc_func c) i}" using don sched [of a] by auto
  next
    fix i assume "i \<in> {i \<in> set xs. \<not> is_term (sc_func c) i}"
    then obtain a where "a < length xs" "i = xs ! a" "\<not> is_term (sc_func c) (xs ! a)"
      by (auto simp: in_set_conv_nth)
    then show "i \<in> (!) xs ` set don" using all by blast
  qed
  finally show ?thesis .
qed

text \<open>Critical-path computation keeps the graph of the instructions.\<close>

lemma graph_of_critical:
  assumes "graph_of delay dep xs g" shows "graph_of delay dep xs (computeCriticalPath g)"
proof -
  note sg = same_graph_critical [of g]
  have "map dn_instr (computeCriticalPath g) = map dn_instr g" "map dn_delay (computeCriticalPath g) = map dn_delay g"
    using sg by (auto simp: same_graph_def intro: nth_equalityI)
  then show ?thesis using assms same_graph_wf [OF sg] same_graph_edge [OF sg] by (simp add: graph_of_def)
qed

lemma forward_critical: "forward g \<Longrightarrow> forward (computeCriticalPath g)"
  using same_graph_edge [OF same_graph_critical] by (simp add: forward_def)

lemma graph_of_cp_nonneg:
  assumes gr: "graph_of delay dep xs g" and d: "\<And>i. 0 \<le> delay i" and z: "\<forall>n < length g. dn_cp (g ! n) = 0"
  shows "\<forall>n < length (computeCriticalPath g). 0 \<le> dn_cp (computeCriticalPath g ! n)"
proof -
  have "\<forall>n < length g. 0 \<le> dn_delay (g ! n)"
    using gr d by (metis graph_of_def length_map nth_map)
  then show ?thesis using critical_nonneg [of g] z same_graph_critical [of g] by (simp add: same_graph_def)
qed

end
