(* ===== verification/SSA.thy ===== *)
theory SSA
  imports CFG
begin

text \<open>
  The SSA property that code motion must not break: in reachable blocks the definition of
  an operand dominates its use, and the definition of a PHI operand dominates the incoming
  block.  Two moves are shown to keep it: permuting a block consistently with its
  definition-use order (phase 1 of \<open>applySchedule\<close>, the local scheduler), and moving an
  instruction to the end of a dominating block where its operands are available (phase 2).
\<close>

text \<open>The instruction of \<open>d\<close> dominates \<open>u\<close>, as \<open>DominatorTree::dominates\<close> defines it for
  instructions.\<close>

definition inst_dominates :: "func \<Rightarrow> iid \<Rightarrow> iid \<Rightarrow> bool" where
  "inst_dominates F d u \<longleftrightarrow> (\<exists>bd \<in> set (f_blocks F). \<exists>bu \<in> set (f_blocks F).
     d \<in> set (f_body F bd) \<and> u \<in> set (f_body F bu) \<and>
     (if bd = bu then precedes (f_body F bu) d u else dominates F bd bu))"

definition ssa_use :: "func \<Rightarrow> iid \<Rightarrow> bool" where
  "ssa_use F u \<longleftrightarrow> (if is_phi F u
     then (\<forall>(v, p) \<in> set (zip (operands F u) (i_incoming (f_inst F u))). \<forall>d. v = Inst d \<longrightarrow>
        (\<exists>bd \<in> set (f_blocks F). d \<in> set (f_body F bd) \<and> dominates F bd p))
     else (\<forall>d. Inst d \<in> set (operands F u) \<longrightarrow> inst_dominates F d u))"

definition ssa :: "func \<Rightarrow> bool" where
  "ssa F \<longleftrightarrow> (\<forall>b \<in> set (f_blocks F). reachable F b \<longrightarrow> (\<forall>u \<in> set (f_body F b). ssa_use F u))"

lemma inst_dominatesI:
  "bd \<in> set (f_blocks F) \<Longrightarrow> bu \<in> set (f_blocks F) \<Longrightarrow> d \<in> set (f_body F bd) \<Longrightarrow> u \<in> set (f_body F bu) \<Longrightarrow>
   (bd = bu \<Longrightarrow> precedes (f_body F bu) d u) \<Longrightarrow> (bd \<noteq> bu \<Longrightarrow> dominates F bd bu) \<Longrightarrow> inst_dominates F d u"
  unfolding inst_dominates_def by (rule bexI [of _ bd], rule bexI [of _ bu]) auto

text \<open>With the position of the use known, only that of the definition is open.\<close>

lemma inst_dominatesE:
  assumes "inst_dominates F d u" "dist_func F" "bu \<in> set (f_blocks F)" "u \<in> set (f_body F bu)"
  obtains bd where "bd \<in> set (f_blocks F)" "d \<in> set (f_body F bd)"
    "bd = bu \<Longrightarrow> precedes (f_body F bu) d u" "bd \<noteq> bu \<Longrightarrow> dominates F bd bu" "dominates F bd bu"
proof -
  from assms(1) obtain bd bu' where *: "bd \<in> set (f_blocks F)" "bu' \<in> set (f_blocks F)"
    "d \<in> set (f_body F bd)" "u \<in> set (f_body F bu')"
    "if bd = bu' then precedes (f_body F bu') d u else dominates F bd bu'"
    unfolding inst_dominates_def by blast
  moreover have "bu' = bu" using dist_same_block [OF assms(2)] assms(3,4) * by blast
  ultimately show thesis using that [of bd] by (cases "bd = bu") auto
qed

lemma ssa_operand:
  "ssa F \<Longrightarrow> b \<in> set (f_blocks F) \<Longrightarrow> reachable F b \<Longrightarrow> u \<in> set (f_body F b) \<Longrightarrow> \<not> is_phi F u \<Longrightarrow>
   Inst d \<in> set (operands F u) \<Longrightarrow> inst_dominates F d u"
  by (auto simp: ssa_def ssa_use_def)

text \<open>A change of positions keeps SSA if blocks of definitions only move up and uses stay
  dominated.\<close>

lemma ssa_transfer:
  assumes s: "ssa F" and fr: "same_frame F G" and same: "set (all_insts G) = set (all_insts F)"
    and up: "\<And>d bd. bd \<in> set (f_blocks F) \<Longrightarrow> d \<in> set (f_body F bd) \<Longrightarrow>
       \<exists>bd' \<in> set (f_blocks F). d \<in> set (f_body G bd') \<and> dominates F bd' bd"
    and phi: "\<And>b u. b \<in> set (f_blocks F) \<Longrightarrow> u \<in> set (f_body G b) \<Longrightarrow> is_phi F u \<Longrightarrow> u \<in> set (f_body F b)"
    and use: "\<And>b u d. b \<in> set (f_blocks F) \<Longrightarrow> reachable F b \<Longrightarrow> u \<in> set (f_body G b) \<Longrightarrow> \<not> is_phi F u \<Longrightarrow>
       Inst d \<in> set (operands F u) \<Longrightarrow> inst_dominates G d u"
  shows "ssa G"
  unfolding ssa_def
proof (intro ballI impI)
  have fb: "f_blocks G = f_blocks F" and fi: "f_inst G = f_inst F"
    using fr by (simp_all add: same_frame_def)
  note q = same_frame_queries [OF fr] reachable_cfg [OF fr] dominates_cfg [OF fr] fb fi
  fix b u assume b: "b \<in> set (f_blocks G)" "reachable G b" and u: "u \<in> set (f_body G b)"
  show "ssa_use G u"
  proof (cases "is_phi F u")
    case False
    then show ?thesis unfolding ssa_use_def q using use b u q by simp
  next
    case True
    then have "u \<in> set (f_body F b)" using phi b u q by simp
    then have use': "ssa_use F u" using s b q by (simp add: ssa_def)
    have "\<exists>bd \<in> set (f_blocks F). d \<in> set (f_body G bd) \<and> dominates F bd p"
      if mem: "(Inst d, p) \<in> set (zip (operands F u) (i_incoming (f_inst F u)))" for d p
    proof -
      obtain bd where bd: "bd \<in> set (f_blocks F)" "d \<in> set (f_body F bd)" "dominates F bd p"
        using use' mem True unfolding ssa_use_def by fastforce
      obtain bd' where bd': "bd' \<in> set (f_blocks F)" "d \<in> set (f_body G bd')" "dominates F bd' bd"
        using up [OF bd(1,2)] by blast
      then show ?thesis using dominates_trans [OF bd'(3) bd(3)] by blast
    qed
    then show ?thesis unfolding ssa_use_def q using True by auto
  qed
qed

text \<open>Permuting a block.\<close>

lemma ssa_permute:
  assumes d: "dist_func F" and s: "ssa F" and b: "b \<in> set (f_blocks F)" and perm: "mset ys = mset (f_body F b)"
    and order: "\<And>d u. precedes (f_body F b) d u \<Longrightarrow> \<not> is_phi F u \<Longrightarrow> Inst d \<in> set (operands F u) \<Longrightarrow> precedes ys d u"
  shows "ssa (set_body F b ys)"
proof -
  let ?G = "set_body F b ys"
  have si: "same_insts F ?G" by (rule same_insts_permute [OF perm])
  then have fr: "same_frame F ?G" by simp
  have sets: "set (f_body ?G c) = set (f_body F c)" for c
    using mset_eq_setD [OF perm] by simp
  show ?thesis
  proof (rule ssa_transfer [OF s fr])
    show "set (all_insts ?G) = set (all_insts F)" using sets by (simp add: set_insts_of)
    fix bu u d assume bu: "bu \<in> set (f_blocks F)" "reachable F bu" and u: "u \<in> set (f_body ?G bu)"
      and ph: "\<not> is_phi F u" and op: "Inst d \<in> set (operands F u)"
    have uF: "u \<in> set (f_body F bu)" using u sets by blast
    obtain bd where bd: "bd \<in> set (f_blocks F)" "d \<in> set (f_body F bd)"
      "bd = bu \<Longrightarrow> precedes (f_body F bu) d u" "bd \<noteq> bu \<Longrightarrow> dominates F bd bu"
      using inst_dominatesE [OF ssa_operand [OF s bu uF ph op] d bu(1) uF] by metis
    have "precedes (f_body ?G bu) d u" if "bd = bu"
      using bd(3) [OF that] order [OF _ ph op] that by auto
    then show "inst_dominates ?G d u"
      using bd u sets bu dominates_cfg [OF fr] by (intro inst_dominatesI [of bd _ bu]) auto
  next
    show "\<exists>bd' \<in> set (f_blocks F). e \<in> set (f_body ?G bd') \<and> dominates F bd' bd"
      if "bd \<in> set (f_blocks F)" "e \<in> set (f_body F bd)" for e bd
      using that sets by (intro bexI [of _ bd]) simp_all
  next
    show "u \<in> set (f_body F c)" if "u \<in> set (f_body ?G c)" for c u
      using that sets by blast
  qed
qed

text \<open>Moving \<open>i\<close> from \<open>b\<close> in front of \<open>p\<close> in another block \<open>c\<close>: what the proofs use of it.\<close>

definition hoisted :: "func \<Rightarrow> func \<Rightarrow> iid \<Rightarrow> bid \<Rightarrow> bid \<Rightarrow> iid \<Rightarrow> bool" where
  "hoisted F G i b c p \<longleftrightarrow> same_frame F G \<and>
     (\<forall>j e. j \<noteq> i \<longrightarrow> (j \<in> set (f_body G e) \<longleftrightarrow> j \<in> set (f_body F e))) \<and>
     (\<forall>j k e. j \<noteq> i \<longrightarrow> k \<noteq> i \<longrightarrow> (precedes (f_body G e) j k \<longleftrightarrow> precedes (f_body F e) j k)) \<and>
     (\<forall>e \<in> set (f_blocks F). (i \<in> set (f_body G e) \<longleftrightarrow> e = c) \<and> (i \<in> set (f_body F e) \<longleftrightarrow> e = b)) \<and>
     (\<forall>d. precedes (f_body F c) d p \<longrightarrow> precedes (f_body G c) d i)"

lemma hoisted_other: "hoisted F G i b c p \<Longrightarrow> j \<noteq> i \<Longrightarrow> j \<in> set (f_body G e) \<longleftrightarrow> j \<in> set (f_body F e)"
  by (simp add: hoisted_def)

lemma hoisted_precedes:
  "hoisted F G i b c p \<Longrightarrow> j \<noteq> i \<Longrightarrow> k \<noteq> i \<Longrightarrow> precedes (f_body G e) j k \<longleftrightarrow> precedes (f_body F e) j k"
  by (simp add: hoisted_def)

lemma hoisted_new: "hoisted F G i b c p \<Longrightarrow> e \<in> set (f_blocks F) \<Longrightarrow> i \<in> set (f_body G e) \<longleftrightarrow> e = c"
  by (simp add: hoisted_def)

lemma hoisted_old: "hoisted F G i b c p \<Longrightarrow> e \<in> set (f_blocks F) \<Longrightarrow> i \<in> set (f_body F e) \<longleftrightarrow> e = b"
  by (simp add: hoisted_def)

lemma hoisted_set_body:
  assumes dist: "dist_func F" and b: "b \<in> set (f_blocks F)" and c: "c \<in> set (f_blocks F)" and ne: "b \<noteq> c"
    and bb: "f_body F b = xs @ i # ys" and bc: "f_body F c = us @ p # vs"
  shows "hoisted F (set_body (set_body F b (xs @ ys)) c (us @ i # p # vs)) i b c p"
proof -
  let ?G = "set_body (set_body F b (xs @ ys)) c (us @ i # p # vs)"
  have db: "distinct (xs @ i # ys)" and dc: "distinct (us @ p # vs)"
    using dist_func_body [OF dist b] dist_func_body [OF dist c] bb bc by simp_all
  have old: "i \<in> set (f_body F e) \<longleftrightarrow> e = b" if e: "e \<in> set (f_blocks F)" for e
    using dist_same_block [OF dist e b] bb by auto
  have new: "i \<in> set (f_body ?G e) \<longleftrightarrow> e = c" if e: "e \<in> set (f_blocks F)" for e
    using old [OF e] db ne by (cases "e = c"; cases "e = b") auto
  have other: "j \<in> set (f_body ?G e) \<longleftrightarrow> j \<in> set (f_body F e)" if "j \<noteq> i" for j e
    using that bb bc ne by (cases "e = b"; cases "e = c") auto
  have order: "precedes (f_body ?G e) j k \<longleftrightarrow> precedes (f_body F e) j k" if "j \<noteq> i" "k \<noteq> i" for j k e
    using that bb bc ne by (cases "e = b"; cases "e = c") (auto simp: precedes_append)
  have front: "precedes (f_body ?G c) d i" if "precedes (f_body F c) d p" for d
    using that bc dc by (auto simp: precedes_append dest: precedes_in)
  show ?thesis unfolding hoisted_def using old new other order front by (simp add: same_frame_def)
qed

lemma hoisted_use_moved:
  assumes h: "hoisted F G i b c p" and dist: "dist_func F" and c: "c \<in> set (f_blocks F)" "p \<in> set (f_body F c)"
    and ne: "b \<noteq> c" "dominates F c b" "reachable F c" and inst: "inst_dominates F d p"
  shows "inst_dominates G d i"
proof -
  have fr: "same_frame F G" and front: "precedes (f_body F c) d p \<Longrightarrow> precedes (f_body G c) d i"
    using h by (simp_all add: hoisted_def)
  have fb: "f_blocks G = f_blocks F" using fr by (simp add: same_frame_def)
  obtain bd where bd: "bd \<in> set (f_blocks F)" "d \<in> set (f_body F bd)"
    "bd = c \<Longrightarrow> precedes (f_body F c) d p" "bd \<noteq> c \<Longrightarrow> dominates F bd c" "dominates F bd c"
    using inst_dominatesE [OF inst dist c] by metis
  have "d \<noteq> i"
  proof
    assume "d = i"
    then have "bd = b" using hoisted_old [OF h bd(1)] bd(2) by simp
    then show False using dominates_antisym [of F b c] bd(5) ne by simp
  qed
  then show ?thesis
    using bd front c hoisted_other [OF h] hoisted_new [OF h c(1)] dominates_cfg [OF fr] fb
    by (intro inst_dominatesI [of bd _ c]) auto
qed

lemma hoisted_use_other:
  assumes h: "hoisted F G i b c p" and dist: "dist_func F" and c: "c \<in> set (f_blocks F)" and ne: "b \<noteq> c" "dominates F c b"
    and u: "bu \<in> set (f_blocks F)" "reachable F bu" "u \<in> set (f_body F bu)" "u \<noteq> i" and inst: "inst_dominates F d u"
  shows "inst_dominates G d u"
proof -
  have fr: "same_frame F G" using h by (simp add: hoisted_def)
  then have fb: "f_blocks G = f_blocks F" by (simp add: same_frame_def)
  have uG: "u \<in> set (f_body G bu)" using hoisted_other [OF h u(4)] u(3) by blast
  obtain bd where bd: "bd \<in> set (f_blocks F)" "d \<in> set (f_body F bd)"
    "bd = bu \<Longrightarrow> precedes (f_body F bu) d u" "bd \<noteq> bu \<Longrightarrow> dominates F bd bu" "dominates F bd bu"
    using inst_dominatesE [OF inst dist u(1,3)] by metis
  show ?thesis
  proof (cases "d = i")
    case True
    then have "bd = b" using hoisted_old [OF h bd(1)] bd(2) by simp
    then have "dominates F c bu \<and> c \<noteq> bu" using cfgdom.hoist_above [of F c b bu] ne bd(5) u(2) by simp
    then show ?thesis using True uG u(1) c hoisted_new [OF h] dominates_cfg [OF fr] fb
      by (intro inst_dominatesI [of c _ bu]) auto
  next
    case False
    then show ?thesis
      using bd uG u(1) hoisted_other [OF h False] hoisted_precedes [OF h False u(4)] dominates_cfg [OF fr] fb
      by (intro inst_dominatesI [of bd _ bu]) auto
  qed
qed

text \<open>Hoisting to a strict dominator at a point that the operands dominate keeps SSA.\<close>

lemma ssa_hoist:
  assumes dist: "dist_func F" and s: "ssa F" and b: "b \<in> set (f_blocks F)" and c: "c \<in> set (f_blocks F)"
    and ne: "b \<noteq> c" and dom: "dominates F c b"
    and bb: "f_body F b = xs @ i # ys" and bc: "f_body F c = us @ p # vs"
    and nphi: "\<not> is_phi F i"
    and ops: "\<And>d. reachable F c \<Longrightarrow> Inst d \<in> set (operands F i) \<Longrightarrow> inst_dominates F d p"
  shows "ssa (set_body (set_body F b (xs @ ys)) c (us @ i # p # vs))"
proof -
  let ?G = "set_body (set_body F b (xs @ ys)) c (us @ i # p # vs)"
  have h: "hoisted F ?G i b c p" by (rule hoisted_set_body [OF dist b c ne bb bc])
  then have fr: "same_frame F ?G" by (simp only: hoisted_def)
  note other = hoisted_other [OF h] and new = hoisted_new [OF h] and old = hoisted_old [OF h]
  have eq: "set (all_insts ?G) = set (all_insts F)"
  proof (rule set_eqI)
    fix j show "j \<in> set (all_insts ?G) \<longleftrightarrow> j \<in> set (all_insts F)"
      using other [of j] new old b c by (cases "j = i") (auto simp: set_insts_of)
  qed
  show ?thesis
  proof (rule ssa_transfer [OF s fr eq])
    show "\<exists>bd' \<in> set (f_blocks F). d \<in> set (f_body ?G bd') \<and> dominates F bd' bd"
      if "bd \<in> set (f_blocks F)" "d \<in> set (f_body F bd)" for d bd
      using that old [of bd] new [of c] other [of d bd] dom c dominates_refl [of F bd] by (cases "d = i") blast+
    show "u \<in> set (f_body F e)" if "u \<in> set (f_body ?G e)" "is_phi F u" for e u
      using that nphi other [of u e] by (cases "u = i") blast+
    show "inst_dominates ?G d u"
      if bu: "bu \<in> set (f_blocks F)" "reachable F bu" and u: "u \<in> set (f_body ?G bu)"
        and ph: "\<not> is_phi F u" and op: "Inst d \<in> set (operands F u)" for bu u d
    proof (cases "u = i")
      case True
      then have "reachable F c" using new [OF bu(1)] u bu(2) by blast
      moreover have "inst_dominates F d p" using ops calculation op True by simp
      ultimately show ?thesis using hoisted_use_moved [OF h dist c _ ne dom] True bc by simp
    next
      case False
      then have uF: "u \<in> set (f_body F bu)" using other u by blast
      show ?thesis
        by (rule hoisted_use_other [OF h dist c ne dom bu uF False ssa_operand [OF s bu uF ph op]])
    qed
  qed
qed

end
