(* ===== verification/Apply_Schedule.thy ===== *)
theory Apply_Schedule
  imports Legality List_Scheduler SSA
begin

text \<open>
  \<open>include/applySchedule.hpp\<close>: the physical movement of a trace's instructions.  Phase 1
  reorders each block inside its anchor-free regions, phase 2 hoists instructions to the
  earliest block of the trace that passes every check.  The LLVM analyses that the checks
  consult (dominator tree, loop info, speculation safety) are a parameter.  The lemmas show
  what both phases preserve: the instructions, the shape of blocks, the anchors, SSA, and
  the bookkeeping of the statistics.
\<close>

section \<open>Queries\<close>

text \<open>\<open>DT.dominates\<close> on blocks and on instructions (which looks at current positions),
  \<open>LI.isLoopHeader\<close>, \<open>LI.getLoopFor\<close>, \<open>isSafeToSpeculativelyExecute\<close>.\<close>

record analyses =
  an_dom :: "bid \<Rightarrow> bid \<Rightarrow> bool"
  an_dom_inst :: "func \<Rightarrow> iid \<Rightarrow> iid \<Rightarrow> bool"
  an_loop_header :: "bid \<Rightarrow> bool"
  an_loop_for :: "bid \<Rightarrow> nat option"
  an_safe :: "func \<Rightarrow> iid \<Rightarrow> iid \<Rightarrow> bool"

text \<open>What LLVM documents of its dominator tree: a positive answer is right, also after
  instructions have moved between blocks.\<close>

definition dom_sound :: "analyses \<Rightarrow> func \<Rightarrow> bool" where
  "dom_sound an F \<longleftrightarrow> (\<forall>a b. an_dom an a b \<longrightarrow> dominates F a b) \<and>
     (\<forall>G d u b. same_insts F G \<longrightarrow> b \<in> set (f_blocks F) \<longrightarrow> u \<in> set (f_body G b) \<longrightarrow> reachable F b \<longrightarrow>
        an_dom_inst an G d u \<longrightarrow> inst_dominates G d u)"

definition isSameLoopOrOuter :: "analyses \<Rightarrow> bid \<Rightarrow> bid \<Rightarrow> bool" where
  "isSameLoopOrOuter an fromBB targetBB =
     (let fromLoop = an_loop_for an fromBB; targetLoop = an_loop_for an targetBB
      in if fromLoop = None \<and> targetLoop = None then True
         else if fromLoop = None \<or> targetLoop = None then False
         else if fromLoop \<noteq> targetLoop then False
         else True)"

text \<open>Despite its name, the function accepts only blocks with the same innermost loop.\<close>

lemma isSameLoopOrOuter_iff: "isSameLoopOrOuter an a b \<longleftrightarrow> an_loop_for an a = an_loop_for an b"
  by (auto simp: isSameLoopOrOuter_def Let_def)

section \<open>Statistics\<close>

record hoist_stats =
  hs_candidates :: nat
  hs_done :: nat
  hs_blockedDominance :: nat
  hs_blockedLoop :: nat
  hs_blockedOperand :: nat
  hs_blockedUnsafe :: nat
  hs_blockedPressure :: nat

definition resetHoistStats :: hoist_stats where
  "resetHoistStats = \<lparr>hs_candidates = 0, hs_done = 0, hs_blockedDominance = 0, hs_blockedLoop = 0,
     hs_blockedOperand = 0, hs_blockedUnsafe = 0, hs_blockedPressure = 0\<rparr>"

datatype block_reason = RNone | RLoop | RDominance | ROperand | RUnsafe | RPressure

text \<open>The enumerators' integer values order the reasons.\<close>

definition reason_rank :: "block_reason \<Rightarrow> nat" where
  "reason_rank r = (case r of RNone \<Rightarrow> 0 | RLoop \<Rightarrow> 1 | RDominance \<Rightarrow> 2 | ROperand \<Rightarrow> 3
     | RUnsafe \<Rightarrow> 4 | RPressure \<Rightarrow> 5)"

instantiation block_reason :: linorder
begin

definition less_eq_block_reason :: "block_reason \<Rightarrow> block_reason \<Rightarrow> bool" where
  "less_eq_block_reason r s \<longleftrightarrow> reason_rank r \<le> reason_rank s"

definition less_block_reason :: "block_reason \<Rightarrow> block_reason \<Rightarrow> bool" where
  "less_block_reason r s \<longleftrightarrow> reason_rank r < reason_rank s"

instance
  by standard (auto simp: less_eq_block_reason_def less_block_reason_def reason_rank_def
      split: block_reason.splits)

end

definition noteReason :: "bool \<Rightarrow> block_reason \<Rightarrow> block_reason \<Rightarrow> block_reason" where
  "noteReason statsOn best r = (if \<not> statsOn then best else if r > best then r else best)"

definition count_reason :: "block_reason \<Rightarrow> hoist_stats \<Rightarrow> hoist_stats" where
  "count_reason r st = (case r of
       RLoop \<Rightarrow> st\<lparr>hs_blockedLoop := hs_blockedLoop st + 1\<rparr>
     | RDominance \<Rightarrow> st\<lparr>hs_blockedDominance := hs_blockedDominance st + 1\<rparr>
     | ROperand \<Rightarrow> st\<lparr>hs_blockedOperand := hs_blockedOperand st + 1\<rparr>
     | RUnsafe \<Rightarrow> st\<lparr>hs_blockedUnsafe := hs_blockedUnsafe st + 1\<rparr>
     | RPressure \<Rightarrow> st\<lparr>hs_blockedPressure := hs_blockedPressure st + 1\<rparr>
     | RNone \<Rightarrow> st)"

section \<open>Hoisting one instruction\<close>

text \<open>Fixed inputs of one call of \<open>applySchedule\<close>.\<close>

record hoist_ctx =
  hc_an :: analyses
  hc_trace :: "bid list"
  hc_index :: "val \<Rightarrow> nat option"
  hc_live :: live_map
  hc_pressure :: bool          \<comment> \<open>\<open>usePressure\<close>\<close>
  hc_budget :: int             \<comment> \<open>\<open>getPressureBudget()\<close>\<close>
  hc_stats :: bool             \<comment> \<open>\<open>schedStatsEnabled()\<close>\<close>

type_synonym dyn_live = "bid \<Rightarrow> bitvec option"

abbreviation dyn_at :: "dyn_live \<Rightarrow> bid \<Rightarrow> bitvec" where
  "dyn_at dyn b \<equiv> dm_get [] dyn b"

definition trace_pos :: "bid list \<Rightarrow> (bid \<Rightarrow> nat option)" where
  "trace_pos trace = foldl (\<lambda>m i. m(trace ! i \<mapsto> i)) Map.empty [0..<length trace]"

definition original_block :: "func \<Rightarrow> bid list \<Rightarrow> (iid \<Rightarrow> bid option)" where
  "original_block F trace = foldl (\<lambda>m b. foldl (\<lambda>m i. m(i \<mapsto> b)) m (f_body F b)) Map.empty trace"

definition operands_available :: "analyses \<Rightarrow> func \<Rightarrow> iid \<Rightarrow> iid \<Rightarrow> bool" where
  "operands_available an F i insertPoint =
     list_all (\<lambda>v. case v of Inst def \<Rightarrow> an_dom_inst an F def insertPoint | _ \<Rightarrow> True) (operands F i)"

text \<open>The checks of one attempt, in the order of the code; \<open>None\<close> when all are passed.\<close>

definition attempt :: "hoist_ctx \<Rightarrow> func \<Rightarrow> dyn_live \<Rightarrow> iid \<Rightarrow> bid \<Rightarrow> bid \<Rightarrow> block_reason option" where
  "attempt c F dyn i origBB targetBB =
     (if an_loop_header (hc_an c) targetBB then Some RLoop
      else if \<not> isSameLoopOrOuter (hc_an c) origBB targetBB then Some RLoop
      else if \<not> an_dom (hc_an c) targetBB origBB then Some RDominance
      else (case terminator F targetBB of None \<Rightarrow> Some RUnsafe
        | Some insertPoint \<Rightarrow>
           (if \<not> operands_available (hc_an c) F i insertPoint then Some ROperand
            else if \<not> an_safe (hc_an c) F i insertPoint then Some RUnsafe
            else if hc_pressure c \<and>
                int (bv_count (dyn_at dyn targetBB)) + pressureDelta F i (dyn_at dyn targetBB) (hc_index c) (hc_live c)
                  > hc_budget c
            then Some RPressure
            else None)))"

text \<open>\<open>moveBefore\<close> the target's terminator, and add the result to the target's live set.\<close>

definition do_hoist :: "hoist_ctx \<Rightarrow> func \<Rightarrow> dyn_live \<Rightarrow> iid \<Rightarrow> bid \<Rightarrow> func \<times> dyn_live" where
  "do_hoist c F dyn i targetBB =
     ((case terminator F targetBB of None \<Rightarrow> F | Some p \<Rightarrow> move_before F i p),
      (if \<not> is_void F i
       then (case hc_index c (Inst i) of None \<Rightarrow> dyn
             | Some idx \<Rightarrow> dyn(targetBB \<mapsto> bv_set (dyn_at dyn targetBB) idx))
       else dyn))"

text \<open>The loop over the targets; the result tells whether \<open>i\<close> moved.\<close>

primrec try_targets :: "hoist_ctx \<Rightarrow> func \<Rightarrow> dyn_live \<Rightarrow> iid \<Rightarrow> bid \<Rightarrow> block_reason \<Rightarrow> nat list \<Rightarrow>
    func \<times> dyn_live \<times> block_reason \<times> bool" where
  "try_targets c F dyn i origBB best [] = (F, dyn, best, False)"
| "try_targets c F dyn i origBB best (t # ts) =
     (case attempt c F dyn i origBB (hc_trace c ! t) of
        Some r \<Rightarrow> try_targets c F dyn i origBB (noteReason (hc_stats c) best r) ts
      | None \<Rightarrow> (case do_hoist c F dyn i (hc_trace c ! t) of (G, dyn') \<Rightarrow> (G, dyn', best, True)))"

type_synonym hoist_state = "func \<times> dyn_live \<times> hoist_stats"

definition hoist_step :: "hoist_ctx \<Rightarrow> (iid \<Rightarrow> bid option) \<Rightarrow> hoist_state \<Rightarrow> iid \<Rightarrow> hoist_state" where
  "hoist_step c origMap s i = (case s of (F, dyn, st) \<Rightarrow>
     (case (case origMap i of Some b \<Rightarrow> Some b | None \<Rightarrow> parent F i) of
        None \<Rightarrow> (F, dyn, st)
      | Some origBB \<Rightarrow>
         (case trace_pos (hc_trace c) origBB of
            None \<Rightarrow> (F, dyn, st)
          | Some origIdx \<Rightarrow>
             (let isCandidate = hc_stats c \<and> origIdx > 0;
                  st1 = (if isCandidate then st\<lparr>hs_candidates := hs_candidates st + 1\<rparr> else st)
              in if isSchedulingAnchor F i
                 then (F, dyn, if isCandidate then st1\<lparr>hs_blockedUnsafe := hs_blockedUnsafe st1 + 1\<rparr> else st1)
                 else (case try_targets c F dyn i origBB RNone [0..<origIdx] of (G, dyn', best, moved) \<Rightarrow>
                    (G, dyn',
                     if isCandidate \<and> moved then st1\<lparr>hs_done := hs_done st1 + 1\<rparr>
                     else if isCandidate \<and> \<not> moved then count_reason best st1
                     else st1))))))"

section \<open>applySchedule\<close>

definition phase1 :: "iid list \<Rightarrow> bid list \<Rightarrow> func \<Rightarrow> func" where
  "phase1 schedule trace F = foldl (reorderBlockWithinRegions schedule) F trace"

definition dyn_init :: "live_map \<Rightarrow> bid list \<Rightarrow> dyn_live" where
  "dyn_init live trace = foldl (\<lambda>m b. m(b \<mapsto> l_in (live_at live b))) Map.empty trace"

definition phase2 :: "hoist_ctx \<Rightarrow> (iid \<Rightarrow> bid option) \<Rightarrow> iid list \<Rightarrow> hoist_state \<Rightarrow> hoist_state" where
  "phase2 c origMap schedule s = foldl (hoist_step c origMap) s schedule"

definition applySchedule :: "hoist_ctx \<Rightarrow> iid list \<Rightarrow> func \<Rightarrow> hoist_stats \<Rightarrow> func \<times> hoist_stats" where
  "applySchedule c schedule F st =
     (case phase2 c (original_block F (hc_trace c)) schedule
             (phase1 schedule (hc_trace c) F, dyn_init (hc_live c) (hc_trace c), st) of
        (G, dyn, st') \<Rightarrow> (G, st'))"

section \<open>Phase 1\<close>

text \<open>A schedule respects the definition-use order of the instructions it lists.\<close>

definition order_ok :: "func \<Rightarrow> iid list \<Rightarrow> bool" where
  "order_ok F schedule \<longleftrightarrow> distinct schedule \<and> (\<forall>d \<in> set schedule. \<forall>u \<in> set schedule.
     \<not> is_phi F u \<longrightarrow> Inst d \<in> set (operands F u) \<longrightarrow> precedes schedule d u)"

lemma order_ok_frame: "same_frame F G \<Longrightarrow> order_ok G schedule = order_ok F schedule"
  by (simp add: order_ok_def same_frame_queries)

lemma ssa_reorder:
  assumes d: "dist_func F" and b: "b \<in> set (f_blocks F)" and s: "ssa F" and r: "order_ok F schedule"
  shows "ssa (reorderBlockWithinRegions schedule F b)"
  unfolding reorderBlock_body [OF d b]
proof (rule ssa_permute [OF d s b])
  have db: "distinct (f_body F b)" by (rule dist_func_body [OF d b])
  then show "mset (reorder_spec F schedule [] (f_body F b)) = mset (f_body F b)"
    using mset_reorder_spec [of "[]"] by simp
  show "precedes (reorder_spec F schedule [] (f_body F b)) i u"
    if "precedes (f_body F b) i u" "\<not> is_phi F u" "Inst i \<in> set (operands F u)" for i u
    using reorder_spec_precedes [of "[]" "f_body F b" schedule i u F] db that r
    by (simp add: order_ok_def)
qed

text \<open>An invariant of one block's reordering is an invariant of phase 1.\<close>

lemma phase1_invariant:
  assumes "set trace \<subseteq> set (f_blocks F)" "dist_func F" "P F"
    and "\<And>G b. same_insts F G \<Longrightarrow> b \<in> set trace \<Longrightarrow> P G \<Longrightarrow> P (reorderBlockWithinRegions schedule G b)"
  shows "P (phase1 schedule trace F) \<and> same_insts F (phase1 schedule trace F)"
proof -
  have "P (foldl (reorderBlockWithinRegions schedule) G bs) \<and>
      same_insts F (foldl (reorderBlockWithinRegions schedule) G bs)"
    if "P G" "same_insts F G" "set bs \<subseteq> set trace" for bs G
    using that
  proof (induction bs arbitrary: G)
    case (Cons b bs)
    have "b \<in> set (f_blocks G)" using Cons.prems(2,3) assms(1)
      by (auto simp: same_insts_def same_frame_def)
    then have "same_insts G (reorderBlockWithinRegions schedule G b)"
      by (intro reorderBlock_same_insts same_insts_dist [OF Cons.prems(2) assms(2)])
    then have "same_insts F (reorderBlockWithinRegions schedule G b)"
      by (rule same_insts_trans [OF Cons.prems(2)])
    moreover have "P (reorderBlockWithinRegions schedule G b)"
      by (rule assms(4) [OF Cons.prems(2) _ Cons.prems(1)]) (use Cons.prems(3) in simp)
    ultimately show ?case
      using Cons.IH [of "reorderBlockWithinRegions schedule G b"] Cons.prems(3) by simp
  qed simp
  then show ?thesis using assms(3) unfolding phase1_def by simp
qed

lemma reorder_other [simp]:
  "dist_func F \<Longrightarrow> b \<in> set (f_blocks F) \<Longrightarrow> c \<noteq> b \<Longrightarrow>
   f_body (reorderBlockWithinRegions schedule F b) c = f_body F c"
  by (simp add: reorderBlock_body)

lemma reorder_anchors:
  assumes "dist_func F" "b \<in> set (f_blocks F)" "k < length (f_body F c)" "isSchedulingAnchor F (f_body F c ! k)"
  shows "f_body (reorderBlockWithinRegions schedule F b) c ! k = f_body F c ! k"
  using reorder_spec_anchor [of "[]" F k "f_body F c" schedule] assms
  by (cases "c = b") (simp_all add: reorderBlock_body)

lemma filter_eq_by_positions:
  assumes "length ys = length xs" "\<And>k. k < length xs \<Longrightarrow> P (xs ! k) \<Longrightarrow> ys ! k = xs ! k"
    and "\<And>k. k < length xs \<Longrightarrow> P (ys ! k) \<Longrightarrow> ys ! k = xs ! k"
  shows "filter P ys = filter P xs"
  using assms
proof (induction ys xs rule: list_induct2)
  case (Cons y ys x xs)
  have "ys ! k = xs ! k" if "k < length xs" "P (xs ! k) \<or> P (ys ! k)" for k
    using Cons.prems(1) [of "Suc k"] Cons.prems(2) [of "Suc k"] that
    by (simp only: nth_Cons_Suc length_Cons Suc_less_eq) blast
  then have tl: "filter P ys = filter P xs" using Cons.IH by simp
  have "y = x" if "P x \<or> P y" using Cons.prems(1) [of 0] Cons.prems(2) [of 0] that by auto
  then show ?case using tl by auto
qed simp

lemma reorder_spec_filter:
  assumes "distinct xs"
  shows "filter (isSchedulingAnchor F) (reorder_spec F schedule [] xs) = filter (isSchedulingAnchor F) xs"
proof (rule filter_eq_by_positions)
  let ?ys = "reorder_spec F schedule [] xs"
  have m: "mset ?ys = mset xs" using mset_reorder_spec [of "[]" xs] assms by simp
  then have dy: "distinct ?ys" using assms mset_eq_imp_distinct_iff by metis
  have keep: "?ys ! k = xs ! k" if "k < length xs" "isSchedulingAnchor F (xs ! k)" for k
    using reorder_spec_anchor [of "[]" F k xs schedule] that by simp
  then show "k < length xs \<Longrightarrow> isSchedulingAnchor F (xs ! k) \<Longrightarrow> ?ys ! k = xs ! k" for k .
  show "k < length xs \<Longrightarrow> isSchedulingAnchor F (?ys ! k) \<Longrightarrow> ?ys ! k = xs ! k" for k
    using anchor_positions [where P = "isSchedulingAnchor F", OF dy m keep] by simp
qed simp

text \<open>Everything phase 1 keeps of one function.\<close>

definition block_view :: "func \<Rightarrow> bid \<Rightarrow> iid multiset \<times> iid list" where
  "block_view F b = (mset (f_body F b), filter (isSchedulingAnchor F) (f_body F b))"

lemma reorder_block_view:
  assumes "dist_func F" "b \<in> set (f_blocks F)"
  shows "block_view (reorderBlockWithinRegions schedule F b) = block_view F"
proof
  fix c
  have a: "isSchedulingAnchor (reorderBlockWithinRegions schedule F b) = isSchedulingAnchor F"
    by (rule anchor_frame) (simp add: reorderBlock_body [OF assms])
  show "block_view (reorderBlockWithinRegions schedule F b) c = block_view F c"
    using mset_reorder_spec [of "[]" "f_body F b"] reorder_spec_filter dist_func_body [OF assms]
    unfolding block_view_def a by (cases "c = b") (simp_all add: reorderBlock_body [OF assms])
qed

lemma phase1_keeps:
  assumes t: "set trace \<subseteq> set (f_blocks F)" and d: "dist_func F"
  shows "same_insts F (phase1 schedule trace F)" "block_view (phase1 schedule trace F) = block_view F"
    "(\<forall>b \<in> set (f_blocks F). wf_block F b) \<Longrightarrow> \<forall>b \<in> set (f_blocks F). wf_block (phase1 schedule trace F) b"
    "ssa F \<Longrightarrow> order_ok F schedule \<Longrightarrow> ssa (phase1 schedule trace F)"
proof -
  note facts = same_insts_dist [OF _ d]
  have blk: "b \<in> set (f_blocks G)" if "same_insts F G" "b \<in> set trace" for G b
    using that t by (auto simp: same_insts_def same_frame_def)
  show "same_insts F (phase1 schedule trace F)" "block_view (phase1 schedule trace F) = block_view F"
    using phase1_invariant [OF t d, where P = "\<lambda>G. block_view G = block_view F"]
    by (simp_all add: reorder_block_view blk facts)
  show "\<forall>b \<in> set (f_blocks F). wf_block (phase1 schedule trace F) b"
    if w: "\<forall>b \<in> set (f_blocks F). wf_block F b"
  proof -
    have "wf_block (reorderBlockWithinRegions schedule G b) c"
      if g: "same_insts F G" "b \<in> set trace" "\<forall>b \<in> set (f_blocks F). wf_block G b" "c \<in> set (f_blocks F)" for G b c
    proof -
      have "wf_block G b" "wf_block G c" using g t by auto
      then show ?thesis
        using wf_block_reorder [of G b "reorderBlockWithinRegions schedule G b" schedule]
          dist_func_body [OF facts [OF g(1)] blk [OF g(1,2)]] facts [OF g(1)] blk [OF g(1,2)]
        by (cases "c = b") (simp_all add: reorderBlock_body wf_block_def is_phi_def is_term_def)
    qed
    then show ?thesis
      using phase1_invariant [OF t d, where P = "\<lambda>G. \<forall>b \<in> set (f_blocks F). wf_block G b"] w by blast
  qed
  show "ssa (phase1 schedule trace F)" if "ssa F" "order_ok F schedule"
  proof -
    have "ssa (reorderBlockWithinRegions schedule G b)" if g: "same_insts F G" "b \<in> set trace" "ssa G" for G b
    proof (rule ssa_reorder [OF facts [OF g(1)] blk [OF g(1,2)] g(3)])
      have "same_frame F G" using g(1) by (simp add: same_insts_def)
      then show "order_ok G schedule" using \<open>order_ok F schedule\<close> order_ok_frame by blast
    qed
    then show ?thesis using phase1_invariant [OF t d, where P = ssa] \<open>ssa F\<close> by blast
  qed
qed

end
