(* ===== verification/Hoisting.thy ===== *)
theory Hoisting
  imports Apply_Schedule
begin

text \<open>
  Phase 2 of \<open>applySchedule\<close> as a state machine: the step relation \<open>hoists\<close> moves one
  instruction from its original block to the end of an earlier, dominating block of the
  trace.  Rule induction gives the invariants of every reachable function, and the loop of
  the code is shown to take only such steps.
\<close>

section \<open>The step relation\<close>

text \<open>What the checks establish of a move of \<open>i\<close> from \<open>b\<close> in front of the terminator
  \<open>p\<close> of \<open>t\<close>.\<close>

definition legal_hoist :: "analyses \<Rightarrow> bid list \<Rightarrow> func \<Rightarrow> iid \<Rightarrow> bid \<Rightarrow> bid \<Rightarrow> iid \<Rightarrow> bool" where
  "legal_hoist an trace G i b t p \<longleftrightarrow> \<not> isSchedulingAnchor G i \<and> precedes trace t b \<and>
     \<not> an_loop_header an t \<and> isSameLoopOrOuter an b t \<and> an_dom an t b \<and>
     operands_available an G i p \<and> an_safe an G i p"

inductive hoists :: "analyses \<Rightarrow> bid list \<Rightarrow> func \<Rightarrow> func \<Rightarrow> bool" for an trace F where
  hoists_refl: "hoists an trace F F"
| hoists_move: "hoists an trace F G \<Longrightarrow> legal_hoist an trace G i b t p \<Longrightarrow> i \<in> set (f_body F b) \<Longrightarrow>
     f_body G b = xs @ i # ys \<Longrightarrow> f_body G t = us @ [p] \<Longrightarrow> is_term G p \<Longrightarrow>
     hoists an trace F (set_body (set_body G b (xs @ ys)) t (us @ [i, p]))"

inductive_cases hoistsE: "hoists an trace F G"

section \<open>Invariants\<close>

lemma same_insts_move:
  assumes "b \<in> set (f_blocks F)" "t \<in> set (f_blocks F)" "b \<noteq> t" "distinct (f_blocks F)"
    and "f_body F b = xs @ i # ys" "f_body F t = us @ [p]"
  shows "same_insts F (set_body (set_body F b (xs @ ys)) t (us @ [i, p]))" (is "same_insts F ?G")
proof -
  have other: "mset (insts_of ?G bs) = mset (insts_of F bs)" if "b \<notin> set bs" "t \<notin> set bs" for bs
    using that by (induction bs) auto
  have "mset (insts_of ?G bs) + (if t \<in> set bs then {#} else {#i#}) =
      mset (insts_of F bs) + (if b \<in> set bs then {#} else {#i#})" if "distinct bs" for bs
    using that by (induction bs) (use assms(3,5,6) other in auto)
  from this [OF assms(4)] show ?thesis using assms(1,2) by (simp add: same_insts_def same_frame_def)
qed

lemma legal_hoist_blocks:
  "legal_hoist an trace G i b t p \<Longrightarrow> distinct trace \<Longrightarrow> t \<in> set trace \<and> b \<in> set trace \<and> b \<noteq> t"
  unfolding legal_hoist_def using precedes_in precedes_irrefl by metis

lemma hoists_same_insts:
  assumes "hoists an trace F G" "dist_func F" "distinct trace" "set trace \<subseteq> set (f_blocks F)"
  shows "same_insts F G"
  using assms(1)
proof (induction rule: hoists.induct)
  case (hoists_move G i b t p xs ys us)
  have "f_blocks G = f_blocks F" using hoists_move.IH by (simp add: same_insts_def same_frame_def)
  then have "same_insts G (set_body (set_body G b (xs @ ys)) t (us @ [i, p]))"
    using legal_hoist_blocks [OF hoists_move.hyps(2) assms(3)] assms(2,4) hoists_move.hyps(4,5)
    by (intro same_insts_move) (auto simp: dist_func_def)
  then show ?case by (rule same_insts_trans [OF hoists_move.IH])
qed simp

text \<open>A property of single moves that composes is a property of every reachable function.\<close>

lemma hoists_frame:
  assumes "hoists an trace F G" shows "f_inst G = f_inst F" "f_blocks G = f_blocks F"
  using assms by (induction rule: hoists.induct) simp_all

lemma hoists_anchors:
  assumes "hoists an trace F G" "distinct trace"
  shows "filter (isSchedulingAnchor F) (f_body G c) = filter (isSchedulingAnchor F) (f_body F c)"
  using assms(1)
proof (induction rule: hoists.induct)
  case (hoists_move G i b t p xs ys us)
  have "\<not> isSchedulingAnchor F i" using hoists_move.hyps(2) anchor_frame [OF hoists_frame(1) [OF hoists_move.hyps(1)]]
    by (simp add: legal_hoist_def)
  moreover have "b \<noteq> t" using legal_hoist_blocks [OF hoists_move.hyps(2) assms(2)] by simp
  ultimately show ?case using hoists_move.hyps(4,5) hoists_move.IH by (cases "c = b"; cases "c = t") simp_all
qed simp

text \<open>The shape of blocks under the removal and the insertion of an ordinary instruction.\<close>

lemma wf_block_remove:
  assumes "wf_block F b" "f_body F b = xs @ i # ys" "\<not> is_term F i"
    and "f_inst G = f_inst F" "f_body G b = xs @ ys"
  shows "wf_block G b"
proof -
  have q: "is_phi G = is_phi F" "is_term G = is_term F"
    using assms(4) by (auto simp: is_phi_def is_term_def fun_eq_iff)
  have "ys \<noteq> []" using assms(1-3) by (auto simp: wf_block_alt)
  then show ?thesis using assms(1,2) unfolding wf_block_alt q assms(5)
    by (auto simp: butlast_append sorted_wrt_append)
qed

lemma wf_block_insert:
  assumes "wf_block F b" "f_body F b = us @ [p]" "\<not> is_term F i" "\<not> is_phi F i"
    and "f_inst G = f_inst F" "f_body G b = us @ [i, p]"
  shows "wf_block G b"
proof -
  have q: "is_phi G = is_phi F" "is_term G = is_term F"
    using assms(5) by (auto simp: is_phi_def is_term_def fun_eq_iff)
  show ?thesis using assms(1-4) unfolding wf_block_alt q assms(6)
    by (auto simp: butlast_append sorted_wrt_append)
qed

lemma hoists_wf_block:
  assumes "hoists an trace F G" "distinct trace" "\<forall>c \<in> set (f_blocks F). wf_block F c" "set trace \<subseteq> set (f_blocks F)"
  shows "\<forall>c \<in> set (f_blocks F). wf_block G c"
  using assms(1)
proof (induction rule: hoists.induct)
  case (hoists_move G i b t p xs ys us)
  have i: "\<not> is_term G i" "\<not> is_phi G i" using hoists_move.hyps(2)
    by (simp_all add: legal_hoist_def isSchedulingAnchor_def)
  have bt: "b \<in> set (f_blocks F)" "t \<in> set (f_blocks F)" "b \<noteq> t"
    using legal_hoist_blocks [OF hoists_move.hyps(2) assms(2)] assms(4) by auto
  let ?H = "set_body (set_body G b (xs @ ys)) t (us @ [i, p])"
  show ?case
  proof
    fix c assume c: "c \<in> set (f_blocks F)"
    have w: "wf_block G c" using hoists_move.IH c by blast
    consider "c = b" | "c = t" | "c \<noteq> b" "c \<noteq> t" by blast
    then show "wf_block ?H c"
    proof cases
      case 1
      then show ?thesis using wf_block_remove [OF w, of xs i ys ?H] hoists_move.hyps(4) i bt by simp
    next
      case 2
      then show ?thesis using wf_block_insert [OF w, of us p i ?H] hoists_move.hyps(5) i by simp
    next
      case 3
      then show ?thesis using w by (simp add: wf_block_def is_phi_def is_term_def)
    qed
  qed
qed (rule assms(3))

text \<open>Where an instruction can end up.\<close>

lemma hoists_positions:
  assumes "hoists an trace F G" "dist_func F" "distinct trace" "set trace \<subseteq> set (f_blocks F)"
    and "b \<in> set (f_blocks F)" "i \<in> set (f_body F b)" "t \<in> set (f_blocks F)" "i \<in> set (f_body G t)"
  shows "t = b \<or> (\<not> isSchedulingAnchor F i \<and> precedes trace t b \<and> \<not> an_loop_header an t \<and>
    isSameLoopOrOuter an b t \<and> an_dom an t b)"
  using assms(1,7,8)
proof (induction arbitrary: t rule: hoists.induct)
  case hoists_refl
  then show ?case using dist_same_block [OF assms(2)] assms(5,6) by blast
next
  case (hoists_move G i0 b0 t0 p xs ys us)
  have bt: "b0 \<in> set (f_blocks F)" "b0 \<noteq> t0"
    using legal_hoist_blocks [OF hoists_move.hyps(2) assms(3)] assms(4) by auto
  have dG: "dist_func G"
    using same_insts_dist [OF hoists_same_insts [OF hoists_move.hyps(1) assms(2-4)] assms(2)] .
  have fb: "f_blocks G = f_blocks F" using hoists_frame(2) [OF hoists_move.hyps(1)] .
  show ?case
  proof (cases "i = i0")
    case False
    then have "i \<in> set (f_body G t)"
      using hoists_move.prems(2) hoists_move.hyps(4,5) bt by (cases "t = b0"; cases "t = t0") auto
    then show ?thesis using hoists_move.IH hoists_move.prems(1) by blast
  next
    case True
    have "b = b0" using dist_same_block [OF assms(2) assms(5) bt(1) assms(6)] hoists_move.hyps(3) True by blast
    moreover have "t = t0"
    proof (rule ccontr)
      assume ne: "t \<noteq> t0"
      have i0: "i0 \<in> set (f_body G b0)" using hoists_move.hyps(4) by simp
      show False
      proof (cases "t = b0")
        case True
        then show False using hoists_move.prems(2) ne \<open>i = i0\<close> dist_func_body [OF dG] hoists_move.hyps(4) bt(1) fb
          by fastforce
      next
        case False
        then have "i0 \<in> set (f_body G t)" using hoists_move.prems(2) ne \<open>i = i0\<close> by simp
        then show False using dist_same_block [OF dG] hoists_move.prems(1) bt(1) fb i0 False by metis
      qed
    qed
    ultimately show ?thesis using hoists_move.hyps(2) True anchor_frame [OF hoists_frame(1) [OF hoists_move.hyps(1)]]
      by (simp add: legal_hoist_def)
  qed
qed

lemma operands_available_Inst:
  "operands_available an F i p \<Longrightarrow> Inst d \<in> set (operands F i) \<Longrightarrow> an_dom_inst an F d p"
  by (force simp: operands_available_def list_all_iff)

lemma hoists_ssa:
  assumes "hoists an trace F G" "dist_func F" "distinct trace" "set trace \<subseteq> set (f_blocks F)"
    and sound: "dom_sound an F" and "ssa F"
  shows "ssa G"
  using assms(1)
proof (induction rule: hoists.induct)
  case (hoists_move G i b t p xs ys us)
  have si: "same_insts F G" by (rule hoists_same_insts [OF hoists_move.hyps(1) assms(2-4)])
  then have fr: "same_frame F G" by (simp add: same_insts_def)
  have bt: "b \<in> set (f_blocks F)" "t \<in> set (f_blocks F)" "b \<noteq> t"
    using legal_hoist_blocks [OF hoists_move.hyps(2) assms(3)] assms(4) by auto
  have fb: "f_blocks G = f_blocks F" using hoists_frame(2) [OF hoists_move.hyps(1)] .
  have "dominates G t b" using hoists_move.hyps(2) sound dominates_cfg [OF fr]
    by (simp add: legal_hoist_def dom_sound_def)
  moreover have "inst_dominates G d p" if "reachable G t" "Inst d \<in> set (operands G i)" for d
  proof -
    have "an_dom_inst an G d p" using hoists_move.hyps(2) that(2) unfolding legal_hoist_def
      by (blast intro: operands_available_Inst)
    then show ?thesis using sound si bt(2) that(1) reachable_cfg [OF fr] hoists_move.hyps(5)
      unfolding dom_sound_def by auto
  qed
  moreover have "\<not> is_phi G i" using hoists_move.hyps(2) by (simp add: legal_hoist_def isSchedulingAnchor_def)
  ultimately show ?case
    using ssa_hoist [OF same_insts_dist [OF si assms(2)] hoists_move.IH, of b t xs i ys us p "[]"]
      bt fb hoists_move.hyps(4,5) by simp
qed (rule assms(6))

section \<open>The loop takes only such steps\<close>

lemma terminator_Some:
  assumes "terminator F t = Some p" obtains us where "f_body F t = us @ [p]" "is_term F p"
  using assms that [of "butlast (f_body F t)"] by (auto simp: terminator_def split: if_splits)

lemma attempt_None:
  assumes "attempt c F dyn i b t = None"
  obtains p where "terminator F t = Some p" "\<not> an_loop_header (hc_an c) t" "isSameLoopOrOuter (hc_an c) b t"
    "an_dom (hc_an c) t b" "operands_available (hc_an c) F i p" "an_safe (hc_an c) F i p"
    "hc_pressure c \<Longrightarrow> int (bv_count (dyn_at dyn t)) + pressureDelta F i (dyn_at dyn t) (hc_index c) (hc_live c) \<le> hc_budget c"
  using assms by (auto simp: attempt_def split: if_splits option.splits)

text \<open>The first target whose attempt succeeds is taken, and only that one.\<close>

lemma try_targets_find:
  "try_targets c F dyn i b best ts =
     (case find (\<lambda>t. attempt c F dyn i b (hc_trace c ! t) = None) ts of
        None \<Rightarrow> (F, dyn, foldl (noteReason (hc_stats c)) best (map (\<lambda>t. the (attempt c F dyn i b (hc_trace c ! t))) ts), False)
      | Some t \<Rightarrow> (case do_hoist c F dyn i (hc_trace c ! t) of (G, dyn') \<Rightarrow>
          (G, dyn', foldl (noteReason (hc_stats c)) best
             (map (\<lambda>t. the (attempt c F dyn i b (hc_trace c ! t)))
                (takeWhile (\<lambda>t. attempt c F dyn i b (hc_trace c ! t) \<noteq> None) ts)), True)))"
  by (induction ts arbitrary: best) (auto split: option.splits prod.splits)

lemma trace_pos_Some:
  "distinct trace \<Longrightarrow> trace_pos trace b = Some k \<longleftrightarrow> k < length trace \<and> trace ! k = b"
  unfolding trace_pos_def by (rule build_index_fold) simp_all

lemma trace_pos_None: "distinct trace \<Longrightarrow> trace_pos trace b = None \<longleftrightarrow> b \<notin> set trace"
proof -
  assume d: "distinct trace"
  have "trace_pos trace b \<noteq> None \<longleftrightarrow> b \<in> set trace"
    using trace_pos_Some [OF d] by (auto simp: in_set_conv_nth)
  then show ?thesis by blast
qed

lemma original_block_Some:
  assumes "dist_func F" "set trace \<subseteq> set (f_blocks F)" "b \<in> set trace" "i \<in> set (f_body F b)"
  shows "original_block F trace i = Some b"
proof -
  have inner: "foldl (\<lambda>m i. m(i \<mapsto> b)) m xs i = (if i \<in> set xs then Some b else m i)" for m xs b
    by (induction xs arbitrary: m) auto
  have "original_block F bs i = Some b" if "b \<in> set bs" "set bs \<subseteq> set trace" for bs
    using that
  proof (induction bs rule: rev_induct)
    case (snoc c bs)
    then show ?case
      using dist_same_block [OF assms(1), of b c i] assms(2-4)
      by (auto simp: original_block_def inner)
  qed simp
  then show ?thesis using assms(3) by blast
qed

text \<open>A successful attempt is a legal move.\<close>

lemma do_hoist_legal:
  assumes att: "attempt c G dyn i b t = None" and anc: "\<not> isSchedulingAnchor G i"
    and i: "i \<in> set (f_body G b)" and d: "dist_func G" and blk: "b \<in> set (f_blocks G)" "t \<in> set (f_blocks G)"
    and order: "precedes (hc_trace c) t b" "b \<noteq> t"
  obtains xs ys us p where "f_body G b = xs @ i # ys" "f_body G t = us @ [p]" "is_term G p"
    "legal_hoist (hc_an c) (hc_trace c) G i b t p"
    "fst (do_hoist c G dyn i t) = set_body (set_body G b (xs @ ys)) t (us @ [i, p])"
proof -
  obtain p where p: "terminator G t = Some p" and legal: "legal_hoist (hc_an c) (hc_trace c) G i b t p"
    using attempt_None [OF att] anc order(1) unfolding legal_hoist_def by metis
  obtain us where us: "f_body G t = us @ [p]" "is_term G p" by (rule terminator_Some [OF p])
  obtain xs ys where xs: "f_body G b = xs @ i # ys" using i by (auto simp: in_set_conv_decomp)
  have "move_before G i p = set_body (set_body G b (xs @ ys)) t (us @ [i, p])"
    using move_before_other [OF d blk order(2) xs, of us p "[]"] us(1) by simp
  then show thesis using that [OF xs us legal] p by (simp add: do_hoist_def)
qed

text \<open>What one instruction of the schedule does.\<close>

lemma hoist_step_hoists:
  assumes h: "hoists (hc_an c) (hc_trace c) F G" and d: "dist_func F"
    and tr: "distinct (hc_trace c)" "set (hc_trace c) \<subseteq> set (f_blocks F)"
    and b: "b \<in> set (hc_trace c)" and om: "om i = Some b" and i: "i \<in> set (f_body F b)" "i \<in> set (f_body G b)"
    and step: "hoist_step c om (G, dyn, st) i = (H, dyn', st')"
  shows "hoists (hc_an c) (hc_trace c) F H \<and> (\<forall>j e. j \<noteq> i \<longrightarrow> j \<in> set (f_body H e) \<longleftrightarrow> j \<in> set (f_body G e))"
proof -
  obtain k where k: "trace_pos (hc_trace c) b = Some k" using trace_pos_None [OF tr(1)] b by fastforce
  then have kb: "k < length (hc_trace c)" "hc_trace c ! k = b" using trace_pos_Some [OF tr(1)] by auto
  let ?ok = "\<lambda>t. attempt c G dyn i b (hc_trace c ! t) = None"
  show ?thesis
  proof (cases "isSchedulingAnchor G i \<or> find ?ok [0..<k] = None")
    case True
    then have "H = G" using step om k by (auto simp: hoist_step_def Let_def try_targets_find split: if_splits)
    then show ?thesis using h by simp
  next
    case False
    then obtain t where t: "find ?ok [0..<k] = Some t" and anc: "\<not> isSchedulingAnchor G i" by auto
    then have tk: "t < k" "?ok t" by (auto simp: find_Some_iff)
    let ?t = "hc_trace c ! t"
    have H: "H = fst (do_hoist c G dyn i ?t)"
      using step om k t anc by (auto simp: hoist_step_def Let_def try_targets_find split: prod.splits)
    have prec: "precedes (hc_trace c) ?t b" using precedes_nth [OF tr(1)] tk kb by (metis less_trans)
    have ne: "b \<noteq> ?t" using tk kb tr(1) by (metis less_trans nat_neq_iff nth_eq_iff_index_eq)
    have fb: "f_blocks G = f_blocks F" by (rule hoists_frame(2) [OF h])
    have dG: "dist_func G" using same_insts_dist [OF hoists_same_insts [OF h d tr] d] .
    have "?t \<in> set (f_blocks G)" "b \<in> set (f_blocks G)" using tk kb tr(2) b fb by auto
    then obtain xs ys us p where m: "f_body G b = xs @ i # ys" "f_body G ?t = us @ [p]" "is_term G p"
      "legal_hoist (hc_an c) (hc_trace c) G i b ?t p"
      "fst (do_hoist c G dyn i ?t) = set_body (set_body G b (xs @ ys)) ?t (us @ [i, p])"
      using do_hoist_legal [OF tk(2) anc i(2) dG _ _ prec ne] by metis
    have "hoists (hc_an c) (hc_trace c) F H"
      unfolding H m(5) by (rule hoists_move [OF h m(4) i(1) m(1,2,3)])
    moreover have "j \<in> set (f_body H e) \<longleftrightarrow> j \<in> set (f_body G e)" if "j \<noteq> i" for j e
      unfolding H m(5) using that m(1,2) ne by (cases "e = b"; cases "e = ?t") auto
    ultimately show ?thesis by blast
  qed
qed

lemma phase2_hoists:
  assumes d: "dist_func F" and tr: "distinct (hc_trace c)" "set (hc_trace c) \<subseteq> set (f_blocks F)"
    and om: "\<And>i. i \<in> set schedule \<Longrightarrow> \<exists>b \<in> set (hc_trace c). om i = Some b \<and> i \<in> set (f_body F b)"
    and sd: "distinct schedule" and run: "phase2 c om schedule (F, dyn, st) = (H, dyn', st')"
  shows "hoists (hc_an c) (hc_trace c) F H"
proof -
  have "hoists (hc_an c) (hc_trace c) F H"
    if "hoists (hc_an c) (hc_trace c) F G" "foldl (hoist_step c om) (G, dy, s) is = (H, dyn', st')"
      "set is \<subseteq> set schedule" "distinct is" "\<forall>j \<in> set is. \<forall>e. j \<in> set (f_body F e) \<longrightarrow> j \<in> set (f_body G e)"
    for G dy s "is"
    using that
  proof (induction "is" arbitrary: G dy s)
    case (Cons i "is")
    obtain G1 dy1 s1 where step: "hoist_step c om (G, dy, s) i = (G1, dy1, s1)" by (metis prod_cases3)
    have "i \<in> set schedule" using Cons.prems(3) by simp
    then obtain b where b: "b \<in> set (hc_trace c)" "om i = Some b" "i \<in> set (f_body F b)" using om by blast
    then have "i \<in> set (f_body G b)" using Cons.prems(5) by simp
    then have "hoists (hc_an c) (hc_trace c) F G1 \<and>
        (\<forall>j e. j \<noteq> i \<longrightarrow> j \<in> set (f_body G1 e) \<longleftrightarrow> j \<in> set (f_body G e))"
      using hoist_step_hoists [where om = om, OF Cons.prems(1) d tr b(1,2,3) _ step] by blast
    moreover have "i \<notin> set is" "distinct is" using Cons.prems(4) by simp_all
    ultimately show ?case
      using Cons.IH [of G1 dy1 s1] Cons.prems step by (simp add: subset_iff) metis
  qed simp
  then show ?thesis
    using run sd hoists_refl unfolding phase2_def by blast
qed

section \<open>What applySchedule preserves\<close>

text \<open>The inputs of a call: a trace of distinct blocks and a schedule of the trace's
  instructions in an order that respects definitions and uses.\<close>

definition apply_ok :: "hoist_ctx \<Rightarrow> iid list \<Rightarrow> func \<Rightarrow> bool" where
  "apply_ok c schedule F \<longleftrightarrow> distinct (hc_trace c) \<and> set (hc_trace c) \<subseteq> set (f_blocks F) \<and>
     set schedule \<subseteq> set (insts_of F (hc_trace c)) \<and> order_ok F schedule"

lemma block_view_set: "block_view G = block_view F \<Longrightarrow> set (f_body G b) = set (f_body F b)"
  by (metis block_view_def mset_eq_setD prod.inject)

text \<open>Phase 2 on any part of the schedule, after phase 1.\<close>

lemma phase2_part:
  assumes d: "dist_func F" and ok: "apply_ok c schedule F" and part: "set part \<subseteq> set schedule" "distinct part"
    and run: "phase2 c (original_block F (hc_trace c)) part (phase1 schedule (hc_trace c) F, dyn, st) = (G, dyn', st')"
  obtains F1 where "F1 = phase1 schedule (hc_trace c) F" "dist_func F1" "same_insts F F1"
    "block_view F1 = block_view F" "hoists (hc_an c) (hc_trace c) F1 G"
proof -
  let ?F1 = "phase1 schedule (hc_trace c) F"
  note ok' = ok [unfolded apply_ok_def order_ok_def]
  have p1: "same_insts F ?F1" "block_view ?F1 = block_view F" using phase1_keeps [OF _ d] ok' by blast+
  have d1: "dist_func ?F1" by (rule same_insts_dist [OF p1(1) d])
  have fb: "f_blocks ?F1 = f_blocks F" using p1(1) by (simp add: same_insts_def same_frame_def)
  have "\<exists>b \<in> set (hc_trace c). original_block F (hc_trace c) i = Some b \<and> i \<in> set (f_body ?F1 b)"
    if "i \<in> set part" for i
  proof -
    have "i \<in> set (insts_of F (hc_trace c))" using that ok' part(1) by blast
    then obtain b where b: "b \<in> set (hc_trace c)" "i \<in> set (f_body F b)"
      unfolding set_insts_of by blast
    then show ?thesis using original_block_Some [OF d _ b] ok' block_view_set [OF p1(2)] by blast
  qed
  then have "hoists (hc_an c) (hc_trace c) ?F1 G"
    using phase2_hoists [OF d1, of c part "original_block F (hc_trace c)"] ok' fb part(2) run by simp
  then show thesis using that p1 d1 by blast
qed

lemma hoists_part_same_insts:
  assumes "apply_ok c schedule F" "dist_func F1" "same_insts F F1" "hoists (hc_an c) (hc_trace c) F1 G"
  shows "same_insts F G"
proof -
  have "f_blocks F1 = f_blocks F" using assms(3) by (simp add: same_insts_def same_frame_def)
  then show ?thesis
    using hoists_same_insts [OF assms(4,2)] assms(1) same_insts_trans [OF assms(3)] by (simp add: apply_ok_def)
qed

lemma applySchedule_phases:
  assumes d: "dist_func F" and ok: "apply_ok c schedule F" and run: "applySchedule c schedule F st = (G, st')"
  obtains F1 where "F1 = phase1 schedule (hc_trace c) F" "dist_func F1" "same_insts F F1"
    "block_view F1 = block_view F" "hoists (hc_an c) (hc_trace c) F1 G"
proof -
  obtain dyn' where "phase2 c (original_block F (hc_trace c)) schedule
      (phase1 schedule (hc_trace c) F, dyn_init (hc_live c) (hc_trace c), st) = (G, dyn', st')"
    using run by (auto simp: applySchedule_def split: prod.splits)
  moreover have "distinct schedule" using ok by (simp add: apply_ok_def order_ok_def)
  ultimately show thesis using phase2_part [OF d ok subset_refl] that by metis
qed

lemma applySchedule_same_insts:
  assumes "dist_func F" "apply_ok c schedule F" "applySchedule c schedule F st = (G, st')"
  shows "same_insts F G"
proof -
  obtain F1 where "dist_func F1" "same_insts F F1" "hoists (hc_an c) (hc_trace c) F1 G"
    by (rule applySchedule_phases [OF assms])
  then show ?thesis by (rule hoists_part_same_insts [OF assms(2)])
qed

lemma applySchedule_anchors:
  assumes "dist_func F" "apply_ok c schedule F" "applySchedule c schedule F st = (G, st')"
  shows "filter (isSchedulingAnchor F) (f_body G b) = filter (isSchedulingAnchor F) (f_body F b)"
proof -
  obtain F1 where F1: "same_insts F F1" "block_view F1 = block_view F" "hoists (hc_an c) (hc_trace c) F1 G"
    by (rule applySchedule_phases [OF assms])
  have a: "isSchedulingAnchor F1 = isSchedulingAnchor F"
    using F1(1) by (intro anchor_frame) (simp add: same_insts_def same_frame_def)
  have "block_view F1 b = block_view F b" using F1(2) by simp
  then show ?thesis
    using hoists_anchors [OF F1(3), of b] assms(2) a by (simp add: apply_ok_def block_view_def)
qed

lemma applySchedule_wf:
  assumes wf: "wf_func F" and ok: "apply_ok c schedule F" and run: "applySchedule c schedule F st = (G, st')"
  shows "wf_func G"
proof (rule same_insts_wf [OF applySchedule_same_insts [OF wf_dist_func [OF wf] ok run] wf])
  obtain F1 where F1: "F1 = phase1 schedule (hc_trace c) F" "same_insts F F1" "hoists (hc_an c) (hc_trace c) F1 G"
    by (rule applySchedule_phases [OF wf_dist_func [OF wf] ok run])
  have "\<forall>b \<in> set (f_blocks F). wf_block F1 b"
    using phase1_keeps(3) [OF _ wf_dist_func [OF wf]] ok wf unfolding F1(1) by (simp add: apply_ok_def wf_func_def)
  moreover have "f_blocks F1 = f_blocks F" using F1(2) by (simp add: same_insts_def same_frame_def)
  ultimately show "wf_block G b" if "b \<in> set (f_blocks F)" for b
    using hoists_wf_block [OF F1(3)] ok that by (simp add: apply_ok_def)
qed

lemma dom_sound_same:
  assumes si: "same_insts F G" shows "dom_sound an G = dom_sound an F"
proof -
  have fr: "same_frame F G" using si by (simp add: same_insts_def)
  have eq: "same_insts G = same_insts F" "f_blocks G = f_blocks F"
    using si by (auto simp: same_insts_def same_frame_def fun_eq_iff)
  show ?thesis
    unfolding dom_sound_def eq dominates_cfg [OF fr] reachable_cfg [OF fr] ..
qed

lemma applySchedule_ssa:
  assumes d: "dist_func F" and ok: "apply_ok c schedule F" and run: "applySchedule c schedule F st = (G, st')"
    and "dom_sound (hc_an c) F" "ssa F"
  shows "ssa G"
proof -
  obtain F1 where F1: "F1 = phase1 schedule (hc_trace c) F" "dist_func F1" "same_insts F F1"
      "hoists (hc_an c) (hc_trace c) F1 G"
    by (rule applySchedule_phases [OF d ok run])
  have "ssa F1" using phase1_keeps(4) [OF _ d] ok assms(5) unfolding F1(1) by (simp add: apply_ok_def)
  moreover have "f_blocks F1 = f_blocks F" using F1(3) by (simp add: same_insts_def same_frame_def)
  moreover have "dom_sound (hc_an c) F1" using dom_sound_same [OF F1(3)] assms(4) by simp
  ultimately show ?thesis using hoists_ssa [OF F1(4,2)] ok by (simp add: apply_ok_def)
qed

lemma applySchedule_positions:
  assumes d: "dist_func F" and ok: "apply_ok c schedule F" and run: "applySchedule c schedule F st = (G, st')"
    and i: "b \<in> set (f_blocks F)" "i \<in> set (f_body F b)" "t \<in> set (f_blocks F)" "i \<in> set (f_body G t)" "t \<noteq> b"
  shows "\<not> isSchedulingAnchor F i" "precedes (hc_trace c) t b" "\<not> an_loop_header (hc_an c) t"
    "isSameLoopOrOuter (hc_an c) b t" "an_dom (hc_an c) t b"
proof -
  obtain F1 where F1: "dist_func F1" "same_insts F F1" "block_view F1 = block_view F"
      "hoists (hc_an c) (hc_trace c) F1 G"
    by (rule applySchedule_phases [OF d ok run])
  have fb: "f_blocks F1 = f_blocks F" using F1(2) by (simp add: same_insts_def same_frame_def)
  have a: "isSchedulingAnchor F1 = isSchedulingAnchor F"
    using F1(2) by (intro anchor_frame) (simp add: same_insts_def same_frame_def)
  have "t = b \<or> (\<not> isSchedulingAnchor F1 i \<and> precedes (hc_trace c) t b \<and> \<not> an_loop_header (hc_an c) t \<and>
    isSameLoopOrOuter (hc_an c) b t \<and> an_dom (hc_an c) t b)"
    using hoists_positions [OF F1(4,1), of b i t] ok i fb block_view_set [OF F1(3)] by (simp add: apply_ok_def)
  then show "\<not> isSchedulingAnchor F i" "precedes (hc_trace c) t b" "\<not> an_loop_header (hc_an c) t"
    "isSameLoopOrOuter (hc_an c) b t" "an_dom (hc_an c) t b" using i(5) a by auto
qed

section \<open>Statistics\<close>

definition hs_blocked :: "hoist_stats \<Rightarrow> nat" where
  "hs_blocked st = hs_blockedDominance st + hs_blockedLoop st + hs_blockedOperand st +
     hs_blockedUnsafe st + hs_blockedPressure st"

definition balanced :: "hoist_stats \<Rightarrow> bool" where
  "balanced st \<longleftrightarrow> hs_candidates st = hs_done st + hs_blocked st"

lemma noteReason_max: "noteReason True best r = max best r"
  by (auto simp: noteReason_def max_def)

lemma note_fold_max: "foldl (noteReason True) best rs = Max (insert best (set rs))"
proof (induction rs arbitrary: best)
  case (Cons r rs)
  then show ?case
    by (cases "rs = []") (simp_all add: noteReason_max max.assoc)
qed simp

lemma attempt_reason: "attempt c F dyn i b t = Some r \<Longrightarrow> r \<noteq> RNone"
  by (auto simp: attempt_def split: if_splits option.splits)

lemma RNone_least: "RNone \<le> r"
  by (simp add: less_eq_block_reason_def reason_rank_def)

lemma note_fold_blocked:
  assumes "rs \<noteq> []" "\<forall>r \<in> set rs. r \<noteq> RNone"
  shows "foldl (noteReason True) RNone rs \<noteq> RNone"
proof -
  obtain r where r: "r \<in> set rs" "r \<noteq> RNone" using assms by (cases rs) auto
  then have "r \<le> Max (insert RNone (set rs))" by (intro Max_ge) auto
  then show ?thesis using r RNone_least [of r] unfolding note_fold_max by (metis order_antisym)
qed

lemma count_reason_blocked: "r \<noteq> RNone \<Longrightarrow> hs_blocked (count_reason r st) = hs_blocked st + 1"
  "hs_done (count_reason r st) = hs_done st" "hs_candidates (count_reason r st) = hs_candidates st"
  by (cases r; simp add: count_reason_def hs_blocked_def)+

text \<open>The step in two halves: what is moved, and what is counted.\<close>

definition step_outcome :: "hoist_ctx \<Rightarrow> (iid \<Rightarrow> bid option) \<Rightarrow> func \<Rightarrow> dyn_live \<Rightarrow> iid \<Rightarrow>
    (nat \<times> func \<times> dyn_live \<times> block_reason \<times> bool) option" where
  "step_outcome c om F dyn i =
     (case (case om i of Some b \<Rightarrow> Some b | None \<Rightarrow> parent F i) of None \<Rightarrow> None
      | Some b \<Rightarrow> (case trace_pos (hc_trace c) b of None \<Rightarrow> None
         | Some k \<Rightarrow> Some (k, if isSchedulingAnchor F i then (F, dyn, RUnsafe, False)
                            else try_targets c F dyn i b RNone [0..<k])))"

lemma hoist_step_outcome:
  "hoist_step c om (F, dyn, st) i = (case step_outcome c om F dyn i of None \<Rightarrow> (F, dyn, st)
     | Some (k, G, dyn', best, moved) \<Rightarrow> (G, dyn',
         if hc_stats c \<and> k > 0
         then (let st1 = st\<lparr>hs_candidates := hs_candidates st + 1\<rparr>
               in if moved then st1\<lparr>hs_done := hs_done st1 + 1\<rparr> else count_reason best st1)
         else st))"
proof (cases "case om i of Some b \<Rightarrow> Some b | None \<Rightarrow> parent F i")
  case b: (Some b)
  show ?thesis
  proof (cases "trace_pos (hc_trace c) b")
    case k: (Some k)
    obtain G d r m where "try_targets c F dyn i b RNone [0..<k] = (G, d, r, m)" by (metis prod_cases4)
    then show ?thesis using b k
      by (cases "isSchedulingAnchor F i") (simp_all add: hoist_step_def step_outcome_def Let_def count_reason_def)
  qed (use b in \<open>simp add: hoist_step_def step_outcome_def\<close>)
qed (simp add: hoist_step_def step_outcome_def)

lemma try_targets_fail:
  assumes "try_targets c F dyn i b RNone [0..<k] = (G', d, best, False)" "0 < k" "hc_stats c"
  shows "best \<noteq> RNone"
proof -
  let ?r = "\<lambda>t. attempt c F dyn i b (hc_trace c ! t)"
  have none: "find (\<lambda>t. ?r t = None) [0..<k] = None"
    and best: "best = foldl (noteReason True) RNone (map (\<lambda>t. the (?r t)) [0..<k])"
    using assms by (auto simp: try_targets_find split: option.splits prod.splits)
  have "the (?r t) \<noteq> RNone" if "t < k" for t
    using none that attempt_reason by (fastforce simp: find_None_iff)
  then show ?thesis unfolding best using assms(2) by (intro note_fold_blocked) auto
qed

lemma step_outcome_reason:
  "step_outcome c om F dyn i = Some (k, G, dyn', best, False) \<Longrightarrow> 0 < k \<Longrightarrow> hc_stats c \<Longrightarrow> best \<noteq> RNone"
  by (auto simp: step_outcome_def dest: try_targets_fail split: option.splits if_splits)

lemma hoist_step_balanced:
  assumes "balanced st" "hoist_step c om (F, dyn, st) i = (G, dyn', st')"
  shows "balanced st'"
proof (cases "step_outcome c om F dyn i")
  case None
  then show ?thesis using assms by (simp add: hoist_step_outcome)
next
  case (Some out)
  obtain k H d best moved where out: "out = (k, H, d, best, moved)" by (metis prod_cases5)
  show ?thesis
  proof (cases "hc_stats c \<and> k > 0 \<and> \<not> moved")
    case True
    then have "step_outcome c om F dyn i = Some (k, H, d, best, False)" using Some out by simp
    then have "best \<noteq> RNone" using step_outcome_reason True by blast
    then show ?thesis using assms Some out True
      by (auto simp: hoist_step_outcome balanced_def Let_def count_reason_blocked) (simp add: hs_blocked_def)
  next
    case False
    then show ?thesis using assms Some out
      by (auto simp: hoist_step_outcome balanced_def Let_def hs_blocked_def split: if_splits)
  qed
qed

lemma phase2_balanced:
  "balanced st \<Longrightarrow> phase2 c om schedule (F, dyn, st) = (G, dyn', st') \<Longrightarrow> balanced st'"
  unfolding phase2_def
proof (induction schedule arbitrary: F dyn st)
  case (Cons i "is")
  obtain G1 dy1 s1 where "hoist_step c om (F, dyn, st) i = (G1, dy1, s1)" by (metis prod_cases3)
  then show ?case using Cons hoist_step_balanced by simp blast
qed simp

text \<open>Collecting statistics does not change the code.\<close>

lemma attempt_stats [simp]: "attempt (c\<lparr>hc_stats := on\<rparr>) = attempt c"
  by (simp add: fun_eq_iff attempt_def cong: if_cong option.case_cong)

lemma do_hoist_stats [simp]: "do_hoist (c\<lparr>hc_stats := on\<rparr>) = do_hoist c"
  by (simp add: fun_eq_iff do_hoist_def cong: option.case_cong)

lemma try_targets_stats:
  fixes c :: hoist_ctx and on :: bool
  shows "(case try_targets (c\<lparr>hc_stats := on\<rparr>) F dyn i b best ts of (G, d, r, m) \<Rightarrow> (G, d, m)) =
   (case try_targets c F dyn i b best' ts of (G, d, r, m) \<Rightarrow> (G, d, m))"
  by (induction ts arbitrary: best best') (auto split: option.splits prod.splits)

lemma hoist_step_stats:
  assumes "hoist_step c om (F, dyn, st) i = (G, d, s)" "hoist_step (c\<lparr>hc_stats := on\<rparr>) om (F, dyn, st') i = (G', d', s')"
  shows "G' = G \<and> d' = d"
proof -
  let ?v = "\<lambda>(G, d, r, m). (G, d)"
  have t: "?v (try_targets (c\<lparr>hc_stats := on\<rparr>) F dyn i b RNone ts) = ?v (try_targets c F dyn i b RNone ts)" for b ts
    using try_targets_stats [where c = c and on = on and F = F and dyn = dyn and i = i and b = b and best = RNone and ts = ts and best' = RNone]
    by (cases "try_targets (c\<lparr>hc_stats := on\<rparr>) F dyn i b RNone ts"; cases "try_targets c F dyn i b RNone ts") simp
  have "map_option (?v \<circ> snd) (step_outcome (c\<lparr>hc_stats := on\<rparr>) om F dyn i) =
      map_option (?v \<circ> snd) (step_outcome c om F dyn i)"
    by (simp add: step_outcome_def t split: option.split)
  then show ?thesis using assms unfolding hoist_step_outcome
    by (auto split: option.splits)
qed

lemma phase2_stats:
  assumes "phase2 c om schedule (F, dyn, st) = (G, d, s)" "phase2 (c\<lparr>hc_stats := on\<rparr>) om schedule (F, dyn, st') = (G', d', s')"
  shows "G' = G \<and> d' = d"
  using assms unfolding phase2_def
proof (induction schedule arbitrary: F dyn st st')
  case (Cons i "is")
  obtain G1 d1 s1 where 1: "hoist_step c om (F, dyn, st) i = (G1, d1, s1)" by (metis prod_cases3)
  obtain G2 d2 s2 where 2: "hoist_step (c\<lparr>hc_stats := on\<rparr>) om (F, dyn, st') i = (G2, d2, s2)" by (metis prod_cases3)
  show ?case using Cons hoist_step_stats [OF 1 2] 1 2 by simp
qed simp

end
