(* ===== verification/Block_Semantics.thy ===== *)
theory Block_Semantics
  imports Legality
begin

text \<open>
  What reordering must preserve: the effect of executing a block.  The meaning of single
  instructions is a parameter, constrained only by what the anchor test stands for: an
  instruction that is not an anchor computes its result from its operands alone, an anchor
  may also read and change the machine state.  Executing a reordered block then has the
  same effect as executing the original one, provided the schedule keeps definitions before
  uses among the non-anchors.
\<close>

record ('v, 'm) semantics =
  sem_pure :: "iid \<Rightarrow> 'v list \<Rightarrow> 'v"
  sem_effect :: "iid \<Rightarrow> 'v list \<Rightarrow> 'm \<Rightarrow> 'v \<times> 'm"

type_synonym ('v, 'm) exec_state = "(val \<Rightarrow> 'v) \<times> 'm"

definition exec_inst :: "('v, 'm) semantics \<Rightarrow> func \<Rightarrow> ('v, 'm) exec_state \<Rightarrow> iid \<Rightarrow> ('v, 'm) exec_state" where
  "exec_inst S F s i = (case s of (env, m) \<Rightarrow>
     (if isSchedulingAnchor F i
      then (case sem_effect S i (map env (operands F i)) m of (v, m') \<Rightarrow> (env(Inst i := v), m'))
      else (env(Inst i := sem_pure S i (map env (operands F i))), m)))"

definition exec_insts :: "('v, 'm) semantics \<Rightarrow> func \<Rightarrow> iid list \<Rightarrow> ('v, 'm) exec_state \<Rightarrow> ('v, 'm) exec_state" where
  "exec_insts S F is s = foldl (exec_inst S F) s is"

lemma exec_insts_simps [simp]:
  "exec_insts S F [] s = s" "exec_insts S F (i # is) s = exec_insts S F is (exec_inst S F s i)"
  "exec_insts S F (is @ js) s = exec_insts S F js (exec_insts S F is s)"
  by (simp_all add: exec_insts_def)

lemma exec_insts_frame: "f_inst G = f_inst F \<Longrightarrow> exec_insts S G = exec_insts S F"
proof -
  assume fi: "f_inst G = f_inst F"
  then have "exec_inst S G = exec_inst S F"
    by (intro ext) (simp only: exec_inst_def operands_def anchor_frame [OF fi] fi)
  then show ?thesis by (intro ext) (simp add: exec_insts_def)
qed

text \<open>Definitions before uses, among the instructions that may be reordered.\<close>

definition pure_defs_first :: "func \<Rightarrow> iid list \<Rightarrow> bool" where
  "pure_defs_first F xs \<longleftrightarrow> (\<forall>b \<in> set xs. \<forall>a \<in> set xs. \<not> isSchedulingAnchor F a \<longrightarrow>
     \<not> isSchedulingAnchor F b \<longrightarrow> Inst a \<in> set (operands F b) \<longrightarrow> precedes xs a b)"

lemma exec_swap:
  assumes "\<not> isSchedulingAnchor F i" "\<not> isSchedulingAnchor F j" "i \<noteq> j"
    "Inst i \<notin> set (operands F j)" "Inst j \<notin> set (operands F i)"
  shows "exec_inst S F (exec_inst S F s i) j = exec_inst S F (exec_inst S F s j) i"
proof -
  obtain env m where s: "s = (env, m)" by (cases s)
  have i: "map (env(Inst i := x)) (operands F j) = map env (operands F j)" for x
    using assms(4) by (auto intro!: map_cong)
  have j: "map (env(Inst j := x)) (operands F i) = map env (operands F i)" for x
    using assms(5) by (auto intro!: map_cong)
  have ij: "exec_inst S F (exec_inst S F s i) j =
      (env(Inst i := sem_pure S i (map env (operands F i)), Inst j := sem_pure S j (map env (operands F j))), m)"
    unfolding s exec_inst_def using assms(1,2) by (simp only: prod.case if_False i)
  have ji: "exec_inst S F (exec_inst S F s j) i =
      (env(Inst j := sem_pure S j (map env (operands F j)), Inst i := sem_pure S i (map env (operands F i))), m)"
    unfolding s exec_inst_def using assms(1,2) by (simp only: prod.case if_False j)
  show ?thesis unfolding ij ji using assms(3) by (simp add: fun_upd_twist)
qed

text \<open>An instruction that depends on nothing in front of it can be executed first.\<close>

lemma exec_move_front:
  assumes "\<forall>j \<in> set us. \<not> isSchedulingAnchor F j \<and> j \<noteq> i \<and> Inst i \<notin> set (operands F j) \<and> Inst j \<notin> set (operands F i)"
    and "\<not> isSchedulingAnchor F i"
  shows "exec_inst S F (exec_insts S F us s) i = exec_insts S F us (exec_inst S F s i)"
  using assms(1)
proof (induction us arbitrary: s)
  case (Cons j us)
  then show ?case using exec_swap [of F j i S s] assms(2) by auto
qed simp

lemma pure_defs_first_tl:
  assumes "pure_defs_first F (x # xs)" "distinct (x # xs)" shows "pure_defs_first F xs"
  unfolding pure_defs_first_def
proof (intro ballI impI)
  fix a b assume ab: "b \<in> set xs" "a \<in> set xs" "\<not> isSchedulingAnchor F a" "\<not> isSchedulingAnchor F b"
    "Inst a \<in> set (operands F b)"
  then have "precedes (x # xs) a b" using assms(1) unfolding pure_defs_first_def by simp
  then show "precedes xs a b" using ab assms(2) by auto
qed

lemma exec_pure_perm:
  assumes "mset ys = mset xs" "distinct xs" "\<forall>i \<in> set xs. \<not> isSchedulingAnchor F i"
    "pure_defs_first F xs" "pure_defs_first F ys"
  shows "exec_insts S F ys s = exec_insts S F xs s"
  using assms
proof (induction xs arbitrary: ys s)
  case (Cons x xs)
  have set: "set ys = set (x # xs)" using Cons.prems(1) by (rule mset_eq_setD)
  have dy: "distinct ys" using Cons.prems(1,2) mset_eq_imp_distinct_iff by metis
  have "x \<in> set ys" using set by simp
  then obtain us vs where ys: "ys = us @ x # vs" by (auto simp: in_set_conv_decomp)
  have x_free: "Inst j \<notin> set (operands F x)" if "j \<in> set ys" for j
  proof
    assume "Inst j \<in> set (operands F x)"
    then have "precedes (x # xs) j x"
      using Cons.prems(3,4) that set unfolding pure_defs_first_def by auto
    then show False using Cons.prems(2) by (auto dest: precedes_in)
  qed
  have "Inst x \<notin> set (operands F j)" if j: "j \<in> set us" for j
  proof
    assume "Inst x \<in> set (operands F j)"
    then have "precedes ys x j" using Cons.prems(3,5) j ys set unfolding pure_defs_first_def by auto
    then show False using dy j ys precedes_asym [of ys x j] by (auto simp: precedes_append)
  qed
  then have front: "\<forall>j \<in> set us. \<not> isSchedulingAnchor F j \<and> j \<noteq> x \<and> Inst x \<notin> set (operands F j) \<and> Inst j \<notin> set (operands F x)"
  proof (intro ballI conjI)
    fix j assume j: "j \<in> set us"
    then have "j \<in> set (x # xs)" using set ys by auto
    then show "\<not> isSchedulingAnchor F j" using Cons.prems(3) by blast
    show "j \<noteq> x" using j dy ys by auto
    show "Inst j \<notin> set (operands F x)" using x_free j ys by simp
  qed (use \<open>\<And>j. j \<in> set us \<Longrightarrow> Inst x \<notin> set (operands F j)\<close> in blast)
  have "exec_insts S F ys s = exec_insts S F (us @ vs) (exec_inst S F s x)"
    using exec_move_front [OF front, of S s] Cons.prems(3) ys by simp
  moreover have "pure_defs_first F (us @ vs)"
    unfolding pure_defs_first_def
  proof (intro ballI impI)
    fix a b assume ab: "b \<in> set (us @ vs)" "a \<in> set (us @ vs)" "\<not> isSchedulingAnchor F a"
      "\<not> isSchedulingAnchor F b" "Inst a \<in> set (operands F b)"
    then have "precedes ys a b" using Cons.prems(5) ys unfolding pure_defs_first_def by simp
    then show "precedes (us @ vs) a b" using ab dy ys by (auto simp: precedes_append)
  qed
  moreover have "mset (us @ vs) = mset xs" using Cons.prems(1) ys by simp
  ultimately show ?case
    using Cons.IH [of "us @ vs" "exec_inst S F s x"] Cons.prems(2,3) pure_defs_first_tl [OF Cons.prems(4,2)] by simp
qed simp

lemma pure_defs_first_sub:
  assumes "pure_defs_first F (us @ xs @ vs)" "distinct (us @ xs @ vs)" shows "pure_defs_first F xs"
  unfolding pure_defs_first_def
proof (intro ballI impI)
  fix a b assume ab: "b \<in> set xs" "a \<in> set xs" "\<not> isSchedulingAnchor F a" "\<not> isSchedulingAnchor F b"
    "Inst a \<in> set (operands F b)"
  then have "precedes (us @ xs @ vs) a b" using assms(1) unfolding pure_defs_first_def by simp
  then show "precedes xs a b" using ab assms(2) by (auto simp: precedes_append dest: precedes_in)
qed

text \<open>A schedule may be applied when it lists its instructions once and agrees with the
  definition-use order of the non-anchors it lists.\<close>

definition legal_for :: "func \<Rightarrow> iid list \<Rightarrow> iid list \<Rightarrow> bool" where
  "legal_for F schedule xs \<longleftrightarrow> distinct schedule \<and>
     (\<forall>b \<in> set xs. \<forall>a \<in> set xs. a \<in> set schedule \<longrightarrow> b \<in> set schedule \<longrightarrow> \<not> isSchedulingAnchor F a \<longrightarrow>
        \<not> isSchedulingAnchor F b \<longrightarrow> Inst a \<in> set (operands F b) \<longrightarrow> precedes schedule a b)"

lemma exec_region:
  assumes d: "distinct cur" and pure: "\<forall>i \<in> set cur. \<not> isSchedulingAnchor F i"
    and first: "pure_defs_first F cur" and legal: "legal_for F schedule cur"
  shows "exec_insts S F (region_result schedule cur) s = exec_insts S F cur s"
proof (cases "length (region_ordered schedule cur) = length cur")
  case True
  then have r: "region_result schedule cur = region_ordered schedule cur" by (simp add: region_result_def)
  have "set (region_ordered schedule cur) = set cur"
    using region_ordered_perm [OF d True] by (rule mset_eq_setD)
  then have "set cur \<subseteq> set schedule" using region_ordered_props [of schedule cur] by auto
  then have "pure_defs_first F (region_ordered schedule cur)"
    using legal unfolding pure_defs_first_def legal_for_def
    by (auto simp: region_ordered_filter precedes_filter)
  then show ?thesis unfolding r using exec_pure_perm [OF region_ordered_perm [OF d True] d pure first, of S s] by simp
qed (simp add: region_result_def)

lemma legal_for_sub: "legal_for F schedule ys \<Longrightarrow> set xs \<subseteq> set ys \<Longrightarrow> legal_for F schedule xs"
  unfolding legal_for_def by blast

lemma exec_reorder_spec:
  assumes "distinct (cur @ xs)" "\<forall>i \<in> set cur. \<not> isSchedulingAnchor F i" "pure_defs_first F (cur @ xs)"
    "legal_for F schedule (cur @ xs)"
  shows "exec_insts S F (reorder_spec F schedule cur xs) s = exec_insts S F (cur @ xs) s"
  using assms
proof (induction F schedule cur xs arbitrary: s rule: reorder_spec.induct)
  case (2 F schedule cur x xs)
  show ?case
  proof (cases "isSchedulingAnchor F x")
    case False
    then show ?thesis using "2.IH"(1) [OF False, of s] "2.prems" by simp
  next
    case True
    have lc: "legal_for F schedule cur" using legal_for_sub [OF "2.prems"(4)] by (simp add: subset_iff)
    have "pure_defs_first F cur"
      using pure_defs_first_sub [of F "[]" cur "x # xs"] "2.prems"(1,3) by simp
    then have cur: "exec_insts S F (region_result schedule cur) s = exec_insts S F cur s"
      using exec_region [of cur F schedule S s] "2.prems"(1,2) lc by simp
    have "pure_defs_first F xs"
      using pure_defs_first_sub [of F "cur @ [x]" xs "[]"] "2.prems"(1,3) by simp
    then have "exec_insts S F (reorder_spec F schedule [] xs) t = exec_insts S F xs t" for t
      using "2.IH"(2) [of t] True "2.prems"(1) legal_for_sub [OF "2.prems"(4), of xs]
      by (simp add: subset_iff)
    then show ?thesis using True cur by simp
  qed
qed simp

end
