(* ===== verification/Schedule_Contract.thy ===== *)
theory Schedule_Contract
  imports Apply_Schedule Block_Semantics
begin

text \<open>
  The contract between \<open>listSchedule\<close> and its clients \<open>applySchedule\<close> and
  \<open>applyLocalSchedule\<close>: what a schedule of a scope (a trace or a block) promises, and what
  follows for the blocks that are reordered by it.  Both ways in which the code obtains a
  schedule, from a trace's graph and from a block's graph, are interpretations.
\<close>

locale schedule_source =
  fixes admissible :: "func \<Rightarrow> 'k \<Rightarrow> bool" and produces :: "func \<Rightarrow> 'k \<Rightarrow> iid list \<Rightarrow> bool"
    and scope :: "func \<Rightarrow> 'k \<Rightarrow> iid list"
  assumes produced_distinct: "admissible F k \<Longrightarrow> produces F k s \<Longrightarrow> distinct s"
    and produced_scope: "admissible F k \<Longrightarrow> produces F k s \<Longrightarrow> set s \<subseteq> set (scope F k)"
    and produced_plain: "admissible F k \<Longrightarrow> produces F k s \<Longrightarrow> i \<in> set s \<Longrightarrow> \<not> is_term F i \<and> \<not> is_phi F i"
    and produced_order: "admissible F k \<Longrightarrow> produces F k s \<Longrightarrow> d \<in> set s \<Longrightarrow> u \<in> set s \<Longrightarrow>
      Inst d \<in> set (operands F u) \<Longrightarrow> precedes s d u"
begin

lemma order_ok: "admissible F k \<Longrightarrow> produces F k s \<Longrightarrow> order_ok F s"
  by (simp add: order_ok_def produced_distinct produced_order)

text \<open>The functions a client works on differ from \<open>F\<close> in the positions of instructions.\<close>

lemma keeps_ssa:
  assumes "admissible F k" "produces F k s" and fr: "same_frame F G"
    and "dist_func G" "b \<in> set (f_blocks G)" "ssa G"
  shows "ssa (reorderBlockWithinRegions s G b)"
  by (rule ssa_reorder) (use order_ok [OF assms(1,2)] order_ok_frame [OF fr] assms(4-6) in auto)

lemma legal: "admissible F k \<Longrightarrow> produces F k s \<Longrightarrow> same_frame F G \<Longrightarrow> legal_for G s xs"
  by (auto simp: legal_for_def produced_distinct same_frame_queries intro: produced_order)

lemma keeps_meaning:
  assumes "admissible F k" "produces F k s" "same_frame F G" "dist_func G" "b \<in> set (f_blocks G)"
    and "pure_defs_first G (f_body G b)"
  shows "exec_insts S G (f_body (reorderBlockWithinRegions s G b) b) st = exec_insts S G (f_body G b) st"
  using exec_reorder_spec [of "[]" "f_body G b" G s] legal [OF assms(1-3)] dist_func_body [OF assms(4,5)] assms(6)
  by (simp add: reorderBlock_body [OF assms(4,5)])

end

section \<open>Schedules of graphs\<close>

text \<open>A schedule of a graph that holds the dependences of distinct instructions.\<close>

lemma schedule_of_graph:
  assumes gr: "graph_of (getDelay F) dep xs g" and z: "\<forall>n < length g. dn_cp (g ! n) = 0" and xs: "distinct xs"
    and run: "listSchedule c (computeCriticalPath g) live peak = Some st"
  shows "distinct (ss_schedule st)" "set (ss_schedule st) \<subseteq> set xs"
    "i \<in> set (ss_schedule st) \<Longrightarrow> \<not> is_term (sc_func c) i \<and> \<not> is_phi (sc_func c) i"
    "i \<in> set xs \<Longrightarrow> j \<in> set (ss_schedule st) \<Longrightarrow> dep i j \<Longrightarrow> precedes (ss_schedule st) i j"
proof -
  have gr': "graph_of (getDelay F) dep xs (computeCriticalPath g)" by (rule graph_of_critical [OF gr])
  then have wf: "wf_ddg (computeCriticalPath g)" by (simp add: graph_of_def)
  have "\<And>i. 0 \<le> getDelay F i" using getDelay_bounds by (meson order_trans zero_le_one)
  then have cp: "\<forall>n < length (computeCriticalPath g). 0 \<le> dn_cp (computeCriticalPath g ! n)"
    by (rule graph_of_cp_nonneg [OF gr _ z])
  obtain don st' where "listSchedule c (computeCriticalPath g) live peak = Some st'"
      "sched_inv c (computeCriticalPath g) don st'"
    using listSchedule_result [OF wf cp] by metis
  then have inv: "sched_inv c (computeCriticalPath g) don st" using run by simp
  show "distinct (ss_schedule st)" "set (ss_schedule st) \<subseteq> set xs"
    "i \<in> set (ss_schedule st) \<Longrightarrow> \<not> is_term (sc_func c) i \<and> \<not> is_phi (sc_func c) i"
    "i \<in> set xs \<Longrightarrow> j \<in> set (ss_schedule st) \<Longrightarrow> dep i j \<Longrightarrow> precedes (ss_schedule st) i j"
    using schedule_sound [OF gr' xs inv] by auto
qed

lemma schedule_exists:
  assumes gr: "graph_of (getDelay F) dep xs g" and z: "\<forall>n < length g. dn_cp (g ! n) = 0"
  shows "\<exists>st. listSchedule c (computeCriticalPath g) live peak = Some st"
proof -
  have gr': "graph_of (getDelay F) dep xs (computeCriticalPath g)" by (rule graph_of_critical [OF gr])
  have "\<And>i. 0 \<le> getDelay F i" using getDelay_bounds by (meson order_trans zero_le_one)
  then have "\<forall>n < length (computeCriticalPath g). 0 \<le> dn_cp (computeCriticalPath g ! n)"
    by (rule graph_of_cp_nonneg [OF gr _ z])
  then show ?thesis using listSchedule_result gr' by (metis graph_of_def)
qed

text \<open>A schedule for a trace, made while the function is \<open>G\<close>, from the graph of \<open>F\<close>.\<close>

definition trace_schedule :: "func \<Rightarrow> bid list \<Rightarrow> iid list \<Rightarrow> bool" where
  "trace_schedule F trace s \<longleftrightarrow> (\<exists>c live peak st. same_frame F (sc_func c) \<and>
     listSchedule c (computeCriticalPath (trace_ddg F trace)) live peak = Some st \<and> s = ss_schedule st)"

definition block_schedule :: "func \<Rightarrow> bid \<Rightarrow> iid list \<Rightarrow> bool" where
  "block_schedule F b s \<longleftrightarrow> (\<exists>c live peak st. same_frame F (sc_func c) \<and>
     listSchedule c (computeCriticalPath (buildLocalDDG F b)) live peak = Some st \<and> s = ss_schedule st)"

interpretation tracesched: schedule_source "\<lambda>F trace. distinct (insts_of F trace)" trace_schedule trace_insts
proof
  fix F trace s assume d: "distinct (insts_of F trace)" and "trace_schedule F trace s"
  then obtain c live peak st where fr: "same_frame F (sc_func c)" and
    run: "listSchedule c (computeCriticalPath (trace_ddg F trace)) live peak = Some st" and s: "s = ss_schedule st"
    by (auto simp: trace_schedule_def)
  have dx: "distinct (trace_insts F trace)" using d by simp
  note facts = schedule_of_graph [OF trace_ddg_graph [OF d] trace_ddg_fresh [OF d] dx run]
  show "distinct s" "set s \<subseteq> set (trace_insts F trace)" using facts s by auto
  show plain: "\<not> is_term F i \<and> \<not> is_phi F i" if "i \<in> set s" for i
    using facts(3) that s same_frame_queries [OF fr] by auto
  show "precedes s e u" if "e \<in> set s" "u \<in> set s" "Inst e \<in> set (operands F u)" for e u
    using facts(2) facts(4) [of e u] that s plain unfolding trace_dep_def by auto
qed

interpretation blocksched: schedule_source "\<lambda>F b. distinct (f_body F b)" block_schedule "f_body"
proof
  fix F b s assume d: "distinct (f_body F b)" and "block_schedule F b s"
  then obtain c live peak st where fr: "same_frame F (sc_func c)" and
    run: "listSchedule c (computeCriticalPath (buildLocalDDG F b)) live peak = Some st" and s: "s = ss_schedule st"
    by (auto simp: block_schedule_def)
  note facts = schedule_of_graph [OF local_ddg_graph [OF d] local_ddg_fresh [OF d] d run]
  show "distinct s" "set s \<subseteq> set (f_body F b)" using facts s by auto
  show "\<not> is_term F i \<and> \<not> is_phi F i" if "i \<in> set s" for i
    using facts(3) that s same_frame_queries [OF fr] by auto
  show "precedes s e u" if "e \<in> set s" "u \<in> set s" "Inst e \<in> set (operands F u)" for e u
    using facts(2) facts(4) [of e u] that s unfolding local_dep_def by auto
qed

text \<open>SSA gives the order of definitions inside reachable blocks.\<close>

lemma ssa_pure_defs_first:
  assumes "dist_func F" "ssa F" "b \<in> set (f_blocks F)" "reachable F b"
  shows "pure_defs_first F (f_body F b)"
  unfolding pure_defs_first_def
proof (intro ballI impI)
  fix u d assume u: "u \<in> set (f_body F b)" and d: "d \<in> set (f_body F b)"
    and a: "\<not> isSchedulingAnchor F u" and op: "Inst d \<in> set (operands F u)"
  have "\<not> is_phi F u" using a by (simp add: isSchedulingAnchor_def)
  then have "inst_dominates F d u" using ssa_operand [OF assms(2-4) u _ op] by blast
  then obtain bd where "bd \<in> set (f_blocks F)" "d \<in> set (f_body F bd)" "bd = b \<Longrightarrow> precedes (f_body F b) d u"
    using inst_dominatesE [OF _ assms(1,3) u] by metis
  moreover have "bd = b" using dist_same_block [OF assms(1)] calculation(1,2) assms(3) d by blast
  ultimately show "precedes (f_body F b) d u" by blast
qed

end
