(* ===== verification/Local_Scheduler.thy ===== *)
theory Local_Scheduler
  imports Schedule_Contract
begin

text \<open>
  \<open>include/localScheduler.hpp\<close>: every basic block is scheduled on its own and reordered
  inside its regions.  The state threaded through the blocks is the function and the peak
  pressure that \<open>listSchedule\<close> accumulates.
\<close>

record local_ctx =
  lc_index :: "val \<Rightarrow> nat option"     \<comment> \<open>\<open>universeIndex\<close>\<close>
  lc_live :: live_map                 \<comment> \<open>\<open>livenessResult\<close>\<close>
  lc_stats :: bool                    \<comment> \<open>\<open>schedStatsEnabled()\<close>\<close>

definition applyLocalSchedule :: "iid list \<Rightarrow> func \<Rightarrow> bid \<Rightarrow> func" where
  "applyLocalSchedule schedule F b = reorderBlockWithinRegions schedule F b"

text \<open>\<open>listSchedule\<close> is called with the default \<open>useRegPressure = true\<close>.\<close>

definition local_block :: "local_ctx \<Rightarrow> func \<Rightarrow> bid \<Rightarrow> nat \<Rightarrow> (func \<times> nat) option" where
  "local_block lc F b peak =
     (let ddg = computeCriticalPath (buildLocalDDG F b);
          currentLive = l_in (live_at (lc_live lc) b);
          c = \<lparr>sc_func = F, sc_index = lc_index lc, sc_live = lc_live lc, sc_pressure = True, sc_stats = lc_stats lc\<rparr>
      in case listSchedule c ddg currentLive peak of None \<Rightarrow> None
         | Some st \<Rightarrow> Some (applyLocalSchedule (ss_schedule st) F b, ss_peak st))"

fun local_blocks :: "local_ctx \<Rightarrow> func \<Rightarrow> nat \<Rightarrow> bid list \<Rightarrow> (func \<times> nat) option" where
  "local_blocks lc F peak [] = Some (F, peak)"
| "local_blocks lc F peak (b # bs) = (case local_block lc F b peak of None \<Rightarrow> None
     | Some (G, peak') \<Rightarrow> local_blocks lc G peak' bs)"

definition runLocalScheduler :: "local_ctx \<Rightarrow> func \<Rightarrow> nat \<Rightarrow> (func \<times> nat) option" where
  "runLocalScheduler lc F peak = local_blocks lc F peak (f_blocks F)"

section \<open>One block\<close>

lemma local_block_result:
  assumes d: "dist_func F" and b: "b \<in> set (f_blocks F)"
  obtains s G peak' where "local_block lc F b peak = Some (G, peak')" "block_schedule F b s"
    "G = reorderBlockWithinRegions s F b" "same_insts F G"
proof -
  let ?c = "\<lparr>sc_func = F, sc_index = lc_index lc, sc_live = lc_live lc, sc_pressure = True, sc_stats = lc_stats lc\<rparr>"
  have db: "distinct (f_body F b)" by (rule dist_func_body [OF d b])
  obtain st where st: "listSchedule ?c (computeCriticalPath (buildLocalDDG F b)) (l_in (live_at (lc_live lc) b)) peak = Some st"
    using schedule_exists [OF local_ddg_graph [OF db] local_ddg_fresh [OF db]] by blast
  have "block_schedule F b (ss_schedule st)"
    unfolding block_schedule_def using st by (intro exI [of _ ?c]) auto
  then show thesis
    using that st reorderBlock_same_insts [OF d b] by (simp add: local_block_def Let_def applyLocalSchedule_def)
qed

section \<open>All blocks\<close>

text \<open>An invariant of one block's step is an invariant of the pass, which always returns.\<close>

lemma local_blocks_invariant:
  assumes d: "dist_func F" and bs: "set bs \<subseteq> set (f_blocks F)" and "P F"
    and step: "\<And>G b s. same_insts F G \<Longrightarrow> b \<in> set bs \<Longrightarrow> block_schedule G b s \<Longrightarrow> P G \<Longrightarrow>
      P (reorderBlockWithinRegions s G b)"
  obtains G peak' where "local_blocks lc F peak bs = Some (G, peak')" "same_insts F G" "P G"
proof -
  have "\<exists>H peak'. local_blocks lc G peak cs = Some (H, peak') \<and> same_insts F H \<and> P H"
    if "same_insts F G" "P G" "set cs \<subseteq> set bs" for G peak cs
    using that
  proof (induction cs arbitrary: G peak)
    case (Cons b cs)
    have dG: "dist_func G" by (rule same_insts_dist [OF Cons.prems(1) d])
    have bG: "b \<in> set (f_blocks G)" using Cons.prems bs by (auto simp: same_insts_def same_frame_def)
    obtain s H p where H: "local_block lc G b peak = Some (H, p)" "block_schedule G b s"
        "H = reorderBlockWithinRegions s G b" "same_insts G H"
      by (rule local_block_result [OF dG bG])
    have "P H" using step [OF Cons.prems(1) _ H(2) Cons.prems(2)] Cons.prems(3) H(3) by simp
    then show ?case
      using Cons.IH [of H p] same_insts_trans [OF Cons.prems(1) H(4)] Cons.prems(3) H(1) by simp
  qed simp
  from this [of F bs peak] show thesis using that assms(3) by auto
qed

lemma block_reorder_wf:
  assumes d: "dist_func G" and b: "b \<in> set (f_blocks G)" and c: "wf_block G c" "c \<in> set (f_blocks G)"
  shows "wf_block (reorderBlockWithinRegions s G b) c"
proof (cases "c = b")
  case True
  show ?thesis
    by (rule wf_block_reorder [OF c(1) dist_func_body [OF d c(2)], of _ s])
      (use True in \<open>simp_all add: reorderBlock_body [OF d b]\<close>)
qed (use c in \<open>simp add: reorderBlock_body [OF d b] wf_block_def is_phi_def is_term_def\<close>)

text \<open>What scheduling one block keeps of a function derived from \<open>F\<close>.\<close>

definition local_inv :: "('v, 'm) semantics \<Rightarrow> func \<Rightarrow> func \<Rightarrow> bool" where
  "local_inv S F G \<longleftrightarrow> (\<forall>c \<in> set (f_blocks F). wf_block G c) \<and> block_view G = block_view F \<and>
     (ssa F \<longrightarrow> ssa G \<and> (\<forall>c \<in> set (f_blocks F). reachable F c \<longrightarrow>
        (\<forall>st. exec_insts S F (f_body G c) st = exec_insts S F (f_body F c) st)))"

lemma local_inv_step:
  assumes d: "dist_func F" and g: "same_insts F G" "b \<in> set (f_blocks F)" "block_schedule G b s" "local_inv S F G"
  shows "local_inv S F (reorderBlockWithinRegions s G b)"
proof -
  let ?H = "reorderBlockWithinRegions s G b"
  have fr: "same_frame F G" using g(1) by (simp add: same_insts_def)
  have dG: "dist_func G" and bG: "b \<in> set (f_blocks G)" and fb: "f_blocks G = f_blocks F" and fi: "f_inst G = f_inst F"
    using same_insts_dist [OF g(1) d] g(1,2) by (auto simp: same_insts_def same_frame_def)
  have db: "distinct (f_body G b)" by (rule dist_func_body [OF dG bG])
  have "ssa ?H" if "ssa G" using blocksched.keeps_ssa [OF db g(3) same_frame_refl dG bG that] .
  moreover have "exec_insts S F (f_body ?H c) st = exec_insts S F (f_body G c) st"
    if "ssa G" "reachable F c" for c st
  proof (cases "c = b")
    case True
    then have "pure_defs_first G (f_body G b)"
      using ssa_pure_defs_first [OF dG that(1) bG] that(2) reachable_cfg [OF fr] by simp
    then show ?thesis
      using blocksched.keeps_meaning [OF db g(3) same_frame_refl dG bG, of S st] True exec_insts_frame [OF fi, of S] by simp
  qed (simp add: reorderBlock_body [OF dG bG])
  ultimately show ?thesis
    using g(4) block_reorder_wf [OF dG bG] reorder_block_view [OF dG bG] fb unfolding local_inv_def by simp
qed

lemma runLocalScheduler_keeps:
  assumes wf: "wf_func F"
  obtains G peak' where "runLocalScheduler lc F peak = Some (G, peak')" "same_insts F G" "wf_func G" "local_inv S F G"
proof -
  note d = wf_dist_func [OF wf]
  have "local_inv S F F" using wf by (simp add: wf_func_def local_inv_def)
  then obtain G peak' where G: "local_blocks lc F peak (f_blocks F) = Some (G, peak')" "same_insts F G" "local_inv S F G"
    using local_blocks_invariant [OF d subset_refl, of "local_inv S F" lc peak] local_inv_step [OF d] by blast
  have "wf_func G" by (rule same_insts_wf [OF G(2) wf]) (use G(3) in \<open>simp add: local_inv_def\<close>)
  then show thesis using that G by (simp add: runLocalScheduler_def)
qed

end
