(* ===== verification/Examples.thy ===== *)
theory Examples
  imports Hoisting Local_Scheduler
begin

text \<open>
  Concrete functions on which the properties are applied.  \<open>diamond\<close> is
  \<open>0 \<rightarrow> 1, 2 \<rightarrow> 3\<close>: the entry loads a value and computes a product, block 1 computes on
  it, block 2 stores, block 3 merges with a PHI and returns; \<open>countdown\<close> has a loop.
\<close>

definition mk_instr :: "iclass \<Rightarrow> val list \<Rightarrow> instr" where
  "mk_instr k ops = \<lparr>i_class = k, i_operands = ops, i_incoming = [], i_name = [], i_void = False,
     i_token = False, i_term = False, i_ehpad = False, i_rwmem = False, i_effects = False\<rparr>"

definition mk_term :: "val list \<Rightarrow> instr" where
  "mk_term ops = (mk_instr OtherInst ops)\<lparr>i_void := True, i_term := True\<rparr>"

definition diamond_inst :: "iid \<Rightarrow> instr" where
  "diamond_inst i =
     (if i = 0 then (mk_instr LoadInst [Arg 0])\<lparr>i_rwmem := True\<rparr>
      else if i = 1 then mk_instr (BinaryOperator OtherOp) [Inst 0, Arg 1]
      else if i = 2 then mk_instr (BinaryOperator Mul) [Arg 1, Arg 1]
      else if i = 3 then mk_instr OtherInst [Inst 1, Other 0]
      else if i = 4 then mk_term [Inst 3]
      else if i = 5 then mk_instr (BinaryOperator OtherOp) [Inst 0, Arg 1]
      else if i = 6 then mk_instr (BinaryOperator Mul) [Inst 5, Inst 2]
      else if i = 7 then mk_term []
      else if i = 8 then (mk_instr StoreInst [Inst 1, Arg 0])\<lparr>i_void := True, i_rwmem := True, i_effects := True\<rparr>
      else if i = 9 then mk_term []
      else if i = 10 then (mk_instr PHINode [Inst 6, Arg 1])\<lparr>i_incoming := [1, 2]\<rparr>
      else if i = 11 then mk_instr (BinaryOperator OtherOp) [Inst 10, Inst 0]
      else mk_term [Inst 11])"

definition diamond :: func where
  "diamond = \<lparr>f_args = [0, 1], f_blocks = [0, 1, 2, 3],
     f_body = (\<lambda>b. if b = 0 then [0, 1, 2, 3, 4] else if b = 1 then [5, 6, 7] else if b = 2 then [8, 9]
        else if b = 3 then [10, 11, 12] else []),
     f_inst = diamond_inst,
     f_succs = (\<lambda>b. if b = 0 then [1, 2] else if b = 1 then [3] else if b = 2 then [3] else []),
     f_preds = (\<lambda>b. if b = 1 then [0] else if b = 2 then [0] else if b = 3 then [1, 2] else [])\<rparr>"

section \<open>Checking SSA and dominance\<close>

text \<open>A computable approximation of dominance: the entry block dominates every block.  It is
  enough for the examples, and it makes a sound instance of the LLVM analyses.\<close>

definition entry_dom :: "func \<Rightarrow> bid \<Rightarrow> bid \<Rightarrow> bool" where
  "entry_dom F a b \<longleftrightarrow> a = b \<or> a = entry_block F"

lemma entry_dom_sound: "entry_dom F a b \<Longrightarrow> dominates F a b"
  by (auto simp: entry_dom_def intro: dominates_entry)

definition inst_check :: "func \<Rightarrow> iid \<Rightarrow> iid \<Rightarrow> bool" where
  "inst_check F d u \<longleftrightarrow> list_ex (\<lambda>bd. list_ex (\<lambda>bu. d \<in> set (f_body F bd) \<and> u \<in> set (f_body F bu) \<and>
     (if bd = bu then precedes (f_body F bu) d u else entry_dom F bd bu)) (f_blocks F)) (f_blocks F)"

lemma inst_check_sound: "inst_check F d u \<Longrightarrow> inst_dominates F d u"
  unfolding inst_check_def inst_dominates_def list_ex_iff using entry_dom_sound by fastforce

definition use_check :: "func \<Rightarrow> iid \<Rightarrow> bool" where
  "use_check F u \<longleftrightarrow> (if is_phi F u
     then list_all (\<lambda>(v, p). case v of Inst d \<Rightarrow>
        list_ex (\<lambda>bd. d \<in> set (f_body F bd) \<and> entry_dom F bd p) (f_blocks F) | _ \<Rightarrow> True)
        (zip (operands F u) (i_incoming (f_inst F u)))
     else list_all (\<lambda>v. case v of Inst d \<Rightarrow> inst_check F d u | _ \<Rightarrow> True) (operands F u))"

lemma use_check_sound: assumes "use_check F u" shows "ssa_use F u"
proof (cases "is_phi F u")
  case True
  have "\<exists>bd \<in> set (f_blocks F). d \<in> set (f_body F bd) \<and> dominates F bd p"
    if "(Inst d, p) \<in> set (zip (operands F u) (i_incoming (f_inst F u)))" for d p
    using assms that True entry_dom_sound unfolding use_check_def list_all_iff list_ex_iff by fastforce
  then show ?thesis using True by (auto simp: ssa_use_def)
next
  case False
  have "inst_dominates F d u" if "Inst d \<in> set (operands F u)" for d
    using assms that False inst_check_sound unfolding use_check_def list_all_iff by fastforce
  then show ?thesis using False by (simp add: ssa_use_def)
qed

lemma ssa_check: "list_all (use_check F) (all_insts F) \<Longrightarrow> ssa F"
  unfolding ssa_def list_all_iff by (auto simp: set_insts_of intro: use_check_sound)

definition coarse_analyses :: "func \<Rightarrow> (bid \<Rightarrow> bool) \<Rightarrow> (bid \<Rightarrow> nat option) \<Rightarrow> analyses" where
  "coarse_analyses F headers loops = \<lparr>an_dom = entry_dom F, an_dom_inst = inst_check,
     an_loop_header = headers, an_loop_for = loops, an_safe = (\<lambda>_ _ _. True)\<rparr>"

lemma coarse_sound: "dom_sound (coarse_analyses F headers loops) F"
  by (auto simp: dom_sound_def coarse_analyses_def dest: entry_dom_sound inst_check_sound)

section \<open>The diamond\<close>

definition no_loops :: "func \<Rightarrow> analyses" where
  "no_loops F = coarse_analyses F (\<lambda>_. False) (\<lambda>_. None)"

text \<open>The index and the liveness result of the diamond, as tables.\<close>

definition bits :: "nat list \<Rightarrow> bitvec" where
  "bits ks = map (\<lambda>k. k \<in> set ks) [0..<10]"

definition diamond_index :: "val \<Rightarrow> nat option" where
  "diamond_index = map_of [(Arg 0, 0), (Arg 1, 1), (Inst 0, 2), (Inst 1, 3), (Inst 2, 4), (Inst 3, 5),
     (Inst 5, 6), (Inst 6, 7), (Inst 10, 8), (Inst 11, 9)]"

definition diamond_live :: live_map where
  "diamond_live = map_of
     [(0, \<lparr>l_in = bits [0, 1, 7], l_out = bits [0, 1, 2, 3, 4, 7], l_use = bits [0, 1], l_def = bits [2, 3, 4, 5]\<rparr>),
      (1, \<lparr>l_in = bits [1, 2, 4], l_out = bits [1, 2, 7], l_use = bits [1, 2, 4], l_def = bits [6, 7]\<rparr>),
      (2, \<lparr>l_in = bits [0, 1, 2, 3, 7], l_out = bits [1, 2, 7], l_use = bits [0, 3], l_def = bits []\<rparr>),
      (3, \<lparr>l_in = bits [1, 2, 7], l_out = bits [], l_use = bits [1, 2, 7], l_def = bits [8, 9]\<rparr>)]"

lemma diamond_liveness:
  "map_option (\<lambda>st. map st [0, 1, 2, 3]) (computeLiveness diamond) = Some (map diamond_live [0, 1, 2, 3])"
  by code_simp

lemma diamond_indexing:
  "map (buildValueIndex (universe diamond)) (universe diamond) = map diamond_index (universe diamond)"
  by code_simp

definition diamond_ctx :: hoist_ctx where
  "diamond_ctx = \<lparr>hc_an = no_loops diamond, hc_trace = [0, 1, 3], hc_index = diamond_index,
     hc_live = diamond_live, hc_pressure = True, hc_budget = 12, hc_stats = True\<rparr>"

definition diamond_schedule :: "iid list" where
  "diamond_schedule = [0, 2, 5, 6, 1, 11, 3]"

lemma diamond_wf: "wf_func diamond"
  by code_simp

lemma diamond_ssa: "ssa diamond"
  by (rule ssa_check) code_simp

lemma diamond_sound: "dom_sound (no_loops diamond) diamond"
  by (simp add: no_loops_def coarse_sound)

lemma diamond_apply_ok: "apply_ok diamond_ctx diamond_schedule diamond"
  by code_simp

section \<open>A pair of blocks\<close>

text \<open>\<open>0 \<rightarrow> 1\<close>: block 1 adds the arguments and returns the sum.\<close>

definition pair_inst :: "iid \<Rightarrow> instr" where
  "pair_inst i = (if i = 0 then mk_term [] else if i = 1 then mk_instr (BinaryOperator OtherOp) [Arg 0, Arg 1]
     else mk_term [Inst 1])"

definition pair :: func where
  "pair = \<lparr>f_args = [0, 1], f_blocks = [0, 1], f_body = (\<lambda>b. if b = 0 then [0] else if b = 1 then [1, 2] else []),
     f_inst = pair_inst, f_succs = (\<lambda>b. if b = 0 then [1] else []), f_preds = (\<lambda>b. if b = 1 then [0] else [])\<rparr>"

definition pair_live :: live_map where
  "pair_live = map_of
     [(0, \<lparr>l_in = [True, True, False], l_out = [True, True, False], l_use = [False, False, False], l_def = [False, False, False]\<rparr>),
      (1, \<lparr>l_in = [True, True, False], l_out = [False, False, False], l_use = [True, True, False], l_def = [False, False, True]\<rparr>)]"

lemma pair_liveness: "map_option (\<lambda>st. map st [0, 1]) (computeLiveness pair) = Some (map pair_live [0, 1])"
  by code_simp

definition pair_ctx :: "int \<Rightarrow> hoist_ctx" where
  "pair_ctx budget = \<lparr>hc_an = no_loops pair, hc_trace = [0, 1], hc_index = map_of [(Arg 0, 0), (Arg 1, 1), (Inst 1, 2)],
     hc_live = pair_live, hc_pressure = True, hc_budget = budget, hc_stats = True\<rparr>"

lemma pair_wf: "wf_func pair"
  by code_simp

lemma pair_ssa: "ssa pair"
  by (rule ssa_check) code_simp

lemma pair_sound: "dom_sound (no_loops pair) pair"
  by (simp add: no_loops_def coarse_sound)

lemma pair_apply_ok: "apply_ok (pair_ctx n) [1] pair"
  by (simp add: apply_ok_def order_ok_def pair_ctx_def pair_def pair_inst_def operands_def mk_instr_def)

text \<open>With a budget of 12 the sum is hoisted, with a budget of 0 it stays.\<close>

lemma pair_hoisted:
  "(case applySchedule (pair_ctx 12) [1] pair resetHoistStats of (G, st) \<Rightarrow> (map (f_body G) [0, 1], hs_done st)) =
     ([[1, 0], [2]], 1)"
  by code_simp

lemma pair_blocked:
  "(case applySchedule (pair_ctx 0) [1] pair resetHoistStats of (G, st) \<Rightarrow>
      (map (f_body G) [0, 1], hs_done st, hs_blockedPressure st)) = ([[0], [1, 2]], 0, 1)"
  by code_simp

section \<open>A loop\<close>

text \<open>\<open>0 \<rightarrow> 1\<close>, and block 1 goes back to itself or on to 2: it merges a counter with a PHI,
  decrements it, loads, multiplies and branches on the product.\<close>

definition countdown_inst :: "iid \<Rightarrow> instr" where
  "countdown_inst i =
     (if i = 0 then mk_term []
      else if i = 1 then (mk_instr PHINode [Arg 0, Inst 2])\<lparr>i_incoming := [0, 1]\<rparr>
      else if i = 2 then mk_instr (BinaryOperator OtherOp) [Inst 1, Other 1]
      else if i = 3 then (mk_instr LoadInst [Arg 1])\<lparr>i_rwmem := True\<rparr>
      else if i = 4 then mk_instr (BinaryOperator Mul) [Arg 0, Arg 1]
      else if i = 5 then mk_instr (BinaryOperator SDiv) [Arg 1, Inst 3]
      else if i = 6 then mk_term [Inst 2, Inst 4, Inst 5]
      else mk_term [Arg 0])"

definition countdown :: func where
  "countdown = \<lparr>f_args = [0, 1], f_blocks = [0, 1, 2],
     f_body = (\<lambda>b. if b = 0 then [0] else if b = 1 then [1, 2, 3, 4, 5, 6] else if b = 2 then [7] else []),
     f_inst = countdown_inst, f_succs = (\<lambda>b. if b = 0 then [1] else if b = 1 then [1, 2] else []),
     f_preds = (\<lambda>b. if b = 1 then [0, 1] else if b = 2 then [1] else [])\<rparr>"

lemma countdown_wf: "wf_func countdown"
  by code_simp

lemma countdown_ssa: "ssa countdown"
  by (rule ssa_check) code_simp

end
