(* ===== verification/Trace_Identification.thy ===== *)
theory Trace_Identification
  imports CFG Config
begin

text \<open>
  \<open>include/traceIdentification.hpp\<close>: hot traces through the CFG.  Edge probabilities (BPI)
  and block frequencies (BFI) are parameters of the context; probabilities are their
  numerators over LLVM's common denominator, so \<open>getZero\<close> is 0 and comparisons are those
  of natural numbers.  The loops return \<open>None\<close> if they do not end, which is shown not to
  happen on well-formed functions.
\<close>

section \<open>Statistics and the breadth-first index\<close>

record trace_stats =
  ts_above :: nat     \<comment> \<open>\<open>edgesAboveThreshold\<close>\<close>
  ts_below :: nat     \<comment> \<open>\<open>edgesBelowThreshold\<close>\<close>
  ts_back :: nat      \<comment> \<open>\<open>backedgesSkipped\<close>\<close>

definition trace_stats0 :: trace_stats where
  "trace_stats0 = \<lparr>ts_above = 0, ts_below = 0, ts_back = 0\<rparr>"

text \<open>\<open>bfsIndex\<close>: a map with its size.\<close>

type_synonym bfs_index = "(bid \<Rightarrow> nat option) \<times> nat"

definition bi_insert :: "bfs_index \<Rightarrow> bid \<Rightarrow> nat \<Rightarrow> bfs_index" where
  "bi_insert ix b k = ((fst ix)(b \<mapsto> k), if fst ix b = None then Suc (snd ix) else snd ix)"

definition bfs_push :: "bid list \<times> bfs_index \<Rightarrow> bid \<Rightarrow> bid list \<times> bfs_index" where
  "bfs_push oi succ = (if fst (snd oi) succ = None
     then (fst oi @ [succ], bi_insert (snd oi) succ (length (fst oi))) else oi)"

definition bfs_indexed :: "func \<Rightarrow> (bid list \<times> bfs_index) option" where
  "bfs_indexed F = map_option snd
     (while_option (\<lambda>(i, order, ix). i < length order)
       (\<lambda>(i, order, ix). (Suc i, foldl bfs_push (order, ix) (f_succs F (order ! i))))
       (0, [entry_block F], bi_insert (Map.empty, 0) (entry_block F) 0))"

definition bfsPos :: "bfs_index \<Rightarrow> bid \<Rightarrow> nat" where
  "bfsPos ix b = (case fst ix b of Some k \<Rightarrow> k | None \<Rightarrow> snd ix)"

section \<open>Growing a trace\<close>

record trace_ctx =
  tc_func :: func
  tc_prob :: "bid \<Rightarrow> bid \<Rightarrow> nat"      \<comment> \<open>\<open>BPI.getEdgeProbability\<close>\<close>
  tc_freq :: "bid \<Rightarrow> nat"             \<comment> \<open>\<open>BFI.getBlockFreq\<close>\<close>
  tc_threshold :: nat                \<comment> \<open>\<open>getTraceThreshold()\<close>\<close>
  tc_stats :: bool                   \<comment> \<open>\<open>schedStatsEnabled()\<close>\<close>
  tc_index :: bfs_index              \<comment> \<open>\<open>bfsIndex\<close>\<close>

text \<open>One candidate of the loops of \<open>bestSuccessor\<close> and \<open>bestPredecessor\<close>, which differ in
  the probability asked for and in the back-edge test.\<close>

type_synonym edge_state = "bid option \<times> nat \<times> trace_stats"

definition edge_step :: "trace_ctx \<Rightarrow> bid set \<Rightarrow> (bid \<Rightarrow> nat) \<Rightarrow> (bid \<Rightarrow> bool) \<Rightarrow> edge_state \<Rightarrow> bid \<Rightarrow> edge_state" where
  "edge_step c visited prob back s n = (case s of (best, bestProb, st) \<Rightarrow>
     (if n \<in> visited then (best, bestProb, st)
      else if prob n \<le> tc_threshold c
      then (best, bestProb, if tc_stats c then st\<lparr>ts_below := ts_below st + 1\<rparr> else st)
      else (let st1 = (if tc_stats c then st\<lparr>ts_above := ts_above st + 1\<rparr> else st)
            in if back n
               then (best, bestProb, if tc_stats c then st1\<lparr>ts_back := ts_back st1 + 1\<rparr> else st1)
               else if prob n > bestProb then (Some n, prob n, st1)
               else (best, bestProb, st1))))"

definition bestSuccessor :: "trace_ctx \<Rightarrow> bid \<Rightarrow> bid set \<Rightarrow> trace_stats \<Rightarrow> bid option \<times> trace_stats" where
  "bestSuccessor c BB visited st =
     (case foldl (edge_step c visited (\<lambda>succ. tc_prob c BB succ) (\<lambda>succ. bfsPos (tc_index c) succ < bfsPos (tc_index c) BB))
             (None, 0, st) (f_succs (tc_func c) BB) of (best, _, st') \<Rightarrow> (best, st'))"

definition bestPredecessor :: "trace_ctx \<Rightarrow> bid \<Rightarrow> bid set \<Rightarrow> trace_stats \<Rightarrow> bid option \<times> trace_stats" where
  "bestPredecessor c BB visited st =
     (case foldl (edge_step c visited (\<lambda>pred. tc_prob c pred BB) (\<lambda>pred. bfsPos (tc_index c) pred > bfsPos (tc_index c) BB))
             (None, 0, st) (f_preds (tc_func c) BB) of (best, _, st') \<Rightarrow> (best, st'))"

partial_function (option) grow_forward ::
    "trace_ctx \<Rightarrow> bid \<Rightarrow> bid list \<Rightarrow> bid set \<Rightarrow> trace_stats \<Rightarrow> (bid list \<times> bid set \<times> trace_stats) option" where
  "grow_forward c current trace visited st =
     (case bestSuccessor c current visited st of
        (None, st') \<Rightarrow> Some (trace, visited, st')
      | (Some n, st') \<Rightarrow> grow_forward c n (trace @ [n]) (insert n visited) st')"

partial_function (option) grow_backward ::
    "trace_ctx \<Rightarrow> bid \<Rightarrow> bid list \<Rightarrow> bid set \<Rightarrow> trace_stats \<Rightarrow> (bid list \<times> bid set \<times> trace_stats) option" where
  "grow_backward c current trace visited st =
     (case bestPredecessor c current visited st of
        (None, st') \<Rightarrow> Some (trace, visited, st')
      | (Some n, st') \<Rightarrow> grow_backward c n (n # trace) (insert n visited) st')"

declare grow_forward.simps [code] grow_backward.simps [code]

definition grow_trace :: "trace_ctx \<Rightarrow> bid \<Rightarrow> bid set \<Rightarrow> trace_stats \<Rightarrow> (bid list \<times> bid set \<times> trace_stats) option" where
  "grow_trace c seed visited st =
     (case grow_forward c seed [seed] (insert seed visited) st of None \<Rightarrow> None
      | Some (trace, visited', st') \<Rightarrow> grow_backward c seed trace visited' st')"

section \<open>Seeds and the whole function\<close>

text \<open>\<open>std::stable_sort\<close> by descending frequency.\<close>

definition byFreqDesc :: "(bid \<Rightarrow> nat) \<Rightarrow> bid list \<Rightarrow> bid list" where
  "byFreqDesc freq order = sort_key (\<lambda>b. - int (freq b)) order"

function advance :: "bid list \<Rightarrow> bid set \<Rightarrow> nat \<Rightarrow> nat" where
  "advance bs visited k = (if k < length bs \<and> bs ! k \<in> visited then advance bs visited (Suc k) else k)"
  by auto
termination by (relation "measure (\<lambda>(bs, _, k). length bs - k)") auto

declare advance.simps [simp del]

definition seed_at :: "trace_ctx \<Rightarrow> bid list \<Rightarrow> nat \<Rightarrow> bid option" where
  "seed_at c bs k = (if k < length bs then (if tc_freq c (bs ! k) = 0 then None else Some (bs ! k)) else None)"

partial_function (option) trace_loop ::
    "trace_ctx \<Rightarrow> bid list \<Rightarrow> nat \<Rightarrow> bid set \<Rightarrow> bid list list \<Rightarrow> trace_stats \<Rightarrow> (bid list list \<times> trace_stats) option" where
  "trace_loop c bs seedCursor visited traces st =
     (let k = advance bs visited seedCursor
      in case seed_at c bs k of
           None \<Rightarrow> Some (traces, st)
         | Some seed \<Rightarrow> (case grow_trace c seed visited st of
              None \<Rightarrow> None
            | Some (trace, visited', st') \<Rightarrow> trace_loop c bs k visited' (traces @ [trace]) st'))"

declare trace_loop.simps [code]

definition identifyTraces :: "func \<Rightarrow> (bid \<Rightarrow> bid \<Rightarrow> nat) \<Rightarrow> (bid \<Rightarrow> nat) \<Rightarrow> nat \<Rightarrow> bool \<Rightarrow> trace_stats \<Rightarrow>
    (bid list list \<times> trace_stats) option" where
  "identifyTraces F prob freq threshold statsOn st =
     (case bfs_indexed F of None \<Rightarrow> None
      | Some (order, ix) \<Rightarrow>
          trace_loop \<lparr>tc_func = F, tc_prob = prob, tc_freq = freq, tc_threshold = threshold,
             tc_stats = statsOn, tc_index = ix\<rparr>
            (byFreqDesc freq order) 0 {} [] (if statsOn then trace_stats0 else st))"

text \<open>The report: how many traces there are of each length.  A \<open>std::map\<close> is the list of its entries by
  ascending keys; \<open>lenHist[n]++\<close> creates an entry with 0 if there is none.\<close>

fun hist_incr :: "nat \<Rightarrow> (nat \<times> nat) list \<Rightarrow> (nat \<times> nat) list" where
  "hist_incr n [] = [(n, 1)]"
| "hist_incr n ((k, c) # h) = (if n < k then (n, 1) # (k, c) # h
     else if n = k then (k, c + 1) # h else (k, c) # hist_incr n h)"

definition len_hist :: "bid list list \<Rightarrow> (nat \<times> nat) list" where
  "len_hist traces = foldl (\<lambda>h trace. hist_incr (length trace) h) [] traces"

section \<open>The index mirrors the order\<close>

definition positions :: "bid list \<Rightarrow> (bid \<Rightarrow> nat option)" where
  "positions bs = foldl (\<lambda>m i. m(bs ! i \<mapsto> i)) Map.empty [0..<length bs]"

lemma positions_snoc [simp]: "positions (bs @ [b]) = (positions bs)(b \<mapsto> length bs)"
proof -
  have "foldl (\<lambda>m i. m((bs @ [b]) ! i \<mapsto> i)) Map.empty [0..<n] = foldl (\<lambda>m i. m(bs ! i \<mapsto> i)) Map.empty [0..<n]"
    if "n \<le> length bs" for n
    using that by (induction n) (auto simp: nth_append)
  then show ?thesis by (simp add: positions_def)
qed

lemma positions_None: "positions bs b = None \<longleftrightarrow> b \<notin> set bs"
  by (induction bs rule: rev_induct) (auto simp: positions_def [of "[]"])

lemma positions_Some: "distinct bs \<Longrightarrow> positions bs b = Some k \<longleftrightarrow> k < length bs \<and> bs ! k = b"
  unfolding positions_def by (rule build_index_fold) simp_all

abbreviation index_of :: "bid list \<Rightarrow> bfs_index" where
  "index_of bs \<equiv> (positions bs, length bs)"

lemma bfs_push_index:
  "foldl bfs_push (ord, index_of ord) cs =
     (let ord' = foldl (\<lambda>ord succ. if succ \<in> set ord then ord else ord @ [succ]) ord cs in (ord', index_of ord'))"
proof (induction cs arbitrary: ord)
  case (Cons c cs)
  have "bfs_push (ord, index_of ord) c =
      (if c \<in> set ord then ord else ord @ [c], index_of (if c \<in> set ord then ord else ord @ [c]))"
    by (auto simp: bfs_push_def bi_insert_def positions_None)
  then show ?case unfolding foldl_Cons by (simp only: Cons.IH)
qed simp

lemma bfs_indexed_order: "bfs_indexed F = map_option (\<lambda>order. (order, index_of order)) (bfs_order F)"
proof -
  let ?f = "\<lambda>(i :: nat, order). (i, order, index_of order)"
  have "map_option ?f (while_option (\<lambda>(i, order). i < length order)
       (\<lambda>(i, order). (Suc i, bfs_visit F order (order ! i))) (0, [entry_block F])) =
    while_option (\<lambda>(i, order, ix). i < length order)
       (\<lambda>(i, order, ix). (Suc i, foldl bfs_push (order, ix) (f_succs F (order ! i)))) (?f (0, [entry_block F]))"
    by (rule while_option_commute) (auto simp: bfs_push_index bfs_visit_def Let_def split: prod.splits)
  moreover have "?f (0, [entry_block F]) = (0, [entry_block F], bi_insert (Map.empty, 0) (entry_block F) 0)"
    by (simp add: bi_insert_def positions_def)
  ultimately have "bfs_indexed F = map_option snd (map_option ?f (while_option (\<lambda>(i, order). i < length order)
       (\<lambda>(i, order). (Suc i, bfs_visit F order (order ! i))) (0, [entry_block F])))"
    by (simp only: bfs_indexed_def)
  then show ?thesis by (simp add: bfs_order_def option.map_comp comp_def case_prod_beta)
qed

end
