(* ===== verification/Trace_Correctness.thy ===== *)
theory Trace_Correctness
  imports Trace_Identification
begin

text \<open>
  Trace identification ends on every well-formed function, and its traces are disjoint
  increasing paths of likely edges, in order of hotness, that cover every reachable block
  with a nonzero frequency.  The seed cursor picks the seeds of a full rescan.
\<close>

section \<open>The best edge\<close>

definition admissible_edge :: "trace_ctx \<Rightarrow> bid set \<Rightarrow> (bid \<Rightarrow> nat) \<Rightarrow> (bid \<Rightarrow> bool) \<Rightarrow> bid \<Rightarrow> bool" where
  "admissible_edge c visited prob bk n \<longleftrightarrow> n \<notin> visited \<and> tc_threshold c < prob n \<and> \<not> bk n"

text \<open>The first of the most likely admissible candidates.\<close>

definition best_edge :: "(bid \<Rightarrow> bool) \<Rightarrow> (bid \<Rightarrow> nat) \<Rightarrow> bid list \<Rightarrow> bid \<Rightarrow> bool" where
  "best_edge ok prob ns n \<longleftrightarrow> ok n \<and> (\<exists>us vs. ns = us @ n # vs \<and>
     (\<forall>m \<in> set us. ok m \<longrightarrow> prob m < prob n) \<and> (\<forall>m \<in> set vs. ok m \<longrightarrow> prob m \<le> prob n))"

lemma best_edge_in: "best_edge ok prob ns n \<Longrightarrow> n \<in> set ns"
  by (auto simp: best_edge_def)

lemma best_edge_snoc:
  assumes "best_edge ok prob ns n"
  shows "ok x \<Longrightarrow> prob n < prob x \<Longrightarrow> best_edge ok prob (ns @ [x]) x"
    and "\<not> (ok x \<and> prob n < prob x) \<Longrightarrow> best_edge ok prob (ns @ [x]) n"
proof -
  obtain us vs where ns: "ns = us @ n # vs" "\<forall>m \<in> set us. ok m \<longrightarrow> prob m < prob n"
      "\<forall>m \<in> set vs. ok m \<longrightarrow> prob m \<le> prob n" and n: "ok n"
    using assms unfolding best_edge_def by blast
  show "best_edge ok prob (ns @ [x]) x" if x: "ok x" "prob n < prob x"
  proof -
    have "\<forall>m \<in> set ns. ok m \<longrightarrow> prob m < prob x" using ns x by fastforce
    then show ?thesis unfolding best_edge_def using x by (intro conjI exI [of _ ns] exI [of _ "[]"]) auto
  qed
  show "best_edge ok prob (ns @ [x]) n" if "\<not> (ok x \<and> prob n < prob x)"
    unfolding best_edge_def using ns n that by (intro conjI exI [of _ us] exI [of _ "vs @ [x]"]) auto
qed

lemma edge_fold:
  fixes c :: trace_ctx and visited :: "bid set" and prob :: "bid \<Rightarrow> nat" and bk :: "bid \<Rightarrow> bool"
  defines "ok \<equiv> admissible_edge c visited prob bk"
  assumes "foldl (edge_step c visited prob bk) (None, 0, st) ns = (best, p, st')"
  shows "case best of None \<Rightarrow> p = 0 \<and> (\<forall>n \<in> set ns. \<not> ok n) | Some n \<Rightarrow> p = prob n \<and> best_edge ok prob ns n"
  using assms(2)
proof (induction ns arbitrary: best p st' rule: rev_induct)
  case (snoc x ns)
  obtain b q s where prev: "foldl (edge_step c visited prob bk) (None, 0, st) ns = (b, q, s)"
    by (metis prod_cases3)
  have IH: "case b of None \<Rightarrow> q = 0 \<and> (\<forall>n \<in> set ns. \<not> ok n) | Some n \<Rightarrow> q = prob n \<and> best_edge ok prob ns n"
    by (rule snoc.IH [OF prev])
  have step: "(best, p) = (if ok x \<and> prob x > q then (Some x, prob x) else (b, q))"
    using snoc.prems prev unfolding ok_def admissible_edge_def edge_step_def
    by (auto simp: Let_def split: if_splits)
  show ?case
  proof (cases b)
    case None
    have "best_edge ok prob (ns @ [x]) x" if "ok x"
      unfolding best_edge_def using IH None that by (intro conjI exI [of _ ns] exI [of _ "[]"]) auto
    moreover have "0 < prob x" if "ok x" using that by (simp add: ok_def admissible_edge_def)
    ultimately show ?thesis using step IH None by (auto split: if_splits)
  next
    case (Some n)
    then show ?thesis using step IH best_edge_snoc [of ok prob ns n x] by (auto split: if_splits)
  qed
qed (simp add: ok_def)

text \<open>What is counted: every unvisited candidate is above or below the threshold.\<close>

definition edge_counts :: "trace_ctx \<Rightarrow> bid set \<Rightarrow> (bid \<Rightarrow> nat) \<Rightarrow> (bid \<Rightarrow> bool) \<Rightarrow> bid list \<Rightarrow> trace_stats \<Rightarrow> trace_stats" where
  "edge_counts c visited prob bk ns st = (if \<not> tc_stats c then st else
     st\<lparr>ts_above := ts_above st + length (filter (\<lambda>n. n \<notin> visited \<and> tc_threshold c < prob n) ns),
        ts_below := ts_below st + length (filter (\<lambda>n. n \<notin> visited \<and> prob n \<le> tc_threshold c) ns),
        ts_back := ts_back st + length (filter (\<lambda>n. n \<notin> visited \<and> tc_threshold c < prob n \<and> bk n) ns)\<rparr>)"

lemma edge_fold_counts:
  "foldl (edge_step c visited prob bk) (b, p, st) ns = (best, q, st') \<Longrightarrow> st' = edge_counts c visited prob bk ns st"
proof (induction ns arbitrary: b p st)
  case (Cons n ns)
  obtain b1 p1 s1 where step: "edge_step c visited prob bk (b, p, st) n = (b1, p1, s1)" by (metis prod_cases3)
  have rest: "foldl (edge_step c visited prob bk) (b1, p1, s1) ns = (best, q, st')" using Cons.prems step by simp
  show ?case unfolding Cons.IH [OF rest] using step
    by (auto simp: edge_step_def edge_counts_def Let_def split: if_splits)
qed (simp add: edge_counts_def)

text \<open>What a search returns.\<close>

definition best_choice :: "(bid \<Rightarrow> bool) \<Rightarrow> (bid \<Rightarrow> nat) \<Rightarrow> bid list \<Rightarrow> bid option \<Rightarrow> bool" where
  "best_choice ok prob ns r = (case r of None \<Rightarrow> (\<forall>n \<in> set ns. \<not> ok n) | Some n \<Rightarrow> best_edge ok prob ns n)"

lemma edge_search:
  assumes "r = (case foldl (edge_step c visited prob bk) (None, 0, st) ns of (best, _, st') \<Rightarrow> (best, st'))"
  shows "best_choice (admissible_edge c visited prob bk) prob ns (fst r) \<and> snd r = edge_counts c visited prob bk ns st"
proof -
  obtain best p st' where e: "foldl (edge_step c visited prob bk) (None, 0, st) ns = (best, p, st')" by (metis prod_cases3)
  show ?thesis using assms edge_fold [OF e] edge_fold_counts [OF e] by (auto simp: e best_choice_def split: option.splits)
qed

section \<open>Growing\<close>

definition trace_env :: "trace_ctx \<Rightarrow> bid list \<Rightarrow> bool" where
  "trace_env c order \<longleftrightarrow> wf_func (tc_func c) \<and> bfs_order (tc_func c) = Some order \<and> tc_index c = index_of order"

text \<open>The edges of a trace: CFG edges above the threshold that go forward in breadth-first
  order.\<close>

definition trace_edge :: "trace_ctx \<Rightarrow> bid \<Rightarrow> bid \<Rightarrow> bool" where
  "trace_edge c a b \<longleftrightarrow> cfg_edge (tc_func c) a b \<and> tc_threshold c < tc_prob c a b \<and>
     bfsPos (tc_index c) a < bfsPos (tc_index c) b"

lemma trace_env_facts:
  assumes "trace_env c order"
  shows "distinct order" "set order = {b. reachable (tc_func c) b}" "order \<noteq> []"
    "set order \<subseteq> set (f_blocks (tc_func c))"
proof -
  have wf: "wf_func (tc_func c)" and o: "bfs_order (tc_func c) = Some order" using assms by (simp_all add: trace_env_def)
  show "distinct order" "set order = {b. reachable (tc_func c) b}" "order \<noteq> []" using bfs_order_correct [OF wf o] by blast+
  then show "set order \<subseteq> set (f_blocks (tc_func c))" using reachable_block [OF wf] by auto
qed

lemma bfsPos_in:
  assumes "trace_env c order" "b \<in> set order"
  shows "bfsPos (tc_index c) b < length order" "order ! bfsPos (tc_index c) b = b"
proof -
  obtain k where "k < length order" "order ! k = b" using assms(2) by (auto simp: in_set_conv_nth)
  moreover then have "positions order b = Some k" using positions_Some trace_env_facts(1) [OF assms(1)] by blast
  ultimately show "bfsPos (tc_index c) b < length order" "order ! bfsPos (tc_index c) b = b"
    using assms(1) by (simp_all add: bfsPos_def trace_env_def)
qed

lemma bfsPos_out: "trace_env c order \<Longrightarrow> b \<notin> set order \<Longrightarrow> bfsPos (tc_index c) b = length order"
  using positions_None [of order b] by (simp add: bfsPos_def trace_env_def)

lemma bfsPos_inj:
  assumes "trace_env c order" "a \<in> set order" "b \<in> set order" "bfsPos (tc_index c) a = bfsPos (tc_index c) b"
  shows "a = b"
  using bfsPos_in(2) [OF assms(1,2)] bfsPos_in(2) [OF assms(1,3)] assms(4) by metis

lemma bestSuccessor_Some:
  assumes env: "trace_env c order" and cur: "cur \<in> set order" "cur \<in> visited"
    and best: "bestSuccessor c cur visited st = (Some n, st')"
  shows "n \<in> set order" "n \<notin> visited" "trace_edge c cur n"
proof -
  let ?bk = "\<lambda>succ. bfsPos (tc_index c) succ < bfsPos (tc_index c) cur"
  obtain p where "foldl (edge_step c visited (tc_prob c cur) ?bk) (None, 0, st) (f_succs (tc_func c) cur) = (Some n, p, st')"
    using best by (auto simp: bestSuccessor_def split: prod.splits)
  then have "best_edge (admissible_edge c visited (tc_prob c cur) ?bk) (tc_prob c cur) (f_succs (tc_func c) cur) n"
    using edge_fold by fastforce
  then have e: "cfg_edge (tc_func c) cur n" and n: "n \<notin> visited" "tc_threshold c < tc_prob c cur n" "\<not> ?bk n"
    by (auto simp: best_edge_def admissible_edge_def cfg_edge_def)
  have r: "n \<in> set order" using cur(1) e reachable_step trace_env_facts(2) [OF env] by blast
  have "n \<noteq> cur" using n(1) cur(2) by blast
  then have "bfsPos (tc_index c) n \<noteq> bfsPos (tc_index c) cur" using bfsPos_inj [OF env r cur(1)] by blast
  then show "n \<in> set order" "n \<notin> visited" "trace_edge c cur n" using r n e by (auto simp: trace_edge_def)
qed

lemma bestPredecessor_Some:
  assumes env: "trace_env c order" and cur: "cur \<in> set order" "cur \<in> visited"
    and best: "bestPredecessor c cur visited st = (Some n, st')"
  shows "n \<in> set order" "n \<notin> visited" "trace_edge c n cur"
proof -
  let ?bk = "\<lambda>pred. bfsPos (tc_index c) pred > bfsPos (tc_index c) cur"
  obtain p where "foldl (edge_step c visited (\<lambda>pred. tc_prob c pred cur) ?bk) (None, 0, st) (f_preds (tc_func c) cur) = (Some n, p, st')"
    using best by (auto simp: bestPredecessor_def split: prod.splits)
  then have "best_edge (admissible_edge c visited (\<lambda>pred. tc_prob c pred cur) ?bk) (\<lambda>pred. tc_prob c pred cur) (f_preds (tc_func c) cur) n"
    using edge_fold by fastforce
  then have e: "n \<in> set (f_preds (tc_func c) cur)" and n: "n \<notin> visited" "tc_threshold c < tc_prob c n cur" "\<not> ?bk n"
    by (auto simp: best_edge_def admissible_edge_def)
  have r: "n \<in> set order"
    using n(3) bfsPos_in(1) [OF env cur(1)] bfsPos_out [OF env, of n] by fastforce
  have wf: "wf_func (tc_func c)" using env by (simp add: trace_env_def)
  have "cur \<in> set (f_blocks (tc_func c))" "n \<in> set (f_blocks (tc_func c))" using cur(1) r trace_env_facts(4) [OF env] by blast+
  then have edge: "cfg_edge (tc_func c) n cur" using wf_preds_succs [OF wf, of n cur] e by (simp add: cfg_edge_def)
  have "n \<noteq> cur" using n(1) cur(2) by blast
  then have "bfsPos (tc_index c) n \<noteq> bfsPos (tc_index c) cur" using bfsPos_inj [OF env r cur(1)] by blast
  then show "n \<in> set order" "n \<notin> visited" "trace_edge c n cur" using r n edge by (auto simp: trace_edge_def)
qed

lemma unvisited_less:
  assumes "n \<in> set order" "n \<notin> visited"
  shows "card (set order - insert n visited) < card (set order - visited)"
  by (rule psubset_card_mono) (use assms in auto)

lemma grow_forward_result:
  assumes "trace_env c order" "cur \<in> set order" "cur \<in> visited"
  shows "\<exists>ext st'. grow_forward c cur tr visited st = Some (tr @ ext, visited \<union> set ext, st') \<and>
    distinct ext \<and> set ext \<inter> visited = {} \<and> set ext \<subseteq> set order \<and> successively (trace_edge c) (cur # ext)"
  using assms
proof (induction "card (set order - visited)" arbitrary: cur visited tr st rule: less_induct)
  case less
  obtain best st1 where best: "bestSuccessor c cur visited st = (best, st1)" by force
  show ?case
  proof (cases best)
    case None
    have "grow_forward c cur tr visited st = Some (tr, visited, st1)"
      by (subst grow_forward.simps) (simp add: best None)
    then show ?thesis by (intro exI [of _ "[]"] exI [of _ st1]) simp
  next
    case (Some n)
    note n = bestSuccessor_Some [OF less.prems best [unfolded Some]]
    obtain ext st' where ext: "grow_forward c n (tr @ [n]) (insert n visited) st1 =
        Some ((tr @ [n]) @ ext, insert n visited \<union> set ext, st')" "distinct ext" "set ext \<inter> insert n visited = {}"
        "set ext \<subseteq> set order" "successively (trace_edge c) (n # ext)"
      using less.hyps [OF unvisited_less [OF n(1,2)] less.prems(1) n(1), of "tr @ [n]" st1] by blast
    have "grow_forward c cur tr visited st = Some (tr @ n # ext, visited \<union> set (n # ext), st')"
      by (subst grow_forward.simps) (simp add: best Some ext(1))
    then show ?thesis using n ext(2-5)
      by (intro exI [of _ "n # ext"] exI [of _ st']) auto
  qed
qed

lemma grow_backward_result:
  assumes "trace_env c order" "cur \<in> set order" "cur \<in> visited"
  shows "\<exists>ext st'. grow_backward c cur tr visited st = Some (ext @ tr, visited \<union> set ext, st') \<and>
    distinct ext \<and> set ext \<inter> visited = {} \<and> set ext \<subseteq> set order \<and> successively (trace_edge c) (ext @ [cur])"
  using assms
proof (induction "card (set order - visited)" arbitrary: cur visited tr st rule: less_induct)
  case less
  obtain best st1 where best: "bestPredecessor c cur visited st = (best, st1)" by force
  show ?case
  proof (cases best)
    case None
    have "grow_backward c cur tr visited st = Some (tr, visited, st1)"
      by (subst grow_backward.simps) (simp add: best None)
    then show ?thesis by (intro exI [of _ "[]"] exI [of _ st1]) simp
  next
    case (Some n)
    note n = bestPredecessor_Some [OF less.prems best [unfolded Some]]
    obtain ext st' where ext: "grow_backward c n (n # tr) (insert n visited) st1 =
        Some (ext @ n # tr, insert n visited \<union> set ext, st')" "distinct ext" "set ext \<inter> insert n visited = {}"
        "set ext \<subseteq> set order" "successively (trace_edge c) (ext @ [n])"
      using less.hyps [OF unvisited_less [OF n(1,2)] less.prems(1) n(1), of "n # tr" st1] by blast
    have "grow_backward c cur tr visited st = Some ((ext @ [n]) @ tr, visited \<union> set (ext @ [n]), st')"
      by (subst grow_backward.simps) (simp add: best Some ext(1))
    then show ?thesis using n ext(2-5)
      by (intro exI [of _ "ext @ [n]"] exI [of _ st']) (auto simp: successively_append_iff)
  qed
qed

text \<open>A finished trace.\<close>

definition trace_ok :: "trace_ctx \<Rightarrow> bid list \<Rightarrow> bid list \<Rightarrow> bool" where
  "trace_ok c order t \<longleftrightarrow> t \<noteq> [] \<and> set t \<subseteq> set order \<and> distinct t \<and> successively (trace_edge c) t"

lemma grow_trace_result:
  assumes env: "trace_env c order" and seed: "seed \<in> set order" "seed \<notin> visited"
  obtains t st' where "grow_trace c seed visited st = Some (t, visited \<union> set t, st')"
    "trace_ok c order t" "seed \<in> set t" "set t \<inter> visited = {}"
proof -
  obtain ext st1 where f: "grow_forward c seed [seed] (insert seed visited) st =
      Some ([seed] @ ext, insert seed visited \<union> set ext, st1)" "distinct ext" "set ext \<inter> insert seed visited = {}"
      "set ext \<subseteq> set order" "successively (trace_edge c) (seed # ext)"
    using grow_forward_result [OF env seed(1), of "insert seed visited" "[seed]" st] by blast
  obtain pre st2 where b: "grow_backward c seed ([seed] @ ext) (insert seed visited \<union> set ext) st1 =
      Some (pre @ [seed] @ ext, (insert seed visited \<union> set ext) \<union> set pre, st2)" "distinct pre"
      "set pre \<inter> (insert seed visited \<union> set ext) = {}" "set pre \<subseteq> set order" "successively (trace_edge c) (pre @ [seed])"
    using grow_backward_result [OF env seed(1), of "insert seed visited \<union> set ext" "[seed] @ ext" st1] by blast
  let ?t = "pre @ [seed] @ ext"
  have "grow_trace c seed visited st = Some (?t, visited \<union> set ?t, st2)"
    using f(1) b(1) by (auto simp: grow_trace_def)
  moreover have "trace_ok c order ?t"
    using f b seed by (auto simp: trace_ok_def successively_append_iff)
  ultimately show thesis using that f(3) b(3) seed(2) by auto
qed

section \<open>Seeds\<close>

lemma advance_result:
  "k \<le> advance bs visited k \<and> (\<forall>j. k \<le> j \<longrightarrow> j < advance bs visited k \<longrightarrow> j < length bs \<and> bs ! j \<in> visited) \<and>
   (advance bs visited k < length bs \<longrightarrow> bs ! advance bs visited k \<notin> visited)"
proof (induction bs visited k rule: advance.induct)
  case (1 bs visited k)
  show ?case
  proof (cases "k < length bs \<and> bs ! k \<in> visited")
    case True
    then have eq: "advance bs visited k = advance bs visited (Suc k)" by (simp add: advance.simps [of bs visited k])
    have "j < length bs \<and> bs ! j \<in> visited" if "k \<le> j" "j < advance bs visited (Suc k)" for j
      using 1 [OF True] True that by (cases "j = k") auto
    then show ?thesis unfolding eq using 1 [OF True] by auto
  next
    case False
    have "advance bs visited k = (if k < length bs \<and> bs ! k \<in> visited then advance bs visited (Suc k) else k)"
      by (rule advance.simps)
    also have "\<dots> = k" by (rule if_not_P [OF False])
    finally have "advance bs visited k = k" .
    then show ?thesis using False by auto
  qed
qed

text \<open>The seed of the original algorithm: the first block in breadth-first order, among the
  unvisited, whose frequency is maximal and not 0.\<close>

definition rescan_step :: "(bid \<Rightarrow> nat) \<Rightarrow> bid set \<Rightarrow> bid option \<times> nat \<Rightarrow> bid \<Rightarrow> bid option \<times> nat" where
  "rescan_step freq visited s b = (if b \<in> visited then s
     else if freq b > snd s then (Some b, freq b) else s)"

definition rescan_seed :: "(bid \<Rightarrow> nat) \<Rightarrow> bid list \<Rightarrow> bid set \<Rightarrow> bid option" where
  "rescan_seed freq order visited = fst (foldl (rescan_step freq visited) (None, 0) order)"

text \<open>The head of a stable sort is the first element of least key.\<close>

definition first_max :: "(bid \<Rightarrow> nat) \<Rightarrow> bid list \<Rightarrow> bid option" where
  "first_max freq bs = (case byFreqDesc freq bs of [] \<Rightarrow> None | b # _ \<Rightarrow> if freq b = 0 then None else Some b)"

lemma byFreqDesc_Nil: "byFreqDesc freq bs = [] \<longleftrightarrow> bs = []"
  by (metis byFreqDesc_def length_0_conv length_sort)

lemma insort_key_hd:
  "insort_key f x xs \<noteq> [] \<and> hd (insort_key f x xs) = (if xs = [] \<or> f x \<le> f (hd xs) then x else hd xs)"
  by (cases xs) auto

lemma best_edge_Cons:
  assumes "best_edge (\<lambda>_. True) freq bs h"
  shows "best_edge (\<lambda>_. True) freq (b # bs) (if freq h \<le> freq b then b else h)"
proof -
  obtain us vs where bs: "bs = us @ h # vs" "\<forall>m \<in> set us. freq m < freq h" "\<forall>m \<in> set vs. freq m \<le> freq h"
    using assms by (auto simp: best_edge_def)
  show ?thesis
  proof (cases "freq h \<le> freq b")
    case True
    then have "\<forall>m \<in> set bs. freq m \<le> freq b" using bs by fastforce
    then show ?thesis unfolding best_edge_def using True
      by (intro conjI TrueI exI [of _ "[]"] exI [of _ bs]) auto
  next
    case False
    then show ?thesis unfolding best_edge_def using bs
      by (intro conjI TrueI exI [of _ "b # us"] exI [of _ vs]) auto
  qed
qed

lemma byFreqDesc_hd:
  "bs \<noteq> [] \<Longrightarrow> best_edge (\<lambda>_. True) freq bs (hd (byFreqDesc freq bs))"
proof (induction bs)
  case (Cons b bs)
  show ?case
  proof (cases "bs = []")
    case True
    then show ?thesis by (simp add: byFreqDesc_def best_edge_def Cons_eq_append_conv)
  next
    case False
    then have ne: "byFreqDesc freq bs \<noteq> []" by (simp add: byFreqDesc_Nil)
    have "hd (byFreqDesc freq (b # bs)) =
        (if freq (hd (byFreqDesc freq bs)) \<le> freq b then b else hd (byFreqDesc freq bs))"
      using insort_key_hd [of "\<lambda>b. - int (freq b)" b "byFreqDesc freq bs"] ne
      by (simp add: byFreqDesc_def)
    then show ?thesis using best_edge_Cons [OF Cons.IH [OF False]] by simp
  qed
qed simp

lemma best_edge_unique:
  assumes "best_edge ok freq bs a" "best_edge ok freq bs b" shows "a = b"
proof -
  obtain us vs where a: "ok a" "bs = us @ a # vs" "\<forall>m \<in> set us. ok m \<longrightarrow> freq m < freq a" "\<forall>m \<in> set vs. ok m \<longrightarrow> freq m \<le> freq a"
    using assms(1) by (auto simp: best_edge_def)
  obtain xs ys where b: "ok b" "bs = xs @ b # ys" "\<forall>m \<in> set xs. ok m \<longrightarrow> freq m < freq b" "\<forall>m \<in> set ys. ok m \<longrightarrow> freq m \<le> freq b"
    using assms(2) by (auto simp: best_edge_def)
  consider "us = xs" | zs where "us = xs @ b # zs" | zs where "xs = us @ a # zs"
    using a(2) b(2) by (auto simp: append_eq_append_conv2 append_eq_Cons_conv Cons_eq_append_conv)
  then show ?thesis
  proof cases
    case 1
    then show ?thesis using a(2) b(2) by simp
  next
    case 2
    then have "freq b < freq a" "a \<in> set ys" using a b by auto
    then show ?thesis using a(1) b(4) by fastforce
  next
    case 3
    then have "freq a < freq b" "b \<in> set vs" using a b by auto
    then show ?thesis using b(1) a(4) by fastforce
  qed
qed

lemma rescan_filter: "foldl (rescan_step freq visited) s order = foldl (rescan_step freq {}) s (filter (\<lambda>b. b \<notin> visited) order)"
  by (induction order arbitrary: s) (auto simp: rescan_step_def)

lemma rescan_fold:
  "case foldl (rescan_step freq {}) (None, 0) bs of (None, q) \<Rightarrow> q = 0 \<and> (\<forall>b \<in> set bs. freq b = 0)
   | (Some b, q) \<Rightarrow> q = freq b \<and> 0 < freq b \<and> best_edge (\<lambda>_. True) freq bs b"
proof (induction bs rule: rev_induct)
  case (snoc x bs)
  obtain r q where s: "foldl (rescan_step freq {}) (None, 0) bs = (r, q)" by force
  show ?case
  proof (cases r)
    case None
    then have z: "q = 0" "\<forall>b \<in> set bs. freq b = 0" using snoc s by simp_all
    have "best_edge (\<lambda>_. True) freq (bs @ [x]) x" if "0 < freq x"
      unfolding best_edge_def using z that by (intro conjI TrueI exI [of _ bs] exI [of _ "[]"]) auto
    moreover have "foldl (rescan_step freq {}) (None, 0) (bs @ [x]) = rescan_step freq {} (None, 0) x"
      using s None z by simp
    ultimately show ?thesis using z unfolding rescan_step_def by simp
  next
    case (Some b)
    then have b: "q = freq b" "0 < freq b" "best_edge (\<lambda>_. True) freq bs b" using snoc s by simp_all
    have "foldl (rescan_step freq {}) (None, 0) (bs @ [x]) = rescan_step freq {} (Some b, q) x"
      using s Some by simp
    then show ?thesis using b best_edge_snoc [OF b(3), of x] unfolding rescan_step_def by simp
  qed
qed simp

lemma rescan_first_max: "rescan_seed freq order visited = first_max freq (filter (\<lambda>b. b \<notin> visited) order)"
proof -
  let ?bs = "filter (\<lambda>b. b \<notin> visited) order"
  obtain r q where s: "foldl (rescan_step freq {}) (None, 0) ?bs = (r, q)" by force
  have r: "rescan_seed freq order visited = r" using s by (simp add: rescan_seed_def rescan_filter [of freq visited])
  show ?thesis
  proof (cases "?bs = []")
    case True
    then show ?thesis using s r by (simp add: first_max_def byFreqDesc_def)
  next
    case False
    let ?h = "hd (byFreqDesc freq ?bs)"
    have ne: "byFreqDesc freq ?bs \<noteq> []" using False by (simp add: byFreqDesc_Nil)
    have fm: "first_max freq ?bs = (if freq ?h = 0 then None else Some ?h)"
      using ne by (cases "byFreqDesc freq ?bs") (simp_all add: first_max_def)
    have h: "best_edge (\<lambda>_. True) freq ?bs ?h" by (rule byFreqDesc_hd [OF False])
    then have "?h \<in> set ?bs" by (rule best_edge_in)
    show ?thesis
    proof (cases r)
      case None
      then have "freq ?h = 0" using rescan_fold [where freq = freq and bs = ?bs] s \<open>?h \<in> set ?bs\<close> by simp
      then show ?thesis using fm r None by simp
    next
      case (Some b)
      then have b: "0 < freq b" "best_edge (\<lambda>_. True) freq ?bs b" using rescan_fold [where freq = freq and bs = ?bs] s by simp_all
      then have "b = ?h" using best_edge_unique h by blast
      then show ?thesis using fm r Some b(1) by simp
    qed
  qed
qed

lemma cursor_seed:
  assumes "\<forall>j < k. j < length order \<longrightarrow> byFreqDesc (tc_freq c) order ! j \<in> visited"
  shows "seed_at c (byFreqDesc (tc_freq c) order) (advance (byFreqDesc (tc_freq c) order) visited k) =
    rescan_seed (tc_freq c) order visited"
proof -
  let ?bs = "byFreqDesc (tc_freq c) order" let ?k = "advance ?bs visited k"
  note adv = advance_result [of k ?bs visited]
  have len: "length ?bs = length order" by (simp add: byFreqDesc_def)
  have pre: "?bs ! j \<in> visited" if "j < ?k" "j < length ?bs" for j
    using that adv assms len by (cases "j < k") auto
  have "filter (\<lambda>b. b \<notin> visited) (take ?k ?bs) = []"
    using pre by (auto simp: filter_empty_conv in_set_conv_nth)
  then have f: "filter (\<lambda>b. b \<notin> visited) ?bs = filter (\<lambda>b. b \<notin> visited) (drop ?k ?bs)"
    by (metis append_Nil append_take_drop_id filter_append)
  have sorted: "byFreqDesc (tc_freq c) (filter (\<lambda>b. b \<notin> visited) order) = filter (\<lambda>b. b \<notin> visited) ?bs"
    by (simp add: byFreqDesc_def filter_sort)
  show ?thesis
  proof (cases "?k < length ?bs")
    case True
    then have "drop ?k ?bs = ?bs ! ?k # drop (Suc ?k) ?bs" by (rule Cons_nth_drop_Suc [symmetric])
    then show ?thesis using True adv f
      by (simp add: rescan_first_max first_max_def sorted seed_at_def)
  next
    case False
    then show ?thesis using f by (simp add: rescan_first_max first_max_def sorted seed_at_def)
  qed
qed

lemma rescan_seed_props:
  assumes "rescan_seed freq order visited = Some b"
  shows "b \<in> set order" "b \<notin> visited" "0 < freq b" "\<forall>a \<in> set order - visited. freq a \<le> freq b"
proof -
  let ?bs = "filter (\<lambda>b. b \<notin> visited) order"
  have r: "fst (foldl (rescan_step freq {}) (None, 0) ?bs) = Some b"
    using assms by (simp add: rescan_seed_def rescan_filter [of freq visited])
  then have b: "0 < freq b" "best_edge (\<lambda>_. True) freq ?bs b"
    using rescan_fold [where freq = freq and bs = ?bs] by (auto split: prod.splits)
  obtain us vs where s: "?bs = us @ b # vs" "\<forall>m \<in> set us. freq m < freq b" "\<forall>m \<in> set vs. freq m \<le> freq b"
    using b(2) by (auto simp: best_edge_def)
  have "set ?bs = set us \<union> {b} \<union> set vs" by (subst s(1)) auto
  then have e: "set order - visited = set us \<union> {b} \<union> set vs" by auto
  then show "b \<in> set order" "b \<notin> visited" by auto
  show "\<forall>a \<in> set order - visited. freq a \<le> freq b" unfolding e using s(2,3) by auto
  show "0 < freq b" by (rule b(1))
qed

lemma rescan_seed_None:
  assumes "rescan_seed freq order visited = None" "b \<in> set order" "0 < freq b" shows "b \<in> visited"
proof (rule ccontr)
  assume "b \<notin> visited"
  moreover have "fst (foldl (rescan_step freq {}) (None, 0) (filter (\<lambda>b. b \<notin> visited) order)) = None"
    using assms(1) by (simp add: rescan_seed_def rescan_filter [of freq visited])
  ultimately show False
    using rescan_fold [where freq = freq and bs = "filter (\<lambda>b. b \<notin> visited) order"] assms(2,3) by (auto split: prod.splits)
qed

section \<open>All traces\<close>

text \<open>The algorithm with a full rescan for every seed.\<close>

partial_function (option) rescan_loop ::
    "trace_ctx \<Rightarrow> bid list \<Rightarrow> bid set \<Rightarrow> bid list list \<Rightarrow> trace_stats \<Rightarrow> (bid list list \<times> trace_stats) option" where
  "rescan_loop c order visited traces st =
     (case rescan_seed (tc_freq c) order visited of
        None \<Rightarrow> Some (traces, st)
      | Some seed \<Rightarrow> (case grow_trace c seed visited st of
           None \<Rightarrow> None
         | Some (trace, visited', st') \<Rightarrow> rescan_loop c order visited' (traces @ [trace]) st'))"

text \<open>The traces so far: disjoint finished traces, each with a seed that is as hot as any
  block not in an earlier trace.\<close>

definition traces_ok :: "trace_ctx \<Rightarrow> bid list \<Rightarrow> bid list list \<Rightarrow> bool" where
  "traces_ok c order ts \<longleftrightarrow> distinct (concat ts) \<and> (\<forall>t \<in> set ts. trace_ok c order t) \<and>
     (\<forall>us t vs. ts = us @ t # vs \<longrightarrow> (\<exists>s \<in> set t. 0 < tc_freq c s \<and>
        (\<forall>b \<in> set order - set (concat us). tc_freq c b \<le> tc_freq c s)))"

lemma traces_ok_snoc:
  assumes ok: "traces_ok c order ts" and t: "trace_ok c order t" "set t \<inter> set (concat ts) = {}"
    and s: "s \<in> set t" "0 < tc_freq c s" "\<forall>b \<in> set order - set (concat ts). tc_freq c b \<le> tc_freq c s"
  shows "traces_ok c order (ts @ [t])"
proof -
  have "\<exists>s \<in> set u. 0 < tc_freq c s \<and> (\<forall>b \<in> set order - set (concat us). tc_freq c b \<le> tc_freq c s)"
    if "ts @ [t] = us @ u # vs" for us u vs
  proof (cases vs rule: rev_cases)
    case Nil
    then show ?thesis using that s by auto
  next
    case (snoc ws w)
    then have "ts = us @ u # ws" using that by simp
    then show ?thesis using ok unfolding traces_ok_def by blast
  qed
  moreover have "distinct (concat (ts @ [t]))"
    using ok t by (auto simp: traces_ok_def trace_ok_def)
  ultimately show ?thesis using ok t(1) unfolding traces_ok_def by simp
qed

lemma trace_loop_result:
  fixes c :: trace_ctx and order :: "bid list"
  defines "bs \<equiv> byFreqDesc (tc_freq c) order"
  assumes env: "trace_env c order" and "traces_ok c order ts"
    and "\<forall>j < k. j < length order \<longrightarrow> bs ! j \<in> set (concat ts)"
  shows "\<exists>ts' st'. trace_loop c bs k (set (concat ts)) ts st = Some (ts', st') \<and>
    rescan_loop c order (set (concat ts)) ts st = Some (ts', st') \<and> traces_ok c order ts' \<and>
    (\<forall>b \<in> set order. 0 < tc_freq c b \<longrightarrow> b \<in> set (concat ts'))"
  using assms(3,4)
proof (induction "card (set order - set (concat ts))" arbitrary: ts k st rule: less_induct)
  case less
  let ?V = "set (concat ts)" and ?k = "advance bs (set (concat ts)) k"
  have seed_eq: "seed_at c bs ?k = rescan_seed (tc_freq c) order ?V"
    unfolding bs_def by (rule cursor_seed) (use less.prems(2) in \<open>simp add: bs_def\<close>)
  show ?case
  proof (cases "rescan_seed (tc_freq c) order ?V")
    case None
    have "trace_loop c bs k ?V ts st = Some (ts, st)" "rescan_loop c order ?V ts st = Some (ts, st)"
      by (subst trace_loop.simps, simp only: Let_def seed_eq None option.case)
        (subst rescan_loop.simps, simp only: None option.case)
    then show ?thesis using less.prems(1) rescan_seed_None [OF None] by blast
  next
    case (Some s)
    note sp = rescan_seed_props [OF Some]
    obtain t st1 where t: "grow_trace c s ?V st = Some (t, ?V \<union> set t, st1)" "trace_ok c order t" "s \<in> set t" "set t \<inter> ?V = {}"
      by (rule grow_trace_result [OF env sp(1,2)])
    have V: "?V \<union> set t = set (concat (ts @ [t]))" by auto
    have "card (set order - set (concat (ts @ [t]))) < card (set order - ?V)"
      by (rule psubset_card_mono) (use sp(1,2) t(3) in auto)
    moreover have "traces_ok c order (ts @ [t])"
      by (rule traces_ok_snoc [OF less.prems(1) t(2,4,3) sp(3,4)])
    moreover have "\<forall>j < ?k. j < length order \<longrightarrow> bs ! j \<in> set (concat (ts @ [t]))"
    proof (intro allI impI)
      fix j assume j: "j < ?k" "j < length order"
      have "bs ! j \<in> ?V" using advance_result [of k bs ?V] less.prems(2) j by (cases "j < k") auto
      then show "bs ! j \<in> set (concat (ts @ [t]))" by simp
    qed
    ultimately obtain ts' st' where IH: "trace_loop c bs ?k (set (concat (ts @ [t]))) (ts @ [t]) st1 = Some (ts', st')"
        "rescan_loop c order (set (concat (ts @ [t]))) (ts @ [t]) st1 = Some (ts', st')" "traces_ok c order ts'"
        "\<forall>b \<in> set order. 0 < tc_freq c b \<longrightarrow> b \<in> set (concat ts')"
      using less.hyps by blast
    have "trace_loop c bs k ?V ts st = Some (ts', st')"
      by (subst trace_loop.simps) (simp only: Let_def seed_eq Some t(1) option.case prod.case V IH(1))
    moreover have "rescan_loop c order ?V ts st = Some (ts', st')"
      by (subst rescan_loop.simps) (simp only: Some t(1) option.case prod.case V IH(2))
    ultimately show ?thesis using IH(3,4) by blast
  qed
qed

definition mk_trace_ctx :: "func \<Rightarrow> (bid \<Rightarrow> bid \<Rightarrow> nat) \<Rightarrow> (bid \<Rightarrow> nat) \<Rightarrow> nat \<Rightarrow> bool \<Rightarrow> bid list \<Rightarrow> trace_ctx" where
  "mk_trace_ctx F prob freq threshold statsOn order = \<lparr>tc_func = F, tc_prob = prob, tc_freq = freq,
     tc_threshold = threshold, tc_stats = statsOn, tc_index = index_of order\<rparr>"

lemma identifyTraces_result:
  assumes wf: "wf_func F"
  obtains order ts st' where "bfs_order F = Some order" "identifyTraces F prob freq threshold on st = Some (ts, st')"
    "rescan_loop (mk_trace_ctx F prob freq threshold on order) order {} [] (if on then trace_stats0 else st) = Some (ts, st')"
    "traces_ok (mk_trace_ctx F prob freq threshold on order) order ts"
    "\<forall>b. reachable F b \<longrightarrow> 0 < freq b \<longrightarrow> b \<in> set (concat ts)"
proof -
  obtain order where o: "bfs_order F = Some order" using bfs_order_result [OF wf] by blast
  let ?c = "mk_trace_ctx F prob freq threshold on order"
  have env: "trace_env ?c order" using wf o by (simp add: trace_env_def mk_trace_ctx_def)
  have reach: "set order = {b. reachable F b}" using bfs_order_correct [OF wf o] by blast
  have "traces_ok ?c order []" by (simp add: traces_ok_def)
  then obtain ts st' where
    r: "trace_loop ?c (byFreqDesc (tc_freq ?c) order) 0 (set (concat [])) [] (if on then trace_stats0 else st) = Some (ts, st')"
      "rescan_loop ?c order (set (concat [])) [] (if on then trace_stats0 else st) = Some (ts, st')"
      "traces_ok ?c order ts" "\<forall>b \<in> set order. 0 < tc_freq ?c b \<longrightarrow> b \<in> set (concat ts)"
    using trace_loop_result [OF env, of "[]" 0] by blast
  have "identifyTraces F prob freq threshold on st = Some (ts, st')"
    using r(1) o by (simp add: identifyTraces_def bfs_indexed_order mk_trace_ctx_def)
  then show thesis using that o r reach by (simp add: mk_trace_ctx_def)
qed

lemma successively_neighbour:
  assumes "successively P t" "b \<in> set t" "s \<in> set t" "s \<noteq> b"
  shows "\<exists>a. P a b \<or> P b a"
  using assms
proof (induction t)
  case (Cons x t)
  show ?case
  proof (cases "b \<in> set t \<and> s \<in> set t")
    case True
    then show ?thesis using Cons by (auto simp: successively_Cons)
  next
    case False
    then obtain y ys where t: "t = y # ys" using Cons.prems by (cases t) auto
    then have xy: "P x y" "successively P t" using Cons.prems(1) by (auto simp: successively_Cons)
    show ?thesis
    proof (cases "b \<in> {x, y}")
      case False
      then obtain us vs where "t = us @ b # vs" "us \<noteq> []" using Cons.prems(2) t by (metis append_Nil in_set_conv_decomp insert_iff list.inject list.set(2) set_ConsD singleton_iff)
      then show ?thesis using xy(2) by (auto simp: successively_append_iff)
    qed (use xy in auto)
  qed
qed simp

end
