(* ===== verification/Reaching.thy ===== *)
theory Reaching
  imports CFG
begin

text \<open>
  \<open>include/reaching.hpp\<close>: reaching definitions, a forward may analysis over the blocks in
  breadth-first order.  The kill sets are computed from value names, as the code does.  The
  analysis is shown to end, and its sets to be the definitions that reach along the CFG
  without passing a killing block.
\<close>

section \<open>The analysis\<close>

record reach_state =
  r_in :: bitvec
  r_out :: bitvec
  r_gen :: bitvec
  r_kill :: bitvec

definition empty_reach :: reach_state where
  "empty_reach = \<lparr>r_in = [], r_out = [], r_gen = [], r_kill = []\<rparr>"

type_synonym reach_map = "bid \<Rightarrow> reach_state option"

abbreviation reach_at :: "reach_map \<Rightarrow> bid \<Rightarrow> reach_state" where
  "reach_at st b \<equiv> dm_get empty_reach st b"

definition meetUnion :: "bitvec list \<Rightarrow> bitvec" where
  "meetUnion ins = (case ins of [] \<Rightarrow> [] | x # xs \<Rightarrow> foldl bv_or x xs)"

text \<open>The definitions that produce a value.\<close>

definition reach_universe :: "func \<Rightarrow> iid list" where
  "reach_universe F = filter (\<lambda>i. \<not> is_void F i) (all_insts F)"

text \<open>\<open>std::find\<close>, as a position.\<close>

definition find_index :: "iid list \<Rightarrow> iid \<Rightarrow> nat option" where
  "find_index xs x = find (\<lambda>k. xs ! k = x) [0..<length xs]"

definition kill_names :: "func \<Rightarrow> iid list \<Rightarrow> iid \<Rightarrow> nat \<Rightarrow> bitvec \<Rightarrow> bitvec" where
  "kill_names F u i defIdx kill = foldl (\<lambda>kill k. if k = defIdx then kill
     else if i_name (f_inst F i) \<noteq> [] \<and> i_name (f_inst F (u ! k)) = i_name (f_inst F i)
     then bv_set kill k else kill) kill [0..<length u]"

definition gen_kill :: "func \<Rightarrow> iid list \<Rightarrow> bitvec \<times> bitvec \<Rightarrow> iid \<Rightarrow> bitvec \<times> bitvec" where
  "gen_kill F u gk i = (if is_void F i then gk
     else case find_index u i of None \<Rightarrow> gk
        | Some defIdx \<Rightarrow> (bv_set (fst gk) defIdx, kill_names F u i defIdx (snd gk)))"

definition reach_block :: "func \<Rightarrow> iid list \<Rightarrow> bid \<Rightarrow> reach_state" where
  "reach_block F u b =
     (let gk = foldl (gen_kill F u) (bv_new (length u) False, bv_new (length u) False) (f_body F b)
      in \<lparr>r_in = bv_new (length u) False, r_out = bv_new (length u) False, r_gen = fst gk, r_kill = snd gk\<rparr>)"

definition reach_init :: "func \<Rightarrow> bid list \<Rightarrow> reach_map" where
  "reach_init F order =
     (let u = reach_universe F in foldl (\<lambda>st b. st(b \<mapsto> reach_block F u b)) Map.empty order)"

definition reach_newIn :: "func \<Rightarrow> reach_map \<Rightarrow> bid \<Rightarrow> bitvec" where
  "reach_newIn F st b =
     (let predOuts = map (\<lambda>p. r_out (reach_at st p)) (f_preds F b)
      in meetUnion (if predOuts = [] then [bv_new (length (reach_universe F)) False] else predOuts))"

definition reach_newOut :: "func \<Rightarrow> reach_map \<Rightarrow> bid \<Rightarrow> bitvec" where
  "reach_newOut F st b =
     bv_or (r_gen (reach_at st b)) (bv_and (reach_newIn F st b) (bv_flip (r_kill (reach_at st b))))"

text \<open>\<open>in\<close> is stored on every visit, only a change of \<open>out\<close> sets the flag.\<close>

definition reach_visit :: "func \<Rightarrow> reach_map \<times> bool \<Rightarrow> bid \<Rightarrow> reach_map \<times> bool" where
  "reach_visit F sc b = (case sc of (st, changed) \<Rightarrow>
     (let newIn = reach_newIn F st b; newOut = reach_newOut F st b; bs = (reach_at st b)\<lparr>r_in := newIn\<rparr>
      in if newOut \<noteq> r_out bs then (st(b \<mapsto> bs\<lparr>r_out := newOut\<rparr>), True) else (st(b \<mapsto> bs), changed)))"

definition computeReaching :: "func \<Rightarrow> reach_map option" where
  "computeReaching F = (case bfs_order F of None \<Rightarrow> None
     | Some order \<Rightarrow> map_option fst (rr_loop (reach_visit F) order (reach_init F order)))"

section \<open>What reaching means\<close>

text \<open>\<open>kills F b d\<close>: block \<open>b\<close> defines another value of the same, nonempty name.\<close>

definition kills :: "func \<Rightarrow> bid \<Rightarrow> iid \<Rightarrow> bool" where
  "kills F b d \<longleftrightarrow> (\<exists>i \<in> set (f_body F b). \<not> is_void F i \<and> i \<noteq> d \<and>
     i_name (f_inst F i) \<noteq> [] \<and> i_name (f_inst F d) = i_name (f_inst F i))"

text \<open>\<open>reach_out F b d\<close>: \<open>d\<close> reaches the end of \<open>b\<close> from a reachable block.\<close>

inductive reach_out :: "func \<Rightarrow> bid \<Rightarrow> iid \<Rightarrow> bool" for F where
  reach_gen: "reachable F b \<Longrightarrow> d \<in> set (f_body F b) \<Longrightarrow> \<not> is_void F d \<Longrightarrow> reach_out F b d"
| reach_pass: "reach_out F p d \<Longrightarrow> p \<in> set (f_preds F b) \<Longrightarrow> b \<in> set (f_blocks F) \<Longrightarrow> \<not> kills F b d \<Longrightarrow> reach_out F b d"

inductive_cases reach_outE: "reach_out F b d"

lemma distinct_reach_universe: "wf_func F \<Longrightarrow> distinct (reach_universe F)"
  by (simp add: reach_universe_def wf_func_def)

lemma find_index_Some:
  assumes "distinct xs" shows "find_index xs x = Some k \<longleftrightarrow> k < length xs \<and> xs ! k = x"
proof
  assume "find_index xs x = Some k"
  then show "k < length xs \<and> xs ! k = x" by (auto simp: find_index_def find_Some_iff)
next
  assume k: "k < length xs \<and> xs ! k = x"
  then obtain m where m: "find_index xs x = Some m"
    by (cases "find_index xs x") (auto simp: find_index_def find_None_iff)
  then have "m < length xs \<and> xs ! m = x" by (auto simp: find_index_def find_Some_iff)
  then have "m = k" using k assms nth_eq_iff_index_eq by metis
  then show "find_index xs x = Some k" using m by simp
qed

lemma kill_names_test:
  assumes "length kill = length u"
  shows "length (kill_names F u i d kill) = length u \<and> (\<forall>k. bv_test (kill_names F u i d kill) k \<longleftrightarrow> bv_test kill k \<or>
    (k < length u \<and> k \<noteq> d \<and> i_name (f_inst F i) \<noteq> [] \<and> i_name (f_inst F (u ! k)) = i_name (f_inst F i)))"
proof -
  let ?f = "\<lambda>kill k. if k = d then kill
     else if i_name (f_inst F i) \<noteq> [] \<and> i_name (f_inst F (u ! k)) = i_name (f_inst F i) then bv_set kill k else kill"
  have "length (foldl ?f kill [0..<n]) = length u \<and> (\<forall>k. bv_test (foldl ?f kill [0..<n]) k \<longleftrightarrow> bv_test kill k \<or>
    (k < n \<and> k \<noteq> d \<and> i_name (f_inst F i) \<noteq> [] \<and> i_name (f_inst F (u ! k)) = i_name (f_inst F i)))"
    if "n \<le> length u" for n
    using that by (induction n) (use assms in \<open>auto simp: bv_simps less_Suc_eq\<close>)
  then show ?thesis by (simp add: kill_names_def)
qed

lemma gen_kill_fold:
  fixes F :: func and xs :: "iid list"
  assumes wf: "wf_func F" and sub: "set xs \<subseteq> set (all_insts F)"
  defines "u \<equiv> reach_universe F"
  defines "r \<equiv> foldl (gen_kill F u) (bv_new (length u) False, bv_new (length u) False) xs"
  shows "length (fst r) = length u \<and> length (snd r) = length u \<and>
    (\<forall>k < length u. (bv_test (fst r) k \<longleftrightarrow> u ! k \<in> set xs) \<and>
       (bv_test (snd r) k \<longleftrightarrow> (\<exists>i \<in> set xs. \<not> is_void F i \<and> i \<noteq> u ! k \<and> i_name (f_inst F i) \<noteq> [] \<and>
          i_name (f_inst F (u ! k)) = i_name (f_inst F i))))"
  using sub unfolding r_def
proof (induction xs rule: rev_induct)
  case Nil
  then show ?case by (simp add: bv_simps)
next
  case (snoc i xs)
  have du: "distinct u" using distinct_reach_universe [OF wf] by (simp add: u_def)
  obtain g k where gk: "foldl (gen_kill F u) (bv_new (length u) False, bv_new (length u) False) xs = (g, k)" by force
  have IH: "length g = length u" "length k = length u"
    "\<And>j. j < length u \<Longrightarrow> bv_test g j \<longleftrightarrow> u ! j \<in> set xs"
    "\<And>j. j < length u \<Longrightarrow> bv_test k j \<longleftrightarrow> (\<exists>i \<in> set xs. \<not> is_void F i \<and> i \<noteq> u ! j \<and> i_name (f_inst F i) \<noteq> [] \<and>
          i_name (f_inst F (u ! j)) = i_name (f_inst F i))"
    using snoc.IH snoc.prems gk by auto
  have fold: "foldl (gen_kill F u) (bv_new (length u) False, bv_new (length u) False) (xs @ [i]) = gen_kill F u (g, k) i"
    using gk by simp
  show ?case
  proof (cases "is_void F i")
    case True
    have "u ! j \<noteq> i" if "j < length u" for j
      using True that nth_mem [OF that] by (auto simp: u_def reach_universe_def)
    then show ?thesis unfolding fold using True IH by (auto simp: gen_kill_def)
  next
    case False
    then have "i \<in> set u" using snoc.prems by (simp add: u_def reach_universe_def)
    then obtain d where d: "d < length u" "u ! d = i" by (auto simp: in_set_conv_nth)
    then have "find_index u i = Some d" using find_index_Some [OF du] by blast
    moreover have "u ! j = i \<longleftrightarrow> j = d" if "j < length u" for j
      using d that du by (metis nth_eq_iff_index_eq)
    ultimately show ?thesis unfolding fold using False IH d kill_names_test [OF IH(2), of F i d]
      by (auto simp: gen_kill_def bv_simps)
  qed
qed

lemma reach_block_sets:
  fixes F :: func and b :: bid
  assumes "wf_func F" "b \<in> set (f_blocks F)"
  defines "u \<equiv> reach_universe F" and "s \<equiv> reach_block F (reach_universe F) b"
  shows "length (r_gen s) = length u" "length (r_kill s) = length u"
    "k < length u \<Longrightarrow> bv_test (r_gen s) k \<longleftrightarrow> u ! k \<in> set (f_body F b)"
    "k < length u \<Longrightarrow> bv_test (r_kill s) k \<longleftrightarrow> kills F b (u ! k)"
  using gen_kill_fold [OF assms(1), of "f_body F b"] assms(2)
  by (auto simp: u_def s_def reach_block_def Let_def kills_def set_insts_of)

section \<open>The fixed point\<close>

definition reach_setting :: "func \<times> bid list \<Rightarrow> bool" where
  "reach_setting Fo \<longleftrightarrow> wf_func (fst Fo) \<and> bfs_order (fst Fo) = Some (snd Fo)"

lemma reach_setting_facts:
  assumes "reach_setting (F, order)"
  shows "wf_func F" "distinct order" "set order = {b. reachable F b}" "set order \<subseteq> set (f_blocks F)"
  using assms bfs_order_correct [of F order] reachable_block [of F] by (auto simp: reach_setting_def)

text \<open>Bits set so far are justified by paths, and each \<open>out\<close> is below its equation.\<close>

definition reach_blk :: "func \<Rightarrow> reach_map \<Rightarrow> bid \<Rightarrow> bool" where
  "reach_blk F st b \<longleftrightarrow> (let s = reach_at st b; u = reach_universe F; s0 = reach_block F u b
     in length (r_out s) = length u \<and> r_gen s = r_gen s0 \<and> r_kill s = r_kill s0 \<and>
        (\<forall>k. bv_test (r_out s) k \<longrightarrow> reach_out F b (u ! k)) \<and>
        (\<forall>k. bv_test (r_out s) k \<longrightarrow> bv_test (r_gen s) k \<or>
           ((\<exists>p \<in> set (f_preds F b). bv_test (r_out (reach_at st p)) k) \<and> \<not> bv_test (r_kill s) k)))"

definition reach_inv :: "func \<times> bid list \<Rightarrow> reach_map \<Rightarrow> bool" where
  "reach_inv Fo st \<longleftrightarrow> (case Fo of (F, order) \<Rightarrow> reach_setting (F, order) \<and>
     (\<forall>b \<in> set order. reach_blk F st b) \<and> (\<forall>b. b \<notin> set order \<longrightarrow> st b = None))"

definition reach_ok :: "func \<times> bid list \<Rightarrow> bid \<Rightarrow> reach_map \<Rightarrow> bool" where
  "reach_ok Fo b st \<longleftrightarrow> (case Fo of (F, order) \<Rightarrow>
     (\<forall>k. bv_test (r_in (reach_at st b)) k \<longleftrightarrow> (\<exists>p \<in> set (f_preds F b). bv_test (r_out (reach_at st p)) k)) \<and>
     (\<forall>k. bv_test (r_out (reach_at st b)) k \<longleftrightarrow> bv_test (r_gen (reach_at st b)) k \<or>
        (bv_test (r_in (reach_at st b)) k \<and> \<not> bv_test (r_kill (reach_at st b)) k)))"

definition reach_mu :: "func \<times> bid list \<Rightarrow> reach_map \<Rightarrow> nat" where
  "reach_mu Fo st = (\<Sum>b \<leftarrow> snd Fo. length (reach_universe (fst Fo)) - bv_count (r_out (reach_at st b)))"

lemma reach_init_at: "b \<in> set order \<Longrightarrow> reach_init F order b = Some (reach_block F (reach_universe F) b)"
  "b \<notin> set order \<Longrightarrow> reach_init F order b = None"
  by (simp_all add: reach_init_def Let_def foldl_upd_map)

lemma reach_inv_init: "reach_setting (F, order) \<Longrightarrow> reach_inv (F, order) (reach_init F order)"
  by (auto simp: reach_inv_def reach_blk_def Let_def dm_get_def reach_init_at reach_block_def bv_simps)

lemma meetUnion_test: "bv_test (meetUnion ins) k \<longleftrightarrow> (\<exists>v \<in> set ins. bv_test v k)"
proof (cases ins)
  case (Cons x xs)
  then show ?thesis using bv.union_test [of "\<lambda>v. v" x xs k] by (auto simp: meetUnion_def)
qed (simp add: meetUnion_def)

lemma reach_newIn_test:
  "bv_test (reach_newIn F st b) k \<longleftrightarrow> (\<exists>p \<in> set (f_preds F b). bv_test (r_out (reach_at st p)) k)"
  by (auto simp: reach_newIn_def Let_def meetUnion_test bv_simps)

lemma or_fold_size:
  "length x \<le> n \<Longrightarrow> \<forall>v \<in> set xs. length v \<le> n \<Longrightarrow> length x = n \<or> (\<exists>v \<in> set xs. length v = n) \<Longrightarrow>
   length (foldl bv_or x xs) = n"
proof (induction xs arbitrary: x)
  case (Cons a xs)
  have "length (foldl bv_or (bv_or x a) xs) = n"
    by (rule Cons.IH) (use Cons.prems in \<open>auto simp: length_bv_or max_def\<close>)
  then show ?case by simp
qed simp

lemma meetUnion_size:
  "\<forall>v \<in> set ins. length v \<le> n \<Longrightarrow> \<exists>v \<in> set ins. length v = n \<Longrightarrow> length (meetUnion ins) = n"
  using or_fold_size by (cases ins) (auto simp: meetUnion_def)

text \<open>Every reachable block but the entry has a reachable predecessor.\<close>

lemma reach_newIn_size:
  assumes inv: "reach_inv (F, order) st" and b: "b \<in> set order"
  shows "length (reach_newIn F st b) = length (reach_universe F)"
proof -
  let ?N = "length (reach_universe F)"
  have s: "reach_setting (F, order)" using inv by (simp add: reach_inv_def)
  note f = reach_setting_facts [OF s]
  have len: "length (r_out (reach_at st p)) \<le> ?N" "p \<in> set order \<Longrightarrow> length (r_out (reach_at st p)) = ?N" for p
    using inv by (cases "p \<in> set order"; auto simp: reach_inv_def reach_blk_def Let_def dm_get_def empty_reach_def)+
  show ?thesis
  proof (cases "f_preds F b = []")
    case False
    have "b \<noteq> entry_block F" using False f(1) by (auto simp: wf_func_def)
    then obtain p where "p \<in> set (f_preds F b)" "p \<in> set order"
      using has_reachable_pred [OF f(1), of b] b f(3) by auto
    moreover from this have "\<exists>p \<in> set (f_preds F b). length (r_out (reach_at st p)) = ?N" using len(2) by blast
    ultimately show ?thesis using False len(1) unfolding reach_newIn_def Let_def by (auto intro!: meetUnion_size)
  qed (simp add: reach_newIn_def meetUnion_def bv_simps)
qed

lemma reach_newOut_sets:
  assumes inv: "reach_inv (F, order) st" and b: "b \<in> set order"
  shows "length (reach_newOut F st b) = length (reach_universe F)"
    "bv_test (reach_newOut F st b) k \<longleftrightarrow> bv_test (r_gen (reach_at st b)) k \<or>
       (bv_test (reach_newIn F st b) k \<and> \<not> bv_test (r_kill (reach_at st b)) k)"
    "bv_test (r_out (reach_at st b)) k \<Longrightarrow> bv_test (reach_newOut F st b) k"
    "bv_test (reach_newOut F st b) k \<Longrightarrow> k < length (reach_universe F) \<and> reach_out F b (reach_universe F ! k)"
proof -
  let ?u = "reach_universe F" and ?s = "reach_at st b"
  have s: "reach_setting (F, order)" using inv by (simp add: reach_inv_def)
  note f = reach_setting_facts [OF s]
  have blk: "reach_blk F st p" if "p \<in> set order" for p using inv that by (simp add: reach_inv_def)
  have bF: "b \<in> set (f_blocks F)" using f(4) b by blast
  note rb = reach_block_sets [OF f(1) bF]
  have gk: "length (r_gen ?s) = length ?u" "length (r_kill ?s) = length ?u"
    "k < length ?u \<Longrightarrow> bv_test (r_gen ?s) k \<longleftrightarrow> ?u ! k \<in> set (f_body F b)"
    "k < length ?u \<Longrightarrow> bv_test (r_kill ?s) k \<longleftrightarrow> kills F b (?u ! k)" for k
    using blk [OF b] rb by (simp_all add: reach_blk_def Let_def)
  have new: "reach_newOut F st b = bv_or (r_gen ?s) (bv_andnot (reach_newIn F st b) (r_kill ?s))"
    unfolding reach_newOut_def using gk(2) reach_newIn_size [OF inv b] by (simp add: bv.mask_flip)
  show len: "length (reach_newOut F st b) = length ?u"
    unfolding new by (rule bv.transfer_size [OF gk(1) reach_newIn_size [OF inv b]])
  show test: "bv_test (reach_newOut F st b) k \<longleftrightarrow> bv_test (r_gen ?s) k \<or>
       (bv_test (reach_newIn F st b) k \<and> \<not> bv_test (r_kill ?s) k)" for k
    unfolding new by (rule bv.transfer_test)
  show "bv_test (reach_newOut F st b) k" if "bv_test (r_out ?s) k"
    using that blk [OF b] test reach_newIn_test [of F st b k] by (auto simp: reach_blk_def Let_def)
  show "k < length ?u \<and> reach_out F b (?u ! k)" if t: "bv_test (reach_newOut F st b) k"
  proof -
    have k: "k < length ?u" using bv_test_length [OF t] len by simp
    have "reach_out F p (?u ! k)" if "bv_test (r_out (reach_at st p)) k" for p
    proof (cases "p \<in> set order")
      case True
      then show ?thesis using blk that by (simp add: reach_blk_def Let_def)
    next
      case False
      then show ?thesis using that inv by (simp add: reach_inv_def dm_get_def empty_reach_def)
    qed
    moreover have "\<not> is_void F (?u ! k)" using nth_mem [OF k] by (simp add: reach_universe_def)
    moreover have "reachable F b" using b f(3) by blast
    ultimately show ?thesis using t test reach_newIn_test [of F st b k] gk(3,4) [OF k] k bF
      by (auto intro: reach_out.intros)
  qed
qed

lemma reach_visit_cases:
  assumes "reach_visit F (st, c) b = (st', c')"
  obtains (quiet) "st' = st(b \<mapsto> (reach_at st b)\<lparr>r_in := reach_newIn F st b\<rparr>)" "c' = c"
      "reach_newOut F st b = r_out (reach_at st b)"
    | (change) "st' = st(b \<mapsto> (reach_at st b)\<lparr>r_in := reach_newIn F st b, r_out := reach_newOut F st b\<rparr>)" c'
      "reach_newOut F st b \<noteq> r_out (reach_at st b)"
  using assms that by (auto simp: reach_visit_def Let_def split: if_splits)

text \<open>In both cases the state after the visit stores the new sets.\<close>

lemma reach_visit_store:
  assumes "reach_visit F (st, c) b = (st', c')"
  shows "st' = st(b \<mapsto> (reach_at st b)\<lparr>r_in := reach_newIn F st b, r_out := reach_newOut F st b\<rparr>)"
  using assms by (cases rule: reach_visit_cases) simp_all

lemma reach_visit_inv:
  assumes inv: "reach_inv (F, order) st" and b: "b \<in> set order" and v: "reach_visit F (st, c) b = (st', c')"
  shows "reach_inv (F, order) st'"
proof -
  note new = reach_newOut_sets [OF inv b]
  have st': "st' = st(b \<mapsto> (reach_at st b)\<lparr>r_in := reach_newIn F st b, r_out := reach_newOut F st b\<rparr>)"
    by (rule reach_visit_store [OF v])
  have mono: "bv_test (r_out (reach_at st d)) k \<Longrightarrow> bv_test (r_out (reach_at st' d)) k" for d k
    using new(3) [of k] by (cases "d = b") (simp_all add: st')
  have "reach_blk F st' d" if d: "d \<in> set order" for d
  proof -
    have old: "reach_blk F st d" using inv d by (simp add: reach_inv_def)
    have pred: "(\<exists>p \<in> set (f_preds F d). bv_test (r_out (reach_at st p)) k) \<Longrightarrow>
      (\<exists>p \<in> set (f_preds F d). bv_test (r_out (reach_at st' p)) k)" for k using mono by blast
    show ?thesis
    proof (cases "d = b")
      case True
      have at: "reach_at st' b = (reach_at st b)\<lparr>r_in := reach_newIn F st b, r_out := reach_newOut F st b\<rparr>"
        by (simp add: st')
      show ?thesis using old new pred reach_newIn_test [of F st b] unfolding True reach_blk_def Let_def at by auto
    next
      case False
      then have "reach_at st' d = reach_at st d" by (simp add: st')
      then show ?thesis using old pred unfolding reach_blk_def Let_def by metis
    qed
  qed
  then show ?thesis using inv b unfolding reach_inv_def by (auto simp: st')
qed

lemma reach_mu_decreases:
  assumes inv: "reach_inv (F, order) st" and b: "b \<in> set order"
    and change: "reach_newOut F st b \<noteq> r_out (reach_at st b)"
  shows "reach_mu (F, order) (st(b \<mapsto> (reach_at st b)\<lparr>r_in := reach_newIn F st b, r_out := reach_newOut F st b\<rparr>))
    < reach_mu (F, order) st"
proof -
  note new = reach_newOut_sets [OF inv b]
  have "length (r_out (reach_at st b)) = length (reach_universe F)"
    using inv b by (auto simp: reach_inv_def reach_blk_def Let_def)
  then have "bv_count (r_out (reach_at st b)) < bv_count (reach_newOut F st b)"
    using bv_count_strict_mono [of "r_out (reach_at st b)" "reach_newOut F st b"] new(1,3) change by metis
  moreover have "bv_count (reach_newOut F st b) \<le> length (reach_universe F)" using bv_count_le new(1) by metis
  ultimately show ?thesis
    unfolding reach_mu_def using b by (intro sum_list_strict_mono_at) auto
qed

lemma reach_quiet:
  assumes inv: "reach_inv (F, order) st" and b: "b \<in> set order"
    and quiet: "reach_newOut F st b = r_out (reach_at st b)"
  defines "st' \<equiv> st(b \<mapsto> (reach_at st b)\<lparr>r_in := reach_newIn F st b\<rparr>)"
  shows "reach_mu (F, order) st' = reach_mu (F, order) st" "reach_ok (F, order) b st'"
    "reach_ok (F, order) d st \<Longrightarrow> reach_ok (F, order) d st'"
proof -
  have out: "r_out (reach_at st' p) = r_out (reach_at st p)" for p by (simp add: st'_def)
  show "reach_mu (F, order) st' = reach_mu (F, order) st" by (simp add: reach_mu_def out)
  have at: "reach_at st' b = (reach_at st b)\<lparr>r_in := reach_newIn F st b\<rparr>" by (simp add: st'_def)
  show ok: "reach_ok (F, order) b st'"
    unfolding reach_ok_def prod.case out at
    using reach_newIn_test [of F st b] reach_newOut_sets(2) [OF inv b] quiet by simp
  show "reach_ok (F, order) d st'" if "reach_ok (F, order) d st"
  proof (cases "d = b")
    case False
    then have "reach_at st' d = reach_at st d" by (simp add: st'_def)
    then show ?thesis using that unfolding reach_ok_def prod.case out by simp
  qed (use ok in simp)
qed

interpretation reach: round_robin reach_inv snd "\<lambda>Fo. reach_visit (fst Fo)" reach_mu reach_ok
proof unfold_locales
  fix Fo :: "func \<times> bid list" and st b c st' c'
  assume a: "reach_inv Fo st" "b \<in> set (snd Fo)" "reach_visit (fst Fo) (st, c) b = (st', c')"
  obtain F order where Fo: "Fo = (F, order)" by force
  have inv: "reach_inv (F, order) st" and b: "b \<in> set order" and v: "reach_visit F (st, c) b = (st', c')"
    using a Fo by simp_all
  show "reach_inv Fo st'" unfolding Fo by (rule reach_visit_inv [OF inv b v])
  show "c' = c \<and> reach_mu Fo st' \<le> reach_mu Fo st \<and> reach_ok Fo b st' \<and>
      (\<forall>d \<in> set (snd Fo). reach_ok Fo d st \<longrightarrow> reach_ok Fo d st') \<or> c' \<and> reach_mu Fo st' < reach_mu Fo st"
    using v
  proof (cases rule: reach_visit_cases)
    case quiet
    then show ?thesis unfolding Fo using reach_quiet [OF inv b quiet(3)] by simp
  next
    case change
    then show ?thesis unfolding Fo using reach_mu_decreases [OF inv b change(3)] by simp
  qed
qed

section \<open>Correctness\<close>

lemma reach_complete:
  assumes "reach_out F b d" and inv: "reach_inv (F, order) st" and ok: "\<forall>b \<in> set order. reach_ok (F, order) b st"
    and "k < length (reach_universe F)" "reach_universe F ! k = d"
  shows "b \<in> set order \<and> bv_test (r_out (reach_at st b)) k"
  using assms(1,4,5)
proof (induction rule: reach_out.induct)
  case (reach_gen b d)
  have s: "reach_setting (F, order)" using inv by (simp add: reach_inv_def)
  have b: "b \<in> set order" using reach_setting_facts(3) [OF s] reach_gen(1) by blast
  then have "bv_test (r_gen (reach_at st b)) k"
    using inv reach_block_sets(3) [of F b k] reach_gen.prems reach_gen.hyps(2) reach_setting_facts(1,4) [OF s]
    by (auto simp: reach_inv_def reach_blk_def Let_def)
  then show ?case using ok b by (auto simp: reach_ok_def)
next
  case (reach_pass p d b)
  have s: "reach_setting (F, order)" using inv by (simp add: reach_inv_def)
  note f = reach_setting_facts [OF s]
  have p: "p \<in> set order" "bv_test (r_out (reach_at st p)) k" using reach_pass.IH reach_pass.prems by auto
  have "cfg_edge F p b" using wf_preds_succs [OF f(1), of p b] f(4) p(1) reach_pass.hyps(2,3) by (auto simp: cfg_edge_def)
  then have b: "b \<in> set order" using p(1) f(3) reachable_step by blast
  moreover have "\<not> bv_test (r_kill (reach_at st b)) k"
    using inv reach_block_sets(4) [of F b k] reach_pass.prems reach_pass.hyps(3,4) f(1) b
    by (auto simp: reach_inv_def reach_blk_def Let_def)
  moreover have "bv_test (r_in (reach_at st b)) k"
    using ok b p(2) reach_pass.hyps(2) unfolding reach_ok_def by blast
  ultimately show ?case using ok by (simp add: reach_ok_def)
qed

lemma computeReaching_result:
  assumes wf: "wf_func F"
  obtains st where "computeReaching F = Some st"
    "\<And>b k. reachable F b \<Longrightarrow> k < length (reach_universe F) \<Longrightarrow>
       bv_test (r_out (reach_at st b)) k \<longleftrightarrow> reach_out F b (reach_universe F ! k)"
    "\<And>b k. reachable F b \<Longrightarrow> k < length (reach_universe F) \<Longrightarrow>
       bv_test (r_in (reach_at st b)) k \<longleftrightarrow> (\<exists>p \<in> set (f_preds F b). reach_out F p (reach_universe F ! k))"
proof -
  obtain order where o: "bfs_order F = Some order" using bfs_order_result [OF wf] by blast
  have s: "reach_setting (F, order)" using wf o by (simp add: reach_setting_def)
  note f = reach_setting_facts [OF s]
  obtain st where st: "rr_loop (reach_visit F) order (reach_init F order) = Some (st, False)"
    using reach.loop_terminates [OF reach_inv_init [OF s]] by auto
  have inv: "reach_inv (F, order) st" and ok: "\<forall>b \<in> set order. reach_ok (F, order) b st"
    using reach.loop_result [OF reach_inv_init [OF s]] st by auto
  have iff: "bv_test (r_out (reach_at st b)) k \<longleftrightarrow> reach_out F b (reach_universe F ! k)"
    if k: "k < length (reach_universe F)" for b k
  proof
    assume t: "bv_test (r_out (reach_at st b)) k"
    then have "b \<in> set order" using inv by (auto simp: reach_inv_def dm_get_def empty_reach_def)
    then show "reach_out F b (reach_universe F ! k)" using inv t by (simp add: reach_inv_def reach_blk_def Let_def)
  next
    assume "reach_out F b (reach_universe F ! k)"
    then show "bv_test (r_out (reach_at st b)) k" using reach_complete [OF _ inv ok k refl] by blast
  qed
  show thesis
  proof (rule that [of st])
    show "computeReaching F = Some st" using o st by (simp add: computeReaching_def)
    show "bv_test (r_out (reach_at st b)) k \<longleftrightarrow> reach_out F b (reach_universe F ! k)"
      if "k < length (reach_universe F)" for b k using iff [OF that] .
    show "bv_test (r_in (reach_at st b)) k \<longleftrightarrow> (\<exists>p \<in> set (f_preds F b). reach_out F p (reach_universe F ! k))"
      if "reachable F b" "k < length (reach_universe F)" for b k
      using ok that(1) f(3) iff [OF that(2)] by (auto simp: reach_ok_def)
  qed
qed

text \<open>LLVM keeps the names of a function's values distinct; then nothing is ever killed, and
  reaching is plain reachability.\<close>

definition unique_names :: "func \<Rightarrow> bool" where
  "unique_names F \<longleftrightarrow> (\<forall>i \<in> set (all_insts F). \<forall>j \<in> set (all_insts F).
     i_name (f_inst F i) \<noteq> [] \<longrightarrow> i_name (f_inst F i) = i_name (f_inst F j) \<longrightarrow> i = j)"

lemma unique_names_kills:
  assumes "unique_names F" "b \<in> set (f_blocks F)" "d \<in> set (all_insts F)" shows "\<not> kills F b d"
  using assms unfolding unique_names_def kills_def by (force simp: set_insts_of)

end
