(* ===== verification/Scheduler_Pass.thy ===== *)
theory Scheduler_Pass
  imports Hoisting Local_Scheduler Trace_Correctness Reaching
begin

text \<open>
  \<open>src/schedulerPass.cpp\<close>: the two function passes and their registration.  The global pass
  analyses the function, identifies traces, builds all graphs, and then schedules and
  applies one trace after the other, on a function that the earlier traces have already
  changed.  The lemmas carry the guarantees of one \<open>applySchedule\<close> over all traces.
\<close>

section \<open>The passes\<close>

text \<open>What the pass asks of LLVM and of the process environment.\<close>

record pass_env =
  pe_prob :: "bid \<Rightarrow> bid \<Rightarrow> nat"      \<comment> \<open>\<open>BranchProbabilityInfo\<close>\<close>
  pe_freq :: "bid \<Rightarrow> nat"             \<comment> \<open>\<open>BlockFrequencyInfo\<close>\<close>
  pe_mkprob :: "nat \<Rightarrow> nat \<Rightarrow> nat"    \<comment> \<open>\<open>BranchProbability(n, d)\<close>\<close>
  pe_an :: analyses                  \<comment> \<open>\<open>DominatorTree\<close>, \<open>LoopInfo\<close>, speculation safety\<close>
  pe_environ :: environment          \<comment> \<open>\<open>std::getenv\<close>\<close>

text \<open>The static counters of the translation unit.\<close>

record counters =
  ct_trace :: trace_stats            \<comment> \<open>\<open>g_traceIdStats\<close>\<close>
  ct_hoist :: hoist_stats            \<comment> \<open>\<open>g_hoistStats\<close>\<close>
  ct_peak :: nat                     \<comment> \<open>\<open>g_peakLivePressure\<close>\<close>

text \<open>The inputs of the loop over the traces.\<close>

record global_ctx =
  gc_env :: pass_env
  gc_index :: "val \<Rightarrow> nat option"
  gc_live :: live_map
  gc_pressure :: bool

definition hoist_ctx_of :: "global_ctx \<Rightarrow> bid list \<Rightarrow> hoist_ctx" where
  "hoist_ctx_of gc trace = \<lparr>hc_an = pe_an (gc_env gc), hc_trace = trace, hc_index = gc_index gc,
     hc_live = gc_live gc, hc_pressure = gc_pressure gc,
     hc_budget = getPressureBudget (pe_environ (gc_env gc)),
     hc_stats = schedStatsEnabled (pe_environ (gc_env gc))\<rparr>"

definition sched_ctx_of :: "global_ctx \<Rightarrow> func \<Rightarrow> sched_ctx" where
  "sched_ctx_of gc F = \<lparr>sc_func = F, sc_index = gc_index gc, sc_live = gc_live gc,
     sc_pressure = gc_pressure gc, sc_stats = schedStatsEnabled (pe_environ (gc_env gc))\<rparr>"

definition schedule_trace :: "global_ctx \<Rightarrow> func \<times> hoist_stats \<times> nat \<Rightarrow> bid list \<times> ddg \<Rightarrow>
    (func \<times> hoist_stats \<times> nat) option" where
  "schedule_trace gc s td = (case s of (F, hs, peak) \<Rightarrow> (case td of (trace, ddg) \<Rightarrow>
     (let currentLive = l_in (live_at (gc_live gc) (trace ! 0))
      in case listSchedule (sched_ctx_of gc F) ddg currentLive peak of None \<Rightarrow> None
         | Some st \<Rightarrow> (case applySchedule (hoist_ctx_of gc trace) (ss_schedule st) F hs of
              (G, hs') \<Rightarrow> Some (G, hs', ss_peak st)))))"

fun schedule_traces :: "global_ctx \<Rightarrow> func \<times> hoist_stats \<times> nat \<Rightarrow> (bid list \<times> ddg) list \<Rightarrow>
    (func \<times> hoist_stats \<times> nat) option" where
  "schedule_traces gc s [] = Some s"
| "schedule_traces gc s (td # tds) = (case schedule_trace gc s td of None \<Rightarrow> None
     | Some s' \<Rightarrow> schedule_traces gc s' tds)"

definition globalSchedulerPass_run :: "pass_env \<Rightarrow> bool \<Rightarrow> func \<Rightarrow> counters \<Rightarrow> (func \<times> counters) option" where
  "globalSchedulerPass_run env usePressure F ct =
     (case computeLiveness F of None \<Rightarrow> None | Some livenessResult \<Rightarrow>
      (case computeReaching F of None \<Rightarrow> None | Some reachingResult \<Rightarrow>
       (case identifyTraces F (pe_prob env) (pe_freq env) (getTraceThreshold (pe_mkprob env) (pe_environ env))
               (schedStatsEnabled (pe_environ env)) (ct_trace ct) of
          None \<Rightarrow> None
        | Some (traces, tstats) \<Rightarrow>
            (let ddgs = map computeCriticalPath (buildDDG F traces);
                 gc = \<lparr>gc_env = env, gc_index = buildValueIndex (universe F), gc_live = livenessResult,
                       gc_pressure = usePressure\<rparr>
             in case schedule_traces gc (F, resetHoistStats, 0) (zip traces ddgs) of None \<Rightarrow> None
                | Some (G, hs, peak) \<Rightarrow> Some (G, \<lparr>ct_trace = tstats, ct_hoist = hs, ct_peak = peak\<rparr>)))))"

definition localSchedulerPass_run :: "pass_env \<Rightarrow> func \<Rightarrow> counters \<Rightarrow> (func \<times> counters) option" where
  "localSchedulerPass_run env F ct =
     (case computeLiveness F of None \<Rightarrow> None | Some livenessResult \<Rightarrow>
        (case runLocalScheduler \<lparr>lc_index = buildValueIndex (universe F), lc_live = livenessResult,
                lc_stats = schedStatsEnabled (pe_environ env)\<rparr> F 0 of
           None \<Rightarrow> None
         | Some (G, peak) \<Rightarrow> Some (G, ct\<lparr>ct_peak := peak\<rparr>)))"

text \<open>The pipeline parsing callback: \<open>None\<close> is \<open>return false\<close>.\<close>

datatype pass_kind = GlobalPass bool | LocalPass

definition parse_pass :: "string \<Rightarrow> pass_kind option" where
  "parse_pass name =
     (if name = ''globalSchedulerPass'' then Some (GlobalPass True)
      else if name = ''localSchedulerPass'' then Some LocalPass
      else if name = ''globalSchedulerPassNoPressure'' then Some (GlobalPass False)
      else None)"

definition run_pass :: "pass_env \<Rightarrow> pass_kind \<Rightarrow> func \<Rightarrow> counters \<Rightarrow> (func \<times> counters) option" where
  "run_pass env k F ct = (case k of GlobalPass p \<Rightarrow> globalSchedulerPass_run env p F ct
     | LocalPass \<Rightarrow> localSchedulerPass_run env F ct)"

section \<open>One trace\<close>

lemma phase1_outside:
  assumes d: "dist_func F" and t: "set trace \<subseteq> set (f_blocks F)" and b: "b \<notin> set trace"
  shows "f_body (phase1 schedule trace F) b = f_body F b"
proof -
  have "f_body (reorderBlockWithinRegions schedule G c) b = f_body G b" if "same_insts F G" "c \<in> set trace" for G c
  proof (rule reorder_other [OF same_insts_dist [OF that(1) d]])
    show "c \<in> set (f_blocks G)" using that t by (auto simp: same_insts_def same_frame_def)
    show "b \<noteq> c" using b that(2) by blast
  qed
  then show ?thesis using phase1_invariant [OF t d, where P = "\<lambda>G. f_body G b = f_body F b"] by simp
qed

lemma hoists_outside:
  assumes "hoists an trace F G" "distinct trace" "b \<notin> set trace" shows "f_body G b = f_body F b"
  using assms(1)
proof (induction rule: hoists.induct)
  case (hoists_move G i b0 t p xs ys us)
  then show ?case using legal_hoist_blocks [OF hoists_move.hyps(2) assms(2)] assms(3) by auto
qed simp

lemma applySchedule_outside:
  assumes d: "dist_func F" and ok: "apply_ok c schedule F" and run: "applySchedule c schedule F st = (G, st')"
    and b: "b \<notin> set (hc_trace c)"
  shows "f_body G b = f_body F b"
proof -
  obtain F1 where F1: "F1 = phase1 schedule (hc_trace c) F" "hoists (hc_an c) (hc_trace c) F1 G"
    by (rule applySchedule_phases [OF d ok run])
  show ?thesis
    using hoists_outside [OF F1(2) _ b] phase1_outside [OF d _ b] ok F1(1) by (simp add: apply_ok_def)
qed

text \<open>What the loop over the traces keeps; \<open>rest\<close> are the traces still to come.\<close>

definition legal_position :: "analyses \<Rightarrow> bid list list \<Rightarrow> func \<Rightarrow> func \<Rightarrow> bool" where
  "legal_position an traces F G \<longleftrightarrow> (\<forall>b \<in> set (f_blocks F). \<forall>c \<in> set (f_blocks F). \<forall>i.
     i \<in> set (f_body F b) \<longrightarrow> i \<in> set (f_body G c) \<longrightarrow> c = b \<or>
       (\<not> isSchedulingAnchor F i \<and> (\<exists>t \<in> set traces. precedes t c b) \<and> \<not> an_loop_header an c \<and>
        isSameLoopOrOuter an b c \<and> an_dom an c b))"

definition global_inv :: "analyses \<Rightarrow> bid list list \<Rightarrow> bid list list \<Rightarrow> func \<Rightarrow> func \<Rightarrow> bool" where
  "global_inv an traces rest F G \<longleftrightarrow> same_insts F G \<and> wf_func G \<and> (ssa F \<longrightarrow> ssa G) \<and>
     (\<forall>b. filter (isSchedulingAnchor F) (f_body G b) = filter (isSchedulingAnchor F) (f_body F b)) \<and>
     (\<forall>t \<in> set rest. \<forall>b \<in> set t. f_body G b = f_body F b) \<and> legal_position an traces F G"

lemma insts_of_cong: "\<forall>b \<in> set bs. f_body G b = f_body F b \<Longrightarrow> insts_of G bs = insts_of F bs"
  by (induction bs) auto

lemma distinct_insts_of_sub:
  assumes "dist_func F" "distinct bs" "set bs \<subseteq> set (f_blocks F)"
  shows "distinct (insts_of F bs)"
  using assms(2,3)
proof (induction bs)
  case (Cons b bs)
  then have "set (f_body F b) \<inter> set (insts_of F bs) = {}"
    using dist_same_block [OF assms(1), of b] by (auto simp: set_insts_of)
  then show ?case using Cons dist_func_body [OF assms(1), of b] by simp
qed simp

lemma applySchedule_legal_position:
  assumes d: "dist_func F" and si: "same_insts F G" and ok: "apply_ok hc s G" and run: "applySchedule hc s G hs = (H, hs')"
    and t: "hc_trace hc \<in> set traces" and same_t: "\<forall>b \<in> set (hc_trace hc). f_body G b = f_body F b"
    and legal: "legal_position (hc_an hc) traces F G"
  shows "legal_position (hc_an hc) traces F H"
  unfolding legal_position_def
proof (intro ballI allI impI)
  let ?an = "hc_an hc" and ?t = "hc_trace hc"
  fix b c i assume b: "b \<in> set (f_blocks F)" and c: "c \<in> set (f_blocks F)"
    and i: "i \<in> set (f_body F b)" "i \<in> set (f_body H c)"
  have fb: "f_blocks G = f_blocks F" and dG: "dist_func G" and anc: "isSchedulingAnchor G = isSchedulingAnchor F"
    using si same_insts_dist [OF si d] by (auto simp: same_insts_def same_frame_def intro: anchor_frame)
  have "set (all_insts G) = set (all_insts F)" using si mset_eq_setD unfolding same_insts_def by blast
  moreover have "i \<in> set (all_insts F)" using i(1) b unfolding set_insts_of by blast
  ultimately obtain e where e: "e \<in> set (f_blocks F)" "i \<in> set (f_body G e)" unfolding set_insts_of fb by blast
  note pos = applySchedule_positions [OF dG ok run _ e(2) _ i(2), unfolded fb, OF e(1) c]
  have eb: "e = b" if "e \<in> set ?t"
    using that same_t e dist_same_block [OF d e(1) b _ i(1)] by simp
  show "c = b \<or> (\<not> isSchedulingAnchor F i \<and> (\<exists>t \<in> set traces. precedes t c b) \<and> \<not> an_loop_header ?an c \<and>
      isSameLoopOrOuter ?an b c \<and> an_dom ?an c b)"
  proof (cases "c = e")
    case True
    then show ?thesis using legal b c i(1) e(2) unfolding legal_position_def by blast
  next
    case False
    then have "e \<in> set ?t" using pos(2) by (auto dest: precedes_in)
    then show ?thesis using pos [OF False] eb anc t by auto
  qed
qed

text \<open>The schedule of a trace that earlier traces have left alone is a legal input.\<close>

lemma trace_schedule_ok:
  assumes wf: "wf_func F" and t: "distinct t" "set t \<subseteq> set (f_blocks F)" and fr: "same_frame F G"
    and same_t: "\<forall>b \<in> set t. f_body G b = f_body F b"
  obtains st where "listSchedule (sched_ctx_of gc G) (computeCriticalPath (trace_ddg F t)) live peak = Some st"
    "apply_ok (hoist_ctx_of gc t) (ss_schedule st) G"
proof -
  have dt: "distinct (insts_of F t)" by (rule distinct_insts_of_sub [OF wf_dist_func [OF wf] t])
  obtain st where st: "listSchedule (sched_ctx_of gc G) (computeCriticalPath (trace_ddg F t)) live peak = Some st"
    using schedule_exists [OF trace_ddg_graph [OF dt] trace_ddg_fresh [OF dt]] by blast
  have ts: "trace_schedule F t (ss_schedule st)"
    unfolding trace_schedule_def using st fr by (intro exI [of _ "sched_ctx_of gc G"]) (auto simp: sched_ctx_of_def)
  have "set (ss_schedule st) \<subseteq> set (insts_of G t)"
    using tracesched.produced_scope [OF dt ts] insts_of_cong [OF same_t] by auto
  moreover have "order_ok G (ss_schedule st)"
    using tracesched.order_ok [OF dt ts] order_ok_frame [OF fr] by simp
  ultimately have "apply_ok (hoist_ctx_of gc t) (ss_schedule st) G"
    using t fr by (simp add: apply_ok_def hoist_ctx_of_def same_frame_def)
  then show thesis using that st by blast
qed

lemma schedule_trace_step:
  assumes wf: "wf_func F" and sound: "dom_sound (pe_an (gc_env gc)) F"
    and t: "distinct t" "set t \<subseteq> set (f_blocks F)" "t \<in> set traces" and rest: "set t \<inter> set (concat rest) = {}"
    and inv: "global_inv (pe_an (gc_env gc)) traces (t # rest) F G"
  obtains H hs' peak' where "schedule_trace gc (G, hs, peak) (t, computeCriticalPath (trace_ddg F t)) = Some (H, hs', peak')"
    "global_inv (pe_an (gc_env gc)) traces rest F H" "balanced hs \<Longrightarrow> balanced hs'"
proof -
  let ?hc = "hoist_ctx_of gc t"
  have hc: "hc_an ?hc = pe_an (gc_env gc)" "hc_trace ?hc = t" by (simp_all add: hoist_ctx_of_def)
  have si: "same_insts F G" and wfG: "wf_func G" and same_t: "\<forall>b \<in> set t. f_body G b = f_body F b"
    using inv by (simp_all add: global_inv_def)
  have fr: "same_frame F G" using si by (simp add: same_insts_def)
  note d = wf_dist_func [OF wf] and dG = wf_dist_func [OF wfG]
  obtain st where st: "listSchedule (sched_ctx_of gc G) (computeCriticalPath (trace_ddg F t)) (l_in (live_at (gc_live gc) (t ! 0))) peak = Some st"
    and ok: "apply_ok ?hc (ss_schedule st) G"
    by (rule trace_schedule_ok [OF wf t(1,2) fr same_t])
  obtain H hs' where run: "applySchedule ?hc (ss_schedule st) G hs = (H, hs')" by force
  have "same_insts F H" using same_insts_trans [OF si applySchedule_same_insts [OF dG ok run]] .
  moreover have "wf_func H" by (rule applySchedule_wf [OF wfG ok run])
  moreover have "ssa H" if "ssa F"
    using that inv applySchedule_ssa [OF dG ok run] sound dom_sound_same [OF si] hc by (simp add: global_inv_def)
  moreover have "filter (isSchedulingAnchor F) (f_body H b) = filter (isSchedulingAnchor F) (f_body F b)" for b
  proof -
    have "isSchedulingAnchor G = isSchedulingAnchor F" using fr by (intro anchor_frame) (simp add: same_frame_def)
    then show ?thesis using applySchedule_anchors [OF dG ok run, of b] inv by (simp add: global_inv_def)
  qed
  moreover have "f_body H b = f_body F b" if "u \<in> set rest" "b \<in> set u" for u b
    using applySchedule_outside [OF dG ok run, of b] rest that inv hc(2) by (auto simp: global_inv_def)
  moreover have "legal_position (pe_an (gc_env gc)) traces F H"
    using applySchedule_legal_position [OF d si ok run] t(3) same_t inv hc by (simp add: global_inv_def)
  ultimately have "global_inv (pe_an (gc_env gc)) traces rest F H" unfolding global_inv_def by blast
  moreover have "balanced hs'" if "balanced hs"
    using that run phase2_balanced by (auto simp: applySchedule_def split: prod.splits)
  moreover have "schedule_trace gc (G, hs, peak) (t, computeCriticalPath (trace_ddg F t)) = Some (H, hs', ss_peak st)"
    using st run by (simp add: schedule_trace_def Let_def)
  ultimately show thesis using that by blast
qed

section \<open>The whole pass\<close>

lemma schedule_traces_result:
  assumes wf: "wf_func F" and sound: "dom_sound (pe_an (gc_env gc)) F"
    and ts: "distinct (concat ts)" "\<forall>t \<in> set ts. distinct t \<and> set t \<subseteq> set (f_blocks F)" "set ts \<subseteq> set traces"
    and inv: "global_inv (pe_an (gc_env gc)) traces ts F G" and "balanced hs"
  shows "\<exists>H hs' peak'. schedule_traces gc (G, hs, peak) (zip ts (map computeCriticalPath (buildDDG F ts))) = Some (H, hs', peak') \<and>
    global_inv (pe_an (gc_env gc)) traces [] F H \<and> balanced hs'"
  using ts inv \<open>balanced hs\<close>
proof (induction ts arbitrary: G hs peak)
  case (Cons t ts)
  have "distinct t" "set t \<subseteq> set (f_blocks F)" "t \<in> set traces" "set t \<inter> set (concat ts) = {}"
    using Cons.prems(1-3) by auto
  then obtain H hs1 p1 where H: "schedule_trace gc (G, hs, peak) (t, computeCriticalPath (trace_ddg F t)) = Some (H, hs1, p1)"
      "global_inv (pe_an (gc_env gc)) traces ts F H" "balanced hs \<Longrightarrow> balanced hs1"
    using schedule_trace_step [OF wf sound _ _ _ _ Cons.prems(4)] by metis
  then show ?case
    using Cons.IH [OF _ _ _ H(2), of hs1 p1] Cons.prems by (auto simp: buildDDG_def)
qed simp

lemma globalSchedulerPass_result:
  assumes wf: "wf_func F" and sound: "dom_sound (pe_an env) F"
  obtains G ct' traces tst where "globalSchedulerPass_run env usePressure F ct = Some (G, ct')"
    "identifyTraces F (pe_prob env) (pe_freq env) (getTraceThreshold (pe_mkprob env) (pe_environ env))
       (schedStatsEnabled (pe_environ env)) (ct_trace ct) = Some (traces, tst)"
    "global_inv (pe_an env) traces [] F G" "balanced (ct_hoist ct')"
proof -
  obtain lv where lv: "computeLiveness F = Some lv" by (rule computeLiveness_result [OF wf])
  obtain rr where rr: "computeReaching F = Some rr" using computeReaching_result [OF wf] by metis
  let ?thr = "getTraceThreshold (pe_mkprob env) (pe_environ env)" and ?on = "schedStatsEnabled (pe_environ env)"
  obtain order ts tst where o: "bfs_order F = Some order"
    and tr: "identifyTraces F (pe_prob env) (pe_freq env) ?thr ?on (ct_trace ct) = Some (ts, tst)"
    and ok: "traces_ok (mk_trace_ctx F (pe_prob env) (pe_freq env) ?thr ?on order) order ts"
    by (rule identifyTraces_result [OF wf])
  have "set order \<subseteq> set (f_blocks F)" using bfs_order_correct [OF wf o] reachable_block [OF wf] by auto
  then have blocks: "\<forall>t \<in> set ts. distinct t \<and> set t \<subseteq> set (f_blocks F)" "distinct (concat ts)"
    using ok by (auto simp: traces_ok_def trace_ok_def)
  let ?gc = "\<lparr>gc_env = env, gc_index = buildValueIndex (universe F), gc_live = lv, gc_pressure = usePressure\<rparr>"
  have "global_inv (pe_an env) ts ts F F"
    unfolding global_inv_def legal_position_def using wf dist_same_block [OF wf_dist_func [OF wf]] by auto
  moreover have "balanced resetHoistStats" by (simp add: balanced_def resetHoistStats_def hs_blocked_def)
  ultimately obtain G hs peak where G: "schedule_traces ?gc (F, resetHoistStats, 0) (zip ts (map computeCriticalPath (buildDDG F ts))) = Some (G, hs, peak)"
      "global_inv (pe_an env) ts [] F G" "balanced hs"
    using schedule_traces_result [OF wf, of ?gc ts ts F resetHoistStats 0] blocks sound by auto
  have "globalSchedulerPass_run env usePressure F ct = Some (G, \<lparr>ct_trace = tst, ct_hoist = hs, ct_peak = peak\<rparr>)"
    using lv rr tr G(1) by (simp add: globalSchedulerPass_run_def Let_def)
  then show thesis using that tr G(2,3) by simp
qed

end
