(* ===== verification/Dominators.thy ===== *)
theory Dominators
  imports CFG
begin

text \<open>
  \<open>include/dom.hpp\<close>: dominator sets as a greatest fixed point over the blocks in
  breadth-first order, and immediate dominators read off them.  The sets are shown to be the
  path-based dominance relation of \<open>CFG\<close>, the immediate dominator to be the closest strict
  dominator, on every well-formed function.
\<close>

section \<open>The computation\<close>

record dom_info =
  di_order :: "bid list"
  di_idx :: "bid \<Rightarrow> nat option"
  di_dom :: "bid \<Rightarrow> bitvec option"
  di_idom :: "bid \<Rightarrow> bid option option"     \<comment> \<open>the inner \<open>None\<close> is \<open>nullptr\<close>\<close>

type_synonym dom_map = "bid \<Rightarrow> bitvec option"

abbreviation dom_at :: "dom_map \<Rightarrow> bid \<Rightarrow> bitvec" where
  "dom_at m b \<equiv> dm_get [] m b"

definition block_idx :: "bid list \<Rightarrow> (bid \<Rightarrow> nat option)" where
  "block_idx order = foldl (\<lambda>m i. m(order ! i \<mapsto> i)) Map.empty [0..<length order]"

definition dom_init :: "bid list \<Rightarrow> dom_map" where
  "dom_init order =
     (let m = foldl (\<lambda>m i. m(order ! i \<mapsto> bv_new (length order) True)) Map.empty [0..<length order];
          m1 = m(order ! 0 \<mapsto> bv_clear (dom_at m (order ! 0)))
      in m1(order ! 0 \<mapsto> bv_set (dom_at m1 (order ! 0)) 0))"

text \<open>The meet over the predecessors that have an index.\<close>

definition dom_meet :: "func \<Rightarrow> bid list \<Rightarrow> dom_map \<Rightarrow> bid \<Rightarrow> bitvec \<times> bool" where
  "dom_meet F order m b = foldl (\<lambda>(newDom, hasPred) pred. case block_idx order pred of
       None \<Rightarrow> (newDom, hasPred) | Some _ \<Rightarrow> (bv_and newDom (dom_at m pred), True))
     (bv_new (length order) True, False) (f_preds F b)"

definition dom_new :: "func \<Rightarrow> bid list \<Rightarrow> dom_map \<Rightarrow> nat \<Rightarrow> bitvec" where
  "dom_new F order m i = (case dom_meet F order m (order ! i) of (newDom, hasPred) \<Rightarrow>
     bv_set (if \<not> hasPred then bv_clear newDom else newDom) i)"

definition dom_visit :: "func \<Rightarrow> bid list \<Rightarrow> dom_map \<times> bool \<Rightarrow> nat \<Rightarrow> dom_map \<times> bool" where
  "dom_visit F order mc i = (case mc of (m, changed) \<Rightarrow>
     (if dom_new F order m i \<noteq> dom_at m (order ! i)
      then (m(order ! i \<mapsto> dom_new F order m i), True) else (m, changed)))"

text \<open>The search for the strict dominator that no other strict dominator is dominated by.\<close>

definition find_idom :: "bid list \<Rightarrow> dom_map \<Rightarrow> nat \<Rightarrow> bid option" where
  "find_idom order m i =
     (let strictDom = bv_reset (dom_at m (order ! i)) i
      in map_option (\<lambda>d. order ! d)
           (find (\<lambda>d. \<not> list_ex (\<lambda>d2. d2 \<noteq> d \<and> bv_test (dom_at m (order ! d2)) d) (bv_bits strictDom))
             (bv_bits strictDom)))"

definition computeDominators :: "func \<Rightarrow> dom_info option" where
  "computeDominators F = (case bfs_order F of None \<Rightarrow> None
     | Some order \<Rightarrow> (case rr_loop (dom_visit F order) [1..<length order] (dom_init order) of None \<Rightarrow> None
        | Some (m, _) \<Rightarrow> Some \<lparr>di_order = order, di_idx = block_idx order, di_dom = m,
            di_idom = foldl (\<lambda>r i. r(order ! i \<mapsto> find_idom order m i)) [order ! 0 \<mapsto> None] [1..<length order]\<rparr>))"

section \<open>The fixed point\<close>

definition dom_setting :: "func \<times> bid list \<Rightarrow> bool" where
  "dom_setting Fo \<longleftrightarrow> wf_func (fst Fo) \<and> bfs_order (fst Fo) = Some (snd Fo)"

lemma block_idx_Some: "distinct order \<Longrightarrow> block_idx order b = Some k \<longleftrightarrow> k < length order \<and> order ! k = b"
  unfolding block_idx_def by (rule build_index_fold) simp_all

lemma block_idx_None: "distinct order \<Longrightarrow> block_idx order b = None \<longleftrightarrow> b \<notin> set order"
  using block_idx_Some [of order b] by (cases "block_idx order b") (auto simp: in_set_conv_nth)

lemma dom_setting_facts:
  assumes "dom_setting (F, order)"
  shows "wf_func F" "distinct order" "set order = {b. reachable F b}" "order \<noteq> []" "order ! 0 = entry_block F"
    "bfs_inv F (length order, order)"
  using assms bfs_order_correct [of F order] by (auto simp: dom_setting_def)

text \<open>A visit computes the intersection over the reachable predecessors.\<close>

lemma dom_meet_result:
  assumes "distinct order"
  shows "dom_meet F order m b =
    (foldl (\<lambda>acc p. bv_and acc (dom_at m p)) (bv_new (length order) True) (filter (\<lambda>p. p \<in> set order) (f_preds F b)),
     \<exists>p \<in> set (f_preds F b). p \<in> set order)"
proof -
  have "foldl (\<lambda>(newDom, hasPred) pred. case block_idx order pred of
       None \<Rightarrow> (newDom, hasPred) | Some _ \<Rightarrow> (bv_and newDom (dom_at m pred), True)) (v, h) ps =
     (foldl (\<lambda>acc p. bv_and acc (dom_at m p)) v (filter (\<lambda>p. p \<in> set order) ps), h \<or> (\<exists>p \<in> set ps. p \<in> set order))"
    for v h ps
  proof (induction ps arbitrary: v h)
    case (Cons p ps)
    then show ?case using block_idx_None [OF assms, of p] by (cases "block_idx order p") auto
  qed simp
  then show ?thesis by (simp add: dom_meet_def)
qed

lemma dom_new_result:
  assumes s: "dom_setting (F, order)" and i: "0 < i" "i < length order"
  shows "length (dom_new F order m i) = length order"
    "bv_test (dom_new F order m i) j \<longleftrightarrow> j = i \<or> (j < length order \<and>
       (\<forall>p \<in> set (f_preds F (order ! i)). reachable F p \<longrightarrow> bv_test (dom_at m p) j))"
proof -
  note f = dom_setting_facts [OF s]
  have "order ! i \<noteq> entry_block F" using f(2,4,5) i by (metis length_greater_0_conv nat_neq_iff nth_eq_iff_index_eq)
  moreover have "reachable F (order ! i)" using f(3) i nth_mem by blast
  ultimately have "\<exists>p \<in> set (f_preds F (order ! i)). p \<in> set order"
    using has_reachable_pred [OF f(1)] f(3) by blast
  then have eq: "dom_new F order m i = bv_set (foldl (\<lambda>acc p. bv_and acc (dom_at m p)) (bv_new (length order) True)
      (filter (\<lambda>p. p \<in> set order) (f_preds F (order ! i)))) i"
    by (simp add: dom_new_def dom_meet_result [OF f(2)])
  show "length (dom_new F order m i) = length order"
    unfolding eq by (simp add: bv_simps bv.meet_size)
  show "bv_test (dom_new F order m i) j \<longleftrightarrow> j = i \<or> (j < length order \<and>
       (\<forall>p \<in> set (f_preds F (order ! i)). reachable F p \<longrightarrow> bv_test (dom_at m p) j))"
    unfolding eq using i f(3) by (auto simp: bv_simps bv.meet_test bv.meet_size)
qed

text \<open>The invariant: the entry's set is \<open>{entry}\<close>, every set contains the dominators, and
  every set contains its right-hand side, so that a visit can only remove bits.\<close>

definition dom_inv :: "func \<times> bid list \<Rightarrow> dom_map \<Rightarrow> bool" where
  "dom_inv Fo m \<longleftrightarrow> (case Fo of (F, order) \<Rightarrow> dom_setting (F, order) \<and>
     (\<forall>j. bv_test (dom_at m (order ! 0)) j \<longleftrightarrow> j = 0) \<and>
     (\<forall>i < length order. length (dom_at m (order ! i)) = length order) \<and>
     (\<forall>i < length order. \<forall>j < length order. dominates F (order ! j) (order ! i) \<longrightarrow> bv_test (dom_at m (order ! i)) j) \<and>
     (\<forall>i. 0 < i \<longrightarrow> i < length order \<longrightarrow> (\<forall>j. bv_test (dom_new F order m i) j \<longrightarrow> bv_test (dom_at m (order ! i)) j)))"

definition dom_ok :: "func \<times> bid list \<Rightarrow> nat \<Rightarrow> dom_map \<Rightarrow> bool" where
  "dom_ok Fo i m \<longleftrightarrow> (case Fo of (F, order) \<Rightarrow> dom_at m (order ! i) = dom_new F order m i)"

definition dom_mu :: "func \<times> bid list \<Rightarrow> dom_map \<Rightarrow> nat" where
  "dom_mu Fo m = (\<Sum>i \<leftarrow> [1..<length (snd Fo)]. bv_count (dom_at m (snd Fo ! i)))"

lemma dom_init_at:
  assumes "order \<noteq> []" "distinct order" "i < length order"
  shows "dom_at (dom_init order) (order ! i) =
    (if i = 0 then bv_set (bv_new (length order) False) 0 else bv_new (length order) True)"
proof -
  let ?m = "foldl (\<lambda>m i. m(order ! i \<mapsto> bv_new (length order) True)) Map.empty [0..<length order]"
  have "?m b = (if b \<in> set (map ((!) order) [0..<length order]) then Some (bv_new (length order) True) else None)" for b
    using foldl_upd_map [where ks = "map ((!) order) [0..<length order]" and f = "\<lambda>_. bv_new (length order) True" and ?m0.0 = Map.empty and j = b]
    by (simp add: foldl_map)
  then have m: "dom_at ?m (order ! k) = bv_new (length order) True" if "k < length order" for k
    using that by (simp add: dm_get_def map_nth)
  show ?thesis
    using assms m [of i] m [of 0]
    by (cases "i = 0") (simp_all add: dom_init_def Let_def nth_eq_iff_index_eq bv_clear_def bv_simps)
qed

lemma dom_inv_init:
  assumes s: "dom_setting (F, order)" shows "dom_inv (F, order) (dom_init order)"
proof -
  note f = dom_setting_facts [OF s]
  note at = dom_init_at [OF f(4,2)]
  have "j = 0" if "j < length order" "dominates F (order ! j) (order ! 0)" for j
    using bfs_dominator_earlier [OF f(6) _ that(1), of 0] f(4) that(2) by simp
  then show ?thesis
    using s f(4) dom_new_result [OF s] unfolding dom_inv_def
    by (auto simp: at bv_simps)
qed

lemma dom_visit_cases:
  assumes "dom_visit F order (m, c) i = (m', c')"
  obtains (quiet) "m' = m" "c' = c" "dom_new F order m i = dom_at m (order ! i)"
    | (change) "m' = m(order ! i \<mapsto> dom_new F order m i)" c' "dom_new F order m i \<noteq> dom_at m (order ! i)"
  using assms that by (auto simp: dom_visit_def split: if_splits)

lemma dom_inv_visit:
  assumes inv: "dom_inv (F, order) m" and i: "0 < i" "i < length order"
  shows "dom_inv (F, order) (m(order ! i \<mapsto> dom_new F order m i))"
proof -
  let ?m = "m(order ! i \<mapsto> dom_new F order m i)"
  have s: "dom_setting (F, order)" using inv by (simp add: dom_inv_def)
  note f = dom_setting_facts [OF s] and new = dom_new_result [OF s]
  have idx: "order ! k = order ! i \<longleftrightarrow> k = i" if "k < length order" for k
    using f(2) that i by (simp add: nth_eq_iff_index_eq)
  have ge: "bv_test (dom_new F order m i) j \<Longrightarrow> bv_test (dom_at m (order ! i)) j" for j
    using inv i by (simp add: dom_inv_def)
  have shrink: "bv_test (dom_at ?m b) j \<Longrightarrow> bv_test (dom_at m b) j" for b j
    using ge by (cases "b = order ! i") auto
  have "bv_test (dom_new F order m i) j" if j: "j < length order" "dominates F (order ! j) (order ! i)" for j
  proof -
    have "bv_test (dom_at m p) j" if p: "p \<in> set (f_preds F (order ! i))" "reachable F p" "j \<noteq> i" for p
    proof -
      have "cfg_edge F p (order ! i)"
        using p wf_preds_succs [OF f(1), of p "order ! i"] reachable_block [OF f(1)] f(3) i nth_mem
        by (simp add: cfg_edge_def) blast
      moreover have "order ! j \<noteq> order ! i" using idx [OF j(1)] p(3) by simp
      ultimately have "dominates F (order ! j) p" using dominates_pred j(2) by blast
      moreover obtain k where "k < length order" "order ! k = p" using f(3) p(2) by (metis in_set_conv_nth mem_Collect_eq)
      ultimately show ?thesis using inv j(1) by (auto simp: dom_inv_def)
    qed
    then show ?thesis using new(2) [OF i] j(1) by blast
  qed
  moreover have "bv_test (dom_new F order ?m k) j \<Longrightarrow> bv_test (dom_at ?m (order ! k)) j"
    if k: "0 < k" "k < length order" for k j
  proof -
    assume t: "bv_test (dom_new F order ?m k) j"
    then have "bv_test (dom_new F order m k) j" using new(2) [OF k] shrink by blast
    then show "bv_test (dom_at ?m (order ! k)) j"
      using inv k idx [OF k(2)] by (cases "k = i") (auto simp: dom_inv_def)
  qed
  ultimately show ?thesis
    using inv new(1) [OF i] idx i f(4) unfolding dom_inv_def by auto
qed

lemma dom_mu_decreases:
  assumes inv: "dom_inv (F, order) m" and i: "0 < i" "i < length order"
    and ne: "dom_new F order m i \<noteq> dom_at m (order ! i)"
  shows "dom_mu (F, order) (m(order ! i \<mapsto> dom_new F order m i)) < dom_mu (F, order) m"
proof -
  have s: "dom_setting (F, order)" using inv by (simp add: dom_inv_def)
  note f = dom_setting_facts [OF s]
  have "bv_count (dom_new F order m i) < bv_count (dom_at m (order ! i))"
    by (rule bv_count_strict_mono) (use inv i ne dom_new_result(1) [OF s i] in \<open>auto simp: dom_inv_def\<close>)
  moreover have "i \<in> set [1..<length order]" using i by simp
  ultimately show ?thesis
    unfolding dom_mu_def by (intro sum_list_strict_mono_at) auto
qed

interpretation domfix: round_robin dom_inv "\<lambda>Fo. [1..<length (snd Fo)]" "\<lambda>Fo. dom_visit (fst Fo) (snd Fo)" dom_mu dom_ok
proof unfold_locales
  fix Fo :: "func \<times> bid list" and m c i m' c'
  assume a: "dom_inv Fo m" "i \<in> set [1..<length (snd Fo)]" "dom_visit (fst Fo) (snd Fo) (m, c) i = (m', c')"
  obtain F order where Fo: "Fo = (F, order)" by force
  have i: "0 < i" "i < length order" using a(2) Fo by auto
  have v: "dom_visit F order (m, c) i = (m', c')" using a(3) Fo by simp
  show "dom_inv Fo m'" using v
    by (cases rule: dom_visit_cases) (use a(1) dom_inv_visit [OF _ i] Fo in auto)
  show "c' = c \<and> dom_mu Fo m' \<le> dom_mu Fo m \<and> dom_ok Fo i m' \<and>
      (\<forall>k \<in> set [1..<length (snd Fo)]. dom_ok Fo k m \<longrightarrow> dom_ok Fo k m') \<or> c' \<and> dom_mu Fo m' < dom_mu Fo m"
    using v by (cases rule: dom_visit_cases) (use a(1) dom_mu_decreases [OF _ i] Fo in \<open>auto simp: dom_ok_def\<close>)
qed

section \<open>Correctness\<close>

lemma dom_fixpoint_sound:
  assumes inv: "dom_inv (F, order) m" and ok: "\<forall>i \<in> set [1..<length order]. dom_ok (F, order) i m"
    and path: "entry_path F p b" and i: "i < length order" "order ! i = b" and t: "bv_test (dom_at m b) j"
  shows "j < length order \<and> order ! j \<in> set p"
proof -
  have s: "dom_setting (F, order)" using inv by (simp add: dom_inv_def)
  note f = dom_setting_facts [OF s]
  have entry: "j = 0" if "bv_test (dom_at m (entry_block F)) j" for j
    using inv that f(5) by (simp add: dom_inv_def)
  show ?thesis
    using path i t
  proof (induction arbitrary: i rule: entry_path_induct)
    case entry
    then show ?case using f(4,5) \<open>\<And>j. _ \<Longrightarrow> j = 0\<close> by force
  next
    case (step p b c)
    show ?case
    proof (cases "i = 0")
      case True
      then have "c = entry_block F" using step.prems(2) f(5) by simp
      then have "j = 0" using entry step.prems(3) by simp
      then show ?thesis using f(4,5) \<open>c = _\<close> by auto
    next
      case False
      then have i0: "0 < i" by simp
      have "dom_at m c = dom_new F order m i"
        using ok step.prems(1,2) i0 by (auto simp: dom_ok_def)
      then have "j = i \<or> (j < length order \<and> (\<forall>p \<in> set (f_preds F c). reachable F p \<longrightarrow> bv_test (dom_at m p) j))"
        using dom_new_result(2) [OF s i0 step.prems(1), of m j] step.prems(2,3) by simp
      then show ?thesis
      proof
        assume "j = i" then show ?thesis using step.prems(1,2) by simp
      next
        assume *: "j < length order \<and> (\<forall>p \<in> set (f_preds F c). reachable F p \<longrightarrow> bv_test (dom_at m p) j)"
        have rb: "reachable F b" using step.hyps(1) by (auto simp: reachable_def)
        then have "c \<in> set (f_blocks F)" using reachable_step step.hyps(2) reachable_block [OF f(1)] by blast
        then have "b \<in> set (f_preds F c)"
          using wf_preds_succs [OF f(1)] step.hyps(2) reachable_block [OF f(1) rb] by (simp add: cfg_edge_def)
        moreover obtain k where "k < length order" "order ! k = b" using f(3) rb by (metis in_set_conv_nth mem_Collect_eq)
        ultimately show ?thesis using step.IH * rb by auto
      qed
    qed
  qed
qed

text \<open>The result's dominator sets are dominance.\<close>

lemma computeDominators_result:
  assumes wf: "wf_func F"
  obtains order m where "bfs_order F = Some order" "dom_setting (F, order)"
    "computeDominators F = Some \<lparr>di_order = order, di_idx = block_idx order, di_dom = m,
       di_idom = foldl (\<lambda>r i. r(order ! i \<mapsto> find_idom order m i)) [order ! 0 \<mapsto> None] [1..<length order]\<rparr>"
    "\<And>i j. i < length order \<Longrightarrow> bv_test (dom_at m (order ! i)) j \<longleftrightarrow> j < length order \<and> dominates F (order ! j) (order ! i)"
proof -
  obtain order where o: "bfs_order F = Some order" using bfs_order_result [OF wf] by blast
  have s: "dom_setting (F, order)" using wf o by (simp add: dom_setting_def)
  note f = dom_setting_facts [OF s]
  obtain m where m: "rr_loop (dom_visit F order) [1..<length order] (dom_init order) = Some (m, False)"
    using domfix.loop_terminates [OF dom_inv_init [OF s]] by auto
  have inv: "dom_inv (F, order) m" and ok: "\<forall>i \<in> set [1..<length order]. dom_ok (F, order) i m"
    using domfix.loop_result [OF dom_inv_init [OF s]] m by auto
  have iff: "bv_test (dom_at m (order ! i)) j \<longleftrightarrow> j < length order \<and> dominates F (order ! j) (order ! i)"
    if i: "i < length order" for i j
  proof
    assume t: "bv_test (dom_at m (order ! i)) j"
    obtain p where "entry_path F p (order ! i)" using f(3) i nth_mem unfolding reachable_def by blast
    then have "j < length order" using dom_fixpoint_sound [OF inv ok _ i refl t] by blast
    then show "j < length order \<and> dominates F (order ! j) (order ! i)"
      using dom_fixpoint_sound [OF inv ok _ i refl t] unfolding dominates_def by blast
  qed (use inv i in \<open>auto simp: dom_inv_def\<close>)
  show thesis
  proof (rule that [OF o s _ iff])
    show "computeDominators F = Some \<lparr>di_order = order, di_idx = block_idx order, di_dom = m,
       di_idom = foldl (\<lambda>r i. r(order ! i \<mapsto> find_idom order m i)) [order ! 0 \<mapsto> None] [1..<length order]\<rparr>"
      using o m by (simp only: computeDominators_def option.case prod.case)
  qed
qed

text \<open>The closest strict dominator.\<close>

definition closest_dominator :: "func \<Rightarrow> bid \<Rightarrow> bid \<Rightarrow> bool" where
  "closest_dominator F d b \<longleftrightarrow> dominates F d b \<and> d \<noteq> b \<and> (\<forall>e. dominates F e b \<longrightarrow> e \<noteq> b \<longrightarrow> dominates F e d)"

lemma closest_dominator_unique:
  assumes "reachable F b" "closest_dominator F d b" "closest_dominator F d' b" shows "d = d'"
proof -
  obtain p where "entry_path F p b" using assms(1) by (auto simp: reachable_def)
  moreover then have "d \<in> set p" using assms(2) by (auto simp: closest_dominator_def dominates_def)
  ultimately have "reachable F d"
    using entry_path_prefix by (metis reachable_def split_list)
  then show ?thesis
    using cfgdom.closest_unique [OF assms(1), of d d'] assms(2,3) by (auto simp: closest_dominator_def)
qed

lemma find_idom_closest:
  assumes s: "dom_setting (F, order)" and i: "0 < i" "i < length order"
    and dom: "\<And>i j. i < length order \<Longrightarrow> bv_test (dom_at m (order ! i)) j \<longleftrightarrow> j < length order \<and> dominates F (order ! j) (order ! i)"
  shows "\<exists>d. find_idom order m i = Some d \<and> closest_dominator F d (order ! i)"
proof -
  note f = dom_setting_facts [OF s]
  let ?b = "order ! i" and ?S = "bv_bits (bv_reset (dom_at m (order ! i)) i)"
  have rb: "reachable F ?b" using f(3) i nth_mem by blast
  have S: "d \<in> set ?S \<longleftrightarrow> d < length order \<and> d \<noteq> i \<and> dominates F (order ! d) ?b" for d
    using dom [OF i(2)] by (auto simp: set_bv_bits bv_simps)
  let ?P = "\<lambda>d. \<not> list_ex (\<lambda>d2. d2 \<noteq> d \<and> bv_test (dom_at m (order ! d2)) d) ?S"
  have P: "?P d \<longleftrightarrow> (\<forall>e \<in> set ?S. e \<noteq> d \<longrightarrow> \<not> dominates F (order ! d) (order ! e))" if "d \<in> set ?S" for d
    using S dom that by (auto simp: list_ex_iff)
  have z: "0 \<in> set ?S" using S [of 0] i f(4,5) dominates_entry [of F ?b] by simp
  let ?d = "Max (set ?S)"
  have "set ?S \<noteq> {}" using z by (metis empty_iff)
  then have max: "?d \<in> set ?S" "\<And>e. e \<in> set ?S \<Longrightarrow> e \<le> ?d"
    by (rule Max_in [OF finite_set]) (rule Max_ge [OF finite_set])
  have "\<not> dominates F (order ! ?d) (order ! e)" if e: "e \<in> set ?S" "e \<noteq> ?d" for e
  proof
    assume "dominates F (order ! ?d) (order ! e)"
    then have "?d \<le> e" using bfs_dominator_earlier [OF f(6), of e ?d] S e(1) max(1) by blast
    then show False using max(2) [OF e(1)] e(2) by simp
  qed
  then have "find ?P ?S \<noteq> None" using max(1) P [OF max(1)] by (auto simp: find_None_iff)
  then obtain d where d: "find ?P ?S = Some d" by blast
  then have dS: "d \<in> set ?S" "?P d" by (auto simp: find_Some_iff)
  have "dominates F e (order ! d)" if e: "dominates F e ?b" "e \<noteq> ?b" for e
  proof -
    obtain p where p: "entry_path F p ?b" using rb by (auto simp: reachable_def)
    then have "e \<in> set p" using e(1) by (simp add: dominates_def)
    then have "reachable F e" using entry_path_prefix p by (metis reachable_def split_list)
    then obtain k where k: "k < length order" "order ! k = e" using f(3) by (metis in_set_conv_nth mem_Collect_eq)
    then have kS: "k \<in> set ?S" using S e by auto
    show ?thesis
    proof (cases "k = d")
      case False
      then have "\<not> dominates F (order ! d) e" using P [OF dS(1)] dS(2) kS k(2) by blast
      then show ?thesis using cfgdom.not_below_above [OF rb, of "order ! d" e] S dS(1) e(1) by blast
    qed (use k in simp)
  qed
  moreover have "order ! d \<noteq> ?b" using S dS(1) f(2) i(2) by (simp add: nth_eq_iff_index_eq)
  ultimately have "closest_dominator F (order ! d) ?b"
    using S dS(1) by (simp add: closest_dominator_def)
  then show ?thesis using d by (simp add: find_idom_def Let_def)
qed

lemma idom_table:
  assumes "distinct order" "i < length order"
  shows "foldl (\<lambda>r i. r(order ! i \<mapsto> g i)) [order ! 0 \<mapsto> None] [1..<length order] (order ! i) =
    Some (if i = 0 then None else g i)"
proof -
  have "foldl (\<lambda>r i. r(order ! i \<mapsto> g i)) [order ! 0 \<mapsto> None] [1..<n] (order ! i) =
      (if i = 0 then Some None else if i < n then Some (g i) else None)" if "n \<le> length order" for n
    using that
  proof (induction n)
    case (Suc n)
    have "order ! i = order ! n \<longleftrightarrow> i = n" using assms Suc.prems by (simp add: nth_eq_iff_index_eq)
    then show ?case using Suc by (cases "n = 0") auto
  next
    case 0
    have "order ! i = order ! 0 \<longleftrightarrow> i = 0" using assms by (intro nth_eq_iff_index_eq) auto
    then show ?case by simp
  qed
  then show ?thesis using assms(2) by simp
qed

text \<open>Two blocks are related by the sets, queried through \<open>idx\<close>.\<close>

definition dom_query :: "dom_info \<Rightarrow> bid \<Rightarrow> bid \<Rightarrow> bool" where
  "dom_query info a b = (case di_idx info a of None \<Rightarrow> False
     | Some k \<Rightarrow> bv_test (dom_at (di_dom info) b) k)"

lemma computeDominators_spec:
  assumes wf: "wf_func F"
  obtains info where "computeDominators F = Some info" "set (di_order info) = {b. reachable F b}"
    "\<And>a b. reachable F a \<Longrightarrow> reachable F b \<Longrightarrow> dom_query info a b \<longleftrightarrow> dominates F a b"
    "di_idom info (entry_block F) = Some None"
    "\<And>b. reachable F b \<Longrightarrow> b \<noteq> entry_block F \<Longrightarrow> \<exists>d. di_idom info b = Some (Some d) \<and> closest_dominator F d b"
proof -
  obtain order m where o: "bfs_order F = Some order" and s: "dom_setting (F, order)"
    and c: "computeDominators F = Some \<lparr>di_order = order, di_idx = block_idx order, di_dom = m,
       di_idom = foldl (\<lambda>r i. r(order ! i \<mapsto> find_idom order m i)) [order ! 0 \<mapsto> None] [1..<length order]\<rparr>" (is "_ = Some ?info")
    and dom: "\<And>i j. i < length order \<Longrightarrow> bv_test (dom_at m (order ! i)) j \<longleftrightarrow> j < length order \<and> dominates F (order ! j) (order ! i)"
    using computeDominators_result [OF wf] by blast
  note f = dom_setting_facts [OF s] and tab = idom_table [OF f(2)]
  have at: "\<exists>i < length order. order ! i = b" if "reachable F b" for b
    using that f(3) by (metis in_set_conv_nth mem_Collect_eq)
  show thesis
  proof (rule that [OF c])
    show "set (di_order ?info) = {b. reachable F b}" using f(3) by simp
    show "dom_query ?info a b \<longleftrightarrow> dominates F a b" if r: "reachable F a" "reachable F b" for a b
    proof -
      obtain i j where ij: "i < length order" "order ! i = a" "j < length order" "order ! j = b"
        using at r by blast
      then have "block_idx order a = Some i" using block_idx_Some [OF f(2)] by blast
      then show ?thesis using dom [OF ij(3), of i] ij by (simp add: dom_query_def)
    qed
    show "di_idom ?info (entry_block F) = Some None"
      using tab [of 0 "find_idom order m"] f(4,5) by simp
    show "\<exists>d. di_idom ?info b = Some (Some d) \<and> closest_dominator F d b" if b: "reachable F b" "b \<noteq> entry_block F" for b
    proof -
      obtain i where i: "i < length order" "order ! i = b" using at b(1) by blast
      then have "0 < i" using b(2) f(5) by (cases i) auto
      then obtain d where "find_idom order m i = Some d" "closest_dominator F d b"
        using find_idom_closest [OF s _ i(1) dom] i(2) by auto
      then show ?thesis using tab [OF i(1), of "find_idom order m"] \<open>0 < i\<close> i(2) by simp
    qed
  qed
qed

end
