(* ===== verification/Properties_Analysis.thy ===== *)
theory Properties_Analysis
  imports Examples Scheduler_Pass Dominators
begin

text \<open>
  The properties of the analyses on which scheduling rests: data flow, dominance, traces,
  dependence graphs, critical paths and settings.  Each is stated over the definitions of
  its component and applied to a concrete function or graph where it has hypotheses.
\<close>

section \<open>Data flow\<close>

text \<open>C14.  Liveness ends on every well-formed function, and a value is in the \<open>in\<close> (\<open>out\<close>)
  set of a block exactly when some path from the block's start (end) reaches a use of it
  before its definition.\<close>

theorem liveness_correct:
  assumes "wf_func F"
  shows "\<exists>st. computeLiveness F = Some st \<and> (\<forall>b \<in> set (f_blocks F). \<forall>k < length (universe F).
    (bv_test (l_in (live_at st b)) k \<longleftrightarrow> live_in F b (universe F ! k)) \<and>
    (bv_test (l_out (live_at st b)) k \<longleftrightarrow> live_out F b (universe F ! k)))"
proof -
  obtain st where "computeLiveness F = Some st" by (rule computeLiveness_result [OF assms])
  then show ?thesis using computeLiveness_sound_complete [OF assms] by blast
qed

theorem liveness_correct_diamond:
  "\<exists>st. computeLiveness diamond = Some st \<and> (\<forall>b \<in> set (f_blocks diamond). \<forall>k < length (universe diamond).
    (bv_test (l_in (live_at st b)) k \<longleftrightarrow> live_in diamond b (universe diamond ! k)) \<and>
    (bv_test (l_out (live_at st b)) k \<longleftrightarrow> live_out diamond b (universe diamond ! k)))"
  by (rule liveness_correct [OF diamond_wf])

text \<open>C19.  Reaching definitions end, and a definition is in the \<open>out\<close> set of a reachable block
  exactly when it reaches the block's end, in the \<open>in\<close> set exactly when it reaches the end
  of a predecessor.\<close>

theorem reaching_correct:
  assumes "wf_func F"
  shows "\<exists>st. computeReaching F = Some st \<and> (\<forall>b k. reachable F b \<longrightarrow> k < length (reach_universe F) \<longrightarrow>
    (bv_test (r_out (reach_at st b)) k \<longleftrightarrow> reach_out F b (reach_universe F ! k)) \<and>
    (bv_test (r_in (reach_at st b)) k \<longleftrightarrow> (\<exists>p \<in> set (f_preds F b). reach_out F p (reach_universe F ! k))))"
proof -
  obtain st where "computeReaching F = Some st"
    "\<And>b k. reachable F b \<Longrightarrow> k < length (reach_universe F) \<Longrightarrow>
       bv_test (r_out (reach_at st b)) k \<longleftrightarrow> reach_out F b (reach_universe F ! k)"
    "\<And>b k. reachable F b \<Longrightarrow> k < length (reach_universe F) \<Longrightarrow>
       bv_test (r_in (reach_at st b)) k \<longleftrightarrow> (\<exists>p \<in> set (f_preds F b). reach_out F p (reach_universe F ! k))"
    using computeReaching_result [OF assms] by metis
  then show ?thesis by blast
qed

theorem reaching_correct_diamond:
  "\<exists>st. computeReaching diamond = Some st \<and> (\<forall>b k. reachable diamond b \<longrightarrow> k < length (reach_universe diamond) \<longrightarrow>
    (bv_test (r_out (reach_at st b)) k \<longleftrightarrow> reach_out diamond b (reach_universe diamond ! k)) \<and>
    (bv_test (r_in (reach_at st b)) k \<longleftrightarrow> (\<exists>p \<in> set (f_preds diamond b). reach_out diamond p (reach_universe diamond ! k))))"
  by (rule reaching_correct [OF diamond_wf])

text \<open>C39.  LLVM keeps value names distinct.  Then the name-based kill sets of the reaching
  analysis are empty: nothing is ever killed.\<close>

theorem reaching_kills_nothing:
  assumes "wf_func F" "unique_names F" "b \<in> set (f_blocks F)" "k < length (reach_universe F)"
  shows "\<not> bv_test (r_kill (reach_block F (reach_universe F) b)) k"
proof -
  have "reach_universe F ! k \<in> set (all_insts F)"
    using nth_mem [OF assms(4)] by (simp add: reach_universe_def)
  then show ?thesis using reach_block_sets(4) [OF assms(1,3,4)] unique_names_kills [OF assms(2,3)] by simp
qed

text \<open>The diamond with a name for every value: a, b, c and so on.\<close>

definition named_diamond :: func where
  "named_diamond = diamond\<lparr>f_inst := (\<lambda>i. (diamond_inst i)\<lparr>i_name :=
     (if i_void (diamond_inst i) then [] else [char_of (97 + i)])\<rparr>)\<rparr>"

theorem reaching_kills_nothing_named:
  "\<not> bv_test (r_kill (reach_block named_diamond (reach_universe named_diamond) 3)) 7 \<and>
   list_all (\<lambda>i. i_name (f_inst named_diamond i) \<noteq> []) (reach_universe named_diamond)"
proof
  have wf: "wf_func named_diamond" by code_simp
  have names: "unique_names named_diamond" by code_simp
  show "\<not> bv_test (r_kill (reach_block named_diamond (reach_universe named_diamond) 3)) 7"
    by (rule reaching_kills_nothing [OF wf names]) code_simp+
  show "list_all (\<lambda>i. i_name (f_inst named_diamond i) \<noteq> []) (reach_universe named_diamond)" by code_simp
qed

section \<open>Dominance\<close>

text \<open>C18.  The dominator computation ends; on reachable blocks its sets are path dominance,
  and the immediate dominator of every block but the entry is its closest strict dominator.\<close>

theorem dominators_correct:
  assumes "wf_func F"
  shows "\<exists>info. computeDominators F = Some info \<and>
    (\<forall>a b. reachable F a \<longrightarrow> reachable F b \<longrightarrow> dom_query info a b = dominates F a b) \<and>
    di_idom info (entry_block F) = Some None \<and>
    (\<forall>b. reachable F b \<longrightarrow> b \<noteq> entry_block F \<longrightarrow>
       (\<exists>d. di_idom info b = Some (Some d) \<and> closest_dominator F d b))"
  using computeDominators_spec [OF assms] by metis

theorem dominators_correct_diamond:
  "\<exists>info. computeDominators diamond = Some info \<and>
    (\<forall>a b. reachable diamond a \<longrightarrow> reachable diamond b \<longrightarrow> dom_query info a b = dominates diamond a b) \<and>
    di_idom info (entry_block diamond) = Some None \<and>
    (\<forall>b. reachable diamond b \<longrightarrow> b \<noteq> entry_block diamond \<longrightarrow>
       (\<exists>d. di_idom info b = Some (Some d) \<and> closest_dominator diamond d b))"
  by (rule dominators_correct [OF diamond_wf])

text \<open>C33.  The breadth-first traversal ends with the reachable blocks, each once, entry first,
  and a dominator never comes after the block it dominates.\<close>

theorem bfs_order_is_reachable:
  assumes "wf_func F"
  shows "\<exists>order. bfs_order F = Some order \<and> distinct order \<and> set order = {b. reachable F b} \<and>
    order ! 0 = entry_block F \<and>
    (\<forall>j < length order. \<forall>k < length order. dominates F (order ! j) (order ! k) \<longrightarrow> j \<le> k)"
proof -
  obtain order where o: "bfs_order F = Some order" using bfs_order_result [OF assms] by blast
  note f = bfs_order_correct [OF assms o]
  show ?thesis using o f(1,2,4) bfs_dominator_earlier [OF f(5)] by blast
qed

theorem bfs_order_is_reachable_diamond:
  "\<exists>order. bfs_order diamond = Some order \<and> distinct order \<and> set order = {b. reachable diamond b} \<and>
    order ! 0 = entry_block diamond \<and>
    (\<forall>j < length order. \<forall>k < length order. dominates diamond (order ! j) (order ! k) \<longrightarrow> j \<le> k)"
  by (rule bfs_order_is_reachable [OF diamond_wf])

section \<open>Traces\<close>

text \<open>C15.  Trace identification ends.  Every trace is a nonempty path of reachable blocks along
  CFG edges above the threshold, strictly forward in breadth-first order; no block is in two
  traces or twice in one; and every reachable block of nonzero frequency is in a trace.\<close>

theorem traces_partition:
  assumes "wf_func F"
  shows "\<exists>order ts st'. bfs_order F = Some order \<and> identifyTraces F prob freq threshold on st = Some (ts, st') \<and>
    distinct (concat ts) \<and>
    (\<forall>t \<in> set ts. t \<noteq> [] \<and> (\<forall>b \<in> set t. reachable F b) \<and>
       successively (\<lambda>a b. cfg_edge F a b \<and> threshold < prob a b \<and>
         bfsPos (index_of order) a < bfsPos (index_of order) b) t) \<and>
    (\<forall>b. reachable F b \<longrightarrow> 0 < freq b \<longrightarrow> b \<in> set (concat ts))"
proof -
  obtain order ts st' where r: "bfs_order F = Some order" "identifyTraces F prob freq threshold on st = Some (ts, st')"
    "traces_ok (mk_trace_ctx F prob freq threshold on order) order ts"
    "\<forall>b. reachable F b \<longrightarrow> 0 < freq b \<longrightarrow> b \<in> set (concat ts)"
    by (rule identifyTraces_result [OF assms])
  have e: "trace_edge (mk_trace_ctx F prob freq threshold on order) =
      (\<lambda>a b. cfg_edge F a b \<and> threshold < prob a b \<and> bfsPos (index_of order) a < bfsPos (index_of order) b)"
    by (simp add: fun_eq_iff trace_edge_def mk_trace_ctx_def)
  have "distinct (concat ts)" using r(3) by (simp add: traces_ok_def)
  moreover have "t \<noteq> [] \<and> (\<forall>b \<in> set t. reachable F b) \<and>
      successively (trace_edge (mk_trace_ctx F prob freq threshold on order)) t" if "t \<in> set ts" for t
    using r(3) that bfs_order_correct(2) [OF assms r(1)] by (auto simp: traces_ok_def trace_ok_def)
  ultimately show ?thesis using r(1,2,4) unfolding e by blast
qed

theorem traces_partition_diamond:
  "\<exists>order ts st'. bfs_order diamond = Some order \<and>
    identifyTraces diamond (\<lambda>a b. if b = 2 then 20 else 80) (\<lambda>b. 5) 60 True trace_stats0 = Some (ts, st') \<and>
    distinct (concat ts) \<and>
    (\<forall>t \<in> set ts. t \<noteq> [] \<and> (\<forall>b \<in> set t. reachable diamond b) \<and>
       successively (\<lambda>a b. cfg_edge diamond a b \<and> 60 < (if b = 2 then 20 else 80 :: nat) \<and>
         bfsPos (index_of order) a < bfsPos (index_of order) b) t) \<and>
    (\<forall>b. reachable diamond b \<longrightarrow> 0 < (5 :: nat) \<longrightarrow> b \<in> set (concat ts))"
  by (rule traces_partition [OF diamond_wf])

text \<open>C17.  The traces come in order of hotness: each contains a block whose frequency is not 0
  and at least that of every reachable block outside the earlier traces.\<close>

theorem traces_hottest_first:
  assumes "wf_func F" "identifyTraces F prob freq threshold on st = Some (us @ t # vs, st')"
  shows "\<exists>s \<in> set t. 0 < freq s \<and> (\<forall>b. reachable F b \<longrightarrow> b \<notin> set (concat us) \<longrightarrow> freq b \<le> freq s)"
proof -
  obtain order ts st1 where r: "bfs_order F = Some order" "identifyTraces F prob freq threshold on st = Some (ts, st1)"
    "traces_ok (mk_trace_ctx F prob freq threshold on order) order ts"
    by (rule identifyTraces_result [OF assms(1)])
  then have ts: "ts = us @ t # vs" using assms(2) by simp
  let ?c = "mk_trace_ctx F prob freq threshold on order"
  have "\<exists>s \<in> set t. 0 < tc_freq ?c s \<and> (\<forall>b \<in> set order - set (concat us). tc_freq ?c b \<le> tc_freq ?c s)"
    using r(3) ts unfolding traces_ok_def by (elim conjE allE impE) assumption+
  moreover have "tc_freq ?c = freq" by (simp add: mk_trace_ctx_def)
  moreover have "set order = {b. reachable F b}" by (rule bfs_order_correct(2) [OF assms(1) r(1)])
  ultimately show ?thesis by (simp only:) blast
qed

theorem traces_hottest_first_diamond:
  "\<exists>s \<in> set [0, 1, 3 :: nat]. 0 < (\<lambda>b. if b = 2 then 3 else 7 :: nat) s \<and> (\<forall>b. reachable diamond b \<longrightarrow> b \<notin> set (concat []) \<longrightarrow>
     (\<lambda>b. if b = 2 then 3 else 7 :: nat) b \<le> (\<lambda>b. if b = 2 then 3 else 7) s)"
proof (rule traces_hottest_first [OF diamond_wf])
  show "identifyTraces diamond (\<lambda>a b. if b = 2 then 20 else 80) (\<lambda>b. if b = 2 then 3 else 7) 60 True trace_stats0 =
      Some ([] @ [0, 1, 3] # [[2]], \<lparr>ts_above = 2, ts_below = 1, ts_back = 0\<rparr>)"
    by code_simp
qed

text \<open>C16.  Walking a cursor over the blocks sorted once by frequency gives the traces, and the
  counts, of the algorithm that rescans all blocks for every seed.\<close>

theorem cursor_is_rescan:
  assumes "wf_func F"
  shows "\<exists>order. bfs_order F = Some order \<and> identifyTraces F prob freq threshold on st =
    rescan_loop (mk_trace_ctx F prob freq threshold on order) order {} [] (if on then trace_stats0 else st)"
proof -
  obtain order ts st' where "bfs_order F = Some order" "identifyTraces F prob freq threshold on st = Some (ts, st')"
    "rescan_loop (mk_trace_ctx F prob freq threshold on order) order {} [] (if on then trace_stats0 else st) = Some (ts, st')"
    by (rule identifyTraces_result [OF assms])
  then show ?thesis by simp
qed

theorem cursor_is_rescan_diamond:
  "\<exists>order. bfs_order diamond = Some order \<and> identifyTraces diamond (\<lambda>_ _. 70) (\<lambda>b. 9 - b) 60 False trace_stats0 =
    rescan_loop (mk_trace_ctx diamond (\<lambda>_ _. 70) (\<lambda>b. 9 - b) 60 False order) order {} [] (if False then trace_stats0 else trace_stats0)"
  by (rule cursor_is_rescan [OF diamond_wf])

text \<open>C40.  Not every block belongs to a trace: a block of frequency 0 into and out of which no edge is
  above the threshold is in none.\<close>

theorem cold_block_untraced:
  assumes wf: "wf_func F" and tr: "identifyTraces F prob freq threshold on st = Some (ts, st')"
    and cold: "freq b = 0" "\<And>a. cfg_edge F a b \<Longrightarrow> prob a b \<le> threshold" "\<And>a. cfg_edge F b a \<Longrightarrow> prob b a \<le> threshold"
  shows "b \<notin> set (concat ts)"
proof
  assume "b \<in> set (concat ts)"
  then obtain t where t: "t \<in> set ts" "b \<in> set t" by auto
  obtain order ts1 st1 where r: "bfs_order F = Some order" "identifyTraces F prob freq threshold on st = Some (ts1, st1)"
    "traces_ok (mk_trace_ctx F prob freq threshold on order) order ts1"
    by (rule identifyTraces_result [OF wf])
  let ?c = "mk_trace_ctx F prob freq threshold on order"
  have ts: "traces_ok ?c order ts" using r(2,3) tr by simp
  obtain us vs where "ts = us @ t # vs" using t(1) by (auto simp: in_set_conv_decomp)
  then obtain s where s: "s \<in> set t" "0 < tc_freq ?c s" using ts unfolding traces_ok_def by blast
  have "s \<noteq> b" using s(2) cold(1) by (auto simp: mk_trace_ctx_def)
  moreover have "successively (trace_edge ?c) t" using ts t(1) by (simp add: traces_ok_def trace_ok_def)
  ultimately obtain a where "trace_edge ?c a b \<or> trace_edge ?c b a" using successively_neighbour s(1) t(2) by metis
  then show False using cold(2,3) by (fastforce simp: trace_edge_def mk_trace_ctx_def)
qed

theorem cold_block_untraced_diamond: "2 \<notin> set (concat [[0, 1, 3 :: nat]])"
proof (rule cold_block_untraced [OF diamond_wf])
  show "identifyTraces diamond (\<lambda>a b. if a = 2 \<or> b = 2 then 20 else 80) (\<lambda>b. if b = 2 then 0 else 7) 60 True trace_stats0 =
      Some ([[0, 1, 3]], \<lparr>ts_above = 2, ts_below = 1, ts_back = 0\<rparr>)"
    by code_simp
qed simp_all

text \<open>C31.  A trace is extended forward by the first of the most likely successors that are unvisited,
  above the threshold and not before the block in breadth-first order, backward by the first of the
  most likely predecessors that are unvisited, above the threshold and not after it, and not at all if
  there is none.  With statistics on, a search counts exactly the unvisited neighbours above the
  threshold, those not above it, and the back edges among the former.\<close>

theorem best_edges:
  "best_choice (admissible_edge c visited (tc_prob c BB) (\<lambda>s. bfsPos (tc_index c) s < bfsPos (tc_index c) BB))
     (tc_prob c BB) (f_succs (tc_func c) BB) (fst (bestSuccessor c BB visited st)) \<and>
   snd (bestSuccessor c BB visited st) =
     edge_counts c visited (tc_prob c BB) (\<lambda>s. bfsPos (tc_index c) s < bfsPos (tc_index c) BB) (f_succs (tc_func c) BB) st \<and>
   best_choice (admissible_edge c visited (\<lambda>p. tc_prob c p BB) (\<lambda>p. bfsPos (tc_index c) p > bfsPos (tc_index c) BB))
     (\<lambda>p. tc_prob c p BB) (f_preds (tc_func c) BB) (fst (bestPredecessor c BB visited st)) \<and>
   snd (bestPredecessor c BB visited st) =
     edge_counts c visited (\<lambda>p. tc_prob c p BB) (\<lambda>p. bfsPos (tc_index c) p > bfsPos (tc_index c) BB) (f_preds (tc_func c) BB) st"
  using edge_search [OF bestSuccessor_def] edge_search [OF bestPredecessor_def] by blast

end
