(* ===== verification/Trace_Schedules.thy ===== *)
theory Trace_Schedules
  imports Scheduler_Pass
begin

text \<open>
  What SSA gives the schedules of identified traces: definitions come before uses along a
  trace, so the graph of the trace is acyclic and the list scheduler leaves nothing out.
\<close>

lemma precedes_concat_blocks:
  "precedes bs b c \<Longrightarrow> x \<in> set (f b) \<Longrightarrow> y \<in> set (f c) \<Longrightarrow> precedes (concat (map f bs)) x y"
  by (induction bs) (auto simp: precedes_append)

lemma trace_bfs_sorted:
  assumes "trace_ok c order t"
  shows "sorted_wrt (\<lambda>a b. bfsPos (tc_index c) a < bfsPos (tc_index c) b) t"
proof -
  have "successively (\<lambda>a b. bfsPos (tc_index c) a < bfsPos (tc_index c) b) t"
    using assms unfolding trace_ok_def by (auto simp: trace_edge_def intro: successively_mono)
  then show ?thesis by (subst (asm) successively_conv_sorted_wrt) (auto simp: transp_def)
qed

lemma sorted_wrt_precedes:
  fixes f :: "'a \<Rightarrow> nat"
  assumes "sorted_wrt (\<lambda>a b. f a < f b) xs" "a \<in> set xs" "b \<in> set xs" "a \<noteq> b" "f a \<le> f b"
  shows "precedes xs a b"
  using assms by (induction xs) auto

text \<open>Along a trace, a block comes before the blocks it dominates.\<close>

lemma trace_dominator_first:
  assumes env: "trace_env c order" and t: "trace_ok c order t" "a \<in> set t" "b \<in> set t" "a \<noteq> b"
    and dom: "dominates (tc_func c) a b"
  shows "precedes t a b"
proof -
  have o: "a \<in> set order" "b \<in> set order" using t by (auto simp: trace_ok_def)
  note pa = bfsPos_in [OF env o(1)] and pb = bfsPos_in [OF env o(2)]
  have "bfs_inv (tc_func c) (length order, order)"
    using env bfs_order_correct(5) by (auto simp: trace_env_def)
  then have "bfsPos (tc_index c) a \<le> bfsPos (tc_index c) b"
    using bfs_dominator_earlier [OF _ pb(1) pa(1)] dom pa(2) pb(2) by simp
  then show ?thesis
    using sorted_wrt_precedes [where f = "bfsPos (tc_index c)"] trace_bfs_sorted [OF t(1)] t(2-4) by blast
qed

lemma defs_first_trace:
  assumes env: "trace_env c order" and s: "ssa (tc_func c)" and t: "trace_ok c order t"
  shows "defs_first (tc_func c) (trace_insts (tc_func c) t)"
  unfolding defs_first_def
proof (intro ballI impI)
  let ?F = "tc_func c"
  fix j i assume j: "j \<in> set (trace_insts ?F t)" and i: "i \<in> set (trace_insts ?F t)" and op: "Inst i \<in> set (operands ?F j)"
  have d: "dist_func ?F" using env wf_dist_func by (auto simp: trace_env_def)
  have sub: "set t \<subseteq> set (f_blocks ?F)" "\<forall>b \<in> set t. reachable ?F b"
    using t trace_env_facts(2,4) [OF env] by (auto simp: trace_ok_def)
  obtain bj where bj: "bj \<in> set t" "j \<in> set (f_body ?F bj)" using j by (auto simp: set_insts_of)
  obtain bi where bi: "bi \<in> set t" "i \<in> set (f_body ?F bi)" using i by (auto simp: set_insts_of)
  have "inst_dominates ?F i j" using ssa_operand [OF s _ _ bj(2) _ op] bj(1) sub j by auto
  then obtain bd where bd: "bd \<in> set (f_blocks ?F)" "i \<in> set (f_body ?F bd)"
      "bd = bj \<Longrightarrow> precedes (f_body ?F bj) i j" "bd \<noteq> bj \<Longrightarrow> dominates ?F bd bj"
    using inst_dominatesE [OF _ d _ bj(2)] bj(1) sub(1) by (metis subsetD)
  have eq: "bd = bi" using dist_same_block [OF d bd(1) _ bd(2) bi(2)] bi(1) sub(1) by blast
  have "precedes (insts_of ?F t) i j"
  proof (cases "bi = bj")
    case True
    then show ?thesis using precedes_concat [OF bj(1), of "f_body ?F"] bd(3) eq by (simp add: insts_of_def)
  next
    case False
    then have "precedes t bi bj" using trace_dominator_first [OF env t bi(1) bj(1)] bd(4) eq by simp
    then show ?thesis using precedes_concat_blocks bi(2) bj(2) by (metis insts_of_def)
  qed
  then show "precedes (trace_insts ?F t) i j" using i j by (simp add: precedes_filter)
qed

lemma identified_trace_defs_first:
  assumes wf: "wf_func F" and s: "ssa F" and tr: "identifyTraces F prob freq threshold on st0 = Some (ts, st1)"
    and t: "t \<in> set ts"
  shows "distinct (insts_of F t)" "defs_first F (trace_insts F t)" "distinct t" "set t \<subseteq> set (f_blocks F)"
proof -
  obtain order ts' st' where o: "bfs_order F = Some order" "identifyTraces F prob freq threshold on st0 = Some (ts', st')"
    "traces_ok (mk_trace_ctx F prob freq threshold on order) order ts'"
    by (rule identifyTraces_result [OF wf])
  let ?c = "mk_trace_ctx F prob freq threshold on order"
  have c: "tc_func ?c = F" and env: "trace_env ?c order" using wf o(1) by (simp_all add: mk_trace_ctx_def trace_env_def)
  have ok: "trace_ok ?c order t" using o(2,3) tr t by (simp add: traces_ok_def)
  show dt: "distinct t" using ok by (simp add: trace_ok_def)
  show sub: "set t \<subseteq> set (f_blocks F)" using ok trace_env_facts(4) [OF env] c by (auto simp: trace_ok_def)
  show "distinct (insts_of F t)" by (rule distinct_insts_of_sub [OF wf_dist_func [OF wf] dt sub])
  show "defs_first F (trace_insts F t)" using defs_first_trace [OF env _ ok] s c by simp
qed

text \<open>The schedule of a trace whose definitions come first is complete.\<close>

lemma trace_schedule_complete:
  assumes wf: "wf_func F" and t: "distinct t" "set t \<subseteq> set (f_blocks F)" and first: "defs_first F (trace_insts F t)"
    and fr: "same_frame F (sc_func c)"
  shows "\<exists>st. listSchedule c (computeCriticalPath (trace_ddg F t)) live peak = Some st \<and>
    set (ss_schedule st) = {i \<in> set (trace_insts F t). \<not> is_term F i}"
proof -
  have d: "distinct (insts_of F t)" by (rule distinct_insts_of_sub [OF wf_dist_func [OF wf] t])
  note gr = graph_of_critical [OF trace_ddg_graph [OF d]]
  have cp: "\<forall>n < length (computeCriticalPath (trace_ddg F t)). 0 \<le> dn_cp (computeCriticalPath (trace_ddg F t) ! n)"
    by (rule graph_of_cp_nonneg [OF trace_ddg_graph [OF d] _ trace_ddg_fresh [OF d]]) (use getDelay_bounds in \<open>meson order_trans zero_le_one\<close>)
  have "wf_ddg (computeCriticalPath (trace_ddg F t))" using gr by (simp add: graph_of_def)
  then obtain don st where st: "listSchedule c (computeCriticalPath (trace_ddg F t)) live peak = Some st"
      "sched_inv c (computeCriticalPath (trace_ddg F t)) don st" "ss_queue st = []"
    using listSchedule_result [OF _ cp] by metis
  note q = same_frame_queries [OF fr]
  have term_last: "\<not> is_term F i" if "b \<in> set t" "precedes (f_body F b) i j" for b i j
  proof
    assume i: "is_term F i"
    have "wf_block F b" "distinct (f_body F b)" using wf that(1) t(2) wf_distinct_body [OF wf] by (auto simp: wf_func_def)
    then have "i = last (f_body F b)" using i precedes_in [OF that(2)] unfolding wf_block_alt by (metis in_set_butlast_appendI append_butlast_last_id in_set_conv_decomp append_Cons append_Nil Un_iff set_append set_ConsD empty_iff list.set(1))
    then have "j \<in> set (butlast (f_body F b)) \<or> j = i" using precedes_in [OF that(2)] by (metis append_butlast_last_id empty_iff empty_set Un_iff set_append set_ConsD)
    then show False
      using that(2) \<open>distinct (f_body F b)\<close> precedes_last [of j "f_body F b"] precedes_asym precedes_irrefl \<open>i = last (f_body F b)\<close> by metis
  qed
  have "set (ss_schedule st) = {i \<in> set (trace_insts F t). \<not> is_term (sc_func c) i}"
  proof (rule schedule_complete [OF gr forward_critical [OF trace_ddg_forward [OF d first]] st(2,3)])
    show "\<forall>i \<in> set (trace_insts F t). \<not> is_phi (sc_func c) i" using q by simp
    show "\<not> is_term (sc_func c) i" if "trace_dep F t i j" for i j
      using that term_last q by (auto simp: trace_dep_def ordered_dep_def)
  qed
  then show ?thesis using st(1) q by simp
qed

end
