(* ===== verification/Pressure.thy ===== *)
theory Pressure
  imports List_Scheduler
begin

text \<open>
  The register pressure that \<open>include/listScheduler.hpp\<close> tracks: what the estimate
  \<open>pressureDelta\<close> measures, what the live set and the peak are at every point of a schedule, and
  that every bit vector has the size its accesses need.
\<close>

section \<open>What the pressure estimate measures\<close>

definition dies_at :: "(val \<Rightarrow> nat option) \<Rightarrow> bitvec \<Rightarrow> bitvec \<Rightarrow> val \<Rightarrow> bool" where
  "dies_at index live out v = (case index v of None \<Rightarrow> False | Some k \<Rightarrow> bv_test live k \<and> \<not> bv_test out k)"

lemma delta_fold:
  "foldl (\<lambda>delta v. case index v of None \<Rightarrow> delta
     | Some idx \<Rightarrow> (if bv_test live idx \<and> \<not> bv_test out idx then delta - 1 else delta)) d vs
   = d - int (length (filter (dies_at index live out) vs))"
  by (induction vs arbitrary: d) (auto simp: dies_at_def split: option.splits)

lemma pressureDelta_bounds:
  "- int (length (operands F i)) \<le> pressureDelta F i live index lv \<and> pressureDelta F i live index lv \<le> 1"
proof -
  have "int (length (filter (dies_at index live (out_of_parent F lv i)) (operands F i))) \<le> int (length (operands F i))"
    by simp
  moreover have "0 \<le> (case index (Inst i) of None \<Rightarrow> 0 | Some idx \<Rightarrow> (if \<not> bv_test live idx then 1 else (0 :: int)))"
    "(case index (Inst i) of None \<Rightarrow> 0 | Some idx \<Rightarrow> (if \<not> bv_test live idx then 1 else (0 :: int))) \<le> 1"
    by (simp_all split: option.split)
  ultimately show ?thesis unfolding pressureDelta_def Let_def delta_fold
    by (cases "is_void F i") (simp_all only: if_True if_False not_True_eq_False not_False_eq_True, linarith+)
qed

lemma bv_test_ones: "bv_test v k \<longleftrightarrow> k \<in> bv_ones v"
  by (simp add: bv_ones_def)

lemma bv_count_reset: "bv_count (bv_reset v k) = bv_count v - (if bv_test v k then 1 else 0)"
  unfolding bv_count_card bv_ones_reset bv_test_ones by simp

lemma bv_count_set: "k < length v \<Longrightarrow> bv_count (bv_set v k) = bv_count v + (if bv_test v k then 0 else 1)"
  unfolding bv_count_card bv_test_ones by (simp add: bv_ones_set insert_absorb)

lemma bv_count_pos: "bv_test v k \<Longrightarrow> 0 < bv_count v"
  unfolding bv_count_card bv_test_ones by (auto simp: card_gt_0_iff)

lemma kill_fold:
  assumes inj: "\<And>v w k. index v = Some k \<Longrightarrow> index w = Some k \<Longrightarrow> v = w"
    and "distinct (filter (\<lambda>v. index v \<noteq> None) vs)"
  shows "int (bv_count (foldl (\<lambda>live v. case index v of None \<Rightarrow> live
      | Some idx \<Rightarrow> (if \<not> bv_test out idx then bv_reset live idx else live)) live vs))
    = int (bv_count live) - int (length (filter (dies_at index live out) vs))"
  using assms(2)
proof (induction vs arbitrary: live)
  case (Cons v vs)
  show ?case
  proof (cases "index v")
    case None
    then show ?thesis using Cons by (simp add: dies_at_def)
  next
    case (Some k)
    have "filter (dies_at index (bv_reset live k) out) vs = filter (dies_at index live out) vs"
    proof (rule filter_cong [OF refl])
      fix w assume w: "w \<in> set vs"
      then have "index w \<noteq> Some k" using Cons.prems inj [of v k w] Some by auto
      then show "dies_at index (bv_reset live k) out w = dies_at index live out w"
        by (auto simp: dies_at_def bv_simps split: option.splits)
    qed
    moreover have "dies_at index live out v \<longleftrightarrow> bv_test live k \<and> \<not> bv_test out k"
      by (simp add: dies_at_def Some)
    ultimately show ?thesis
      using Cons.IH [of "if bv_test out k then live else bv_reset live k"] Cons.prems Some bv_count_pos [of live k]
      by (auto simp: bv_count_reset)
  qed
qed simp

text \<open>For an instruction that does not use an indexed value twice, the estimate is the exact
  change of the tracked live set's size.\<close>

lemma pressureDelta_exact:
  assumes inj: "\<And>v w k. index v = Some k \<Longrightarrow> index w = Some k \<Longrightarrow> v = w"
    and range: "\<And>v k. index v = Some k \<Longrightarrow> k < length live"
    and dist: "distinct (filter (\<lambda>v. index v \<noteq> None) (operands F i))"
    and self: "Inst i \<notin> set (operands F i)"
  shows "int (bv_count (updateLiveSet F i live index lv)) = int (bv_count live) + pressureDelta F i live index lv"
proof -
  let ?out = "out_of_parent F lv i"
  let ?live0 = "if \<not> is_void F i then (case index (Inst i) of None \<Rightarrow> live | Some k \<Rightarrow> bv_set live k) else live"
  have "filter (dies_at index ?live0 ?out) (operands F i) = filter (dies_at index live ?out) (operands F i)"
  proof (rule filter_cong [OF refl])
    fix v assume "v \<in> set (operands F i)"
    then have "v \<noteq> Inst i" using self by auto
    then show "dies_at index ?live0 ?out v = dies_at index live ?out v"
      using inj [of "Inst i" _ v] by (auto simp: dies_at_def bv_simps split: option.splits)
  qed
  moreover have "int (bv_count ?live0) = int (bv_count live) +
      (if \<not> is_void F i then (case index (Inst i) of None \<Rightarrow> 0 | Some k \<Rightarrow> if \<not> bv_test live k then 1 else 0) else 0)"
    using range by (auto simp: bv_count_set split: option.splits)
  ultimately show ?thesis
    using kill_fold [OF inj dist, where out = ?out and live = ?live0]
    unfolding updateLiveSet_def pressureDelta_def Let_def delta_fold by simp
qed

text \<open>The tracked live set is that of the schedule executed in order, and the recorded peak is the
  largest number of live values before and after each scheduled instruction.\<close>

definition live_after :: "sched_ctx \<Rightarrow> bitvec \<Rightarrow> iid list \<Rightarrow> bitvec" where
  "live_after c live is = foldl (\<lambda>l i. updateLiveSet (sc_func c) i l (sc_index c) (sc_live c)) live is"

definition live_counts :: "sched_ctx \<Rightarrow> bitvec \<Rightarrow> iid list \<Rightarrow> nat set" where
  "live_counts c live is = (\<lambda>k. bv_count (live_after c live (take k is))) ` {..length is}"

lemma finite_live_counts [simp]: "finite (live_counts c live is)"
  by (simp add: live_counts_def)

lemma live_counts_Nil [simp]: "live_counts c live [] = {bv_count live}"
  by (simp add: live_counts_def live_after_def)

lemma live_counts_snoc: "live_counts c live (is @ [i]) = insert (bv_count (live_after c live (is @ [i]))) (live_counts c live is)"
  by (auto simp: live_counts_def atMost_Suc)

text \<open>The loop keeps these equations: \<open>live0\<close> and \<open>peak0\<close> are those at the call.\<close>

definition pressure_inv :: "sched_ctx \<Rightarrow> bitvec \<Rightarrow> nat \<Rightarrow> sched_state \<Rightarrow> bool" where
  "pressure_inv c live0 peak0 st \<longleftrightarrow> ss_live st = live_after c live0 (ss_schedule st) \<and>
     ss_peak st = (if sc_stats c then Max (insert peak0 (live_counts c live0 (ss_schedule st))) else peak0)"

lemma note_peak_max: "note_peak on live peak = (if on then max peak (bv_count live) else peak)"
  by (simp add: note_peak_def max_def)

lemma pressure_inv_init: "pressure_inv c live0 peak0 (sched_init c g live0 peak0)"
  by (simp add: pressure_inv_def sched_init_def Let_def note_peak_max live_after_def)

lemma pressure_inv_step:
  assumes "pressure_inv c live0 peak0 st" shows "pressure_inv c live0 peak0 (sched_step c st best)"
proof -
  let ?i = "dn_instr (ss_ddg st ! best)" and ?is = "ss_schedule st"
  have live: "updateLiveSet (sc_func c) ?i (ss_live st) (sc_index c) (sc_live c) = live_after c live0 (?is @ [?i])"
    using assms by (simp add: pressure_inv_def live_after_def)
  have "Max (insert peak0 (live_counts c live0 (?is @ [?i]))) =
      max (Max (insert peak0 (live_counts c live0 ?is))) (bv_count (live_after c live0 (?is @ [?i])))"
    unfolding live_counts_snoc insert_commute [of peak0] by (subst Max_insert) (auto simp: max.commute)
  then show ?thesis using assms unfolding pressure_inv_def sched_step_def Let_def live note_peak_max by simp
qed

lemma pressure_inv_loop:
  "sched_loop c st = Some r \<Longrightarrow> pressure_inv c live0 peak0 st \<longrightarrow> pressure_inv c live0 peak0 r"
proof (rule sched_loop.raw_induct [where P = "\<lambda>c st r. pressure_inv c live0 peak0 st \<longrightarrow> pressure_inv c live0 peak0 r"], goal_cases)
  case (1 sl c st r)
  then show ?case using pressure_inv_step by (auto split: if_splits option.splits)
qed

lemma listSchedule_pressure: "listSchedule c g live peak = Some st \<Longrightarrow> pressure_inv c live peak st"
  unfolding listSchedule_def using pressure_inv_loop pressure_inv_init by blast

section \<open>Sizes\<close>

text \<open>\<open>BitVector::test\<close>, \<open>set\<close> and \<open>reset\<close> require an index below the size.  The index of a value
  is one in the universe, and all vectors have its size.\<close>

definition live_typed :: "func \<Rightarrow> (val \<Rightarrow> nat option) \<Rightarrow> live_map \<Rightarrow> nat \<Rightarrow> bool" where
  "live_typed F index lv n \<longleftrightarrow> (\<forall>v k. index v = Some k \<longrightarrow> k < n) \<and>
     (\<forall>b \<in> set (f_blocks F). length (l_in (live_at lv b)) = n \<and> length (l_out (live_at lv b)) = n)"

text \<open>The accesses of \<open>pressureDelta\<close> and \<open>updateLiveSet\<close> for one instruction.\<close>

definition in_range :: "func \<Rightarrow> (val \<Rightarrow> nat option) \<Rightarrow> live_map \<Rightarrow> bitvec \<Rightarrow> iid \<Rightarrow> bool" where
  "in_range F index lv live i = list_all (\<lambda>v. case index v of None \<Rightarrow> True
     | Some k \<Rightarrow> k < length live \<and> k < length (out_of_parent F lv i)) (Inst i # operands F i)"

lemma typed_in_range:
  assumes "live_typed F index lv n" "length live = n" "i \<in> set (all_insts F)"
  shows "in_range F index lv live i"
proof -
  have "parent F i \<noteq> None" using assms(3) by (auto simp: parent_def find_None_iff set_insts_of)
  then obtain b where b: "parent F i = Some b" "b \<in> set (f_blocks F)" using parent_Some by blast
  have "k < length live \<and> k < length (out_of_parent F lv i)" if "index v = Some k" for v k
    using assms(1,2) b that by (auto simp: live_typed_def out_of_parent_def)
  then show ?thesis by (auto simp: in_range_def list_all_iff split: option.split)
qed

lemma live_typed_same: "same_frame F G \<Longrightarrow> live_typed G = live_typed F"
  by (auto simp: live_typed_def same_frame_def fun_eq_iff)

lemma computeLiveness_typed:
  assumes "wf_func F" "computeLiveness F = Some lv"
  shows "live_typed F (buildValueIndex (universe F)) lv (length (universe F))"
proof -
  have "live_inv F lv" using computeLiveness_result [OF assms(1)] assms(2) by (metis option.inject)
  then show ?thesis
    by (auto simp: live_typed_def live_inv_def live_blk_def Let_def buildValueIndex_Some [OF distinct_universe [OF assms(1)]])
qed

lemma length_updateLiveSet [simp]: "length (updateLiveSet F i live index lv) = length live"
proof -
  have "length (foldl (\<lambda>l v. case index v of None \<Rightarrow> l | Some k \<Rightarrow> (if P k then bv_reset l k else l)) l vs) = length l"
    for l vs and P :: "nat \<Rightarrow> bool"
    by (induction vs arbitrary: l) (auto simp: bv_simps split: option.split)
  then show ?thesis by (simp add: updateLiveSet_def Let_def bv_simps split: option.split)
qed

lemma length_live_after [simp]: "length (live_after c live is) = length live"
  unfolding live_after_def by (induction "is" arbitrary: live) simp_all

text \<open>So the number of live values, and with it the recorded peak, is at most the universe.\<close>

lemma live_counts_le: "n \<in> live_counts c live is \<Longrightarrow> n \<le> length live"
  using bv_count_le [of "live_after c live _"] by (auto simp: live_counts_def)

lemma peak_bound:
  assumes "listSchedule c g live peak = Some st" shows "ss_peak st \<le> max peak (length live)"
  using listSchedule_pressure [OF assms] live_counts_le [of _ c live]
  by (fastforce simp: pressure_inv_def)

end
