(* ===== verification/Schedule_Greedy.thy ===== *)
theory Schedule_Greedy
  imports Schedule_Contract Pressure
begin

text \<open>
  The abstract specification of \<open>include/listScheduler.hpp\<close>, without queues and counters: greedy
  list scheduling.  A schedule is greedy if each of its instructions was ready when it was taken
  and none that was ready had a longer critical path, or an equally long one and a smaller pressure
  estimate, and if nothing is ready at its end.  \<open>listSchedule\<close> is shown to refine it, on traces
  and on blocks.
\<close>

section \<open>The specification\<close>

text \<open>\<open>dep\<close> are the dependences among the distinct instructions \<open>xs\<close>; \<open>height\<close> is the critical path of
  an instruction.\<close>

definition ready_inst :: "func \<Rightarrow> (iid \<Rightarrow> iid \<Rightarrow> bool) \<Rightarrow> iid list \<Rightarrow> iid set \<Rightarrow> iid \<Rightarrow> bool" where
  "ready_inst F dep xs D j \<longleftrightarrow> j \<in> set xs \<and> j \<notin> D \<and> \<not> is_term F j \<and> \<not> is_phi F j \<and>
     (\<forall>i \<in> set xs. dep i j \<longrightarrow> i \<in> D)"

definition height :: "iid list \<Rightarrow> ddg \<Rightarrow> iid \<Rightarrow> int" where
  "height xs g j = the (map_of (zip xs (map dn_cp g)) j)"

definition not_better :: "sched_ctx \<Rightarrow> (iid \<Rightarrow> int) \<Rightarrow> bitvec \<Rightarrow> iid \<Rightarrow> iid \<Rightarrow> bool" where
  "not_better c h live j i \<longleftrightarrow> h j < h i \<or> (h j = h i \<and> (sc_pressure c \<longrightarrow>
     pressureDelta (sc_func c) i live (sc_index c) (sc_live c) \<le> pressureDelta (sc_func c) j live (sc_index c) (sc_live c)))"

definition greedy_schedule :: "sched_ctx \<Rightarrow> (iid \<Rightarrow> iid \<Rightarrow> bool) \<Rightarrow> iid list \<Rightarrow> (iid \<Rightarrow> int) \<Rightarrow> bitvec \<Rightarrow> iid list \<Rightarrow> bool" where
  "greedy_schedule c dep xs h live s \<longleftrightarrow>
     (\<forall>us i vs. s = us @ i # vs \<longrightarrow> ready_inst (sc_func c) dep xs (set us) i \<and>
        (\<forall>j. ready_inst (sc_func c) dep xs (set us) j \<longrightarrow> not_better c h (live_after c live us) j i)) \<and>
     (\<forall>j. \<not> ready_inst (sc_func c) dep xs (set s) j)"

section \<open>Nodes\<close>

text \<open>The same for the nodes of a graph, as an invariant of the loop.\<close>

definition ready_node :: "func \<Rightarrow> ddg \<Rightarrow> nat set \<Rightarrow> nat \<Rightarrow> bool" where
  "ready_node F g D a \<longleftrightarrow> a < length g \<and> a \<notin> D \<and> preds_of g a \<subseteq> D \<and> schedulable F g a"

abbreviation instrs_at :: "ddg \<Rightarrow> nat list \<Rightarrow> iid list" where
  "instrs_at g ns \<equiv> map (\<lambda>n. dn_instr (g ! n)) ns"

definition greedy_nodes :: "sched_ctx \<Rightarrow> ddg \<Rightarrow> bitvec \<Rightarrow> nat list \<Rightarrow> bool" where
  "greedy_nodes c g live don \<longleftrightarrow> (\<forall>us a vs. don = us @ a # vs \<longrightarrow> ready_node (sc_func c) g (set us) a \<and>
     (\<forall>b. ready_node (sc_func c) g (set us) b \<longrightarrow> dn_cp (g ! b) < dn_cp (g ! a) \<or>
        (dn_cp (g ! b) = dn_cp (g ! a) \<and> (sc_pressure c \<longrightarrow>
           pressureDelta (sc_func c) (dn_instr (g ! a)) (live_after c live (instrs_at g us)) (sc_index c) (sc_live c) \<le>
           pressureDelta (sc_func c) (dn_instr (g ! b)) (live_after c live (instrs_at g us)) (sc_index c) (sc_live c)))))"

lemma queue_ready: "sched_inv c g don st \<Longrightarrow> a \<in> set (ss_queue st) \<longleftrightarrow> ready_node (sc_func c) g (set don) a"
  using sched_inv_queue by (simp add: ready_node_def)

lemma greedy_nodes_snoc:
  assumes g: "greedy_nodes c g live don" and inv: "sched_inv c g don st" and p: "pressure_inv c live peak st"
    and n: "n \<in> set (ss_queue st)"
    and best: "best_of (\<lambda>n. dn_cp (g ! n)) (\<lambda>n. if sc_pressure c
        then pressureDelta (sc_func c) (dn_instr (g ! n)) (ss_live st) (sc_index c) (sc_live c) else 0) (ss_queue st) n"
  shows "greedy_nodes c g live (don @ [n])"
  unfolding greedy_nodes_def
proof (intro allI impI)
  fix us a vs assume e: "don @ [n] = us @ a # vs"
  have live: "ss_live st = live_after c live (instrs_at g don)"
    using p inv by (simp add: pressure_inv_def sched_inv_def)
  show "ready_node (sc_func c) g (set us) a \<and>
     (\<forall>b. ready_node (sc_func c) g (set us) b \<longrightarrow> dn_cp (g ! b) < dn_cp (g ! a) \<or>
        (dn_cp (g ! b) = dn_cp (g ! a) \<and> (sc_pressure c \<longrightarrow>
           pressureDelta (sc_func c) (dn_instr (g ! a)) (live_after c live (instrs_at g us)) (sc_index c) (sc_live c) \<le>
           pressureDelta (sc_func c) (dn_instr (g ! b)) (live_after c live (instrs_at g us)) (sc_index c) (sc_live c))))"
  proof (cases vs rule: rev_cases)
    case Nil
    then have "us = don" "a = n" using e by simp_all
    then show ?thesis using n best_of_max [OF best] live queue_ready [OF inv] by (cases "sc_pressure c") simp_all
  next
    case (snoc ws w)
    then have "don = us @ a # ws" using e by simp
    then show ?thesis using g unfolding greedy_nodes_def by blast
  qed
qed

lemma listSchedule_greedy_nodes:
  assumes wf: "wf_ddg g" and cp: "\<forall>a < length g. 0 \<le> dn_cp (g ! a)"
  obtains don st where "listSchedule c g live peak = Some st" "sched_inv c g don st" "greedy_nodes c g live don"
    "ss_queue st = []"
proof -
  let ?P = "\<lambda>don st. greedy_nodes c g live don \<and> pressure_inv c live peak st"
  have "?P [] (sched_init c g live peak)" using pressure_inv_init by (simp add: greedy_nodes_def)
  then have "\<exists>don st. sched_loop c (sched_init c g live peak) = Some st \<and> sched_inv c g don st \<and> ?P don st \<and> ss_queue st = []"
    by (intro sched_loop_rule [OF wf cp _ sched_inv_init [OF wf]])
      (use greedy_nodes_snoc pressure_inv_step in blast)
  then show thesis using that unfolding listSchedule_def by blast
qed

section \<open>Refinement\<close>

text \<open>Nodes stand for instructions one to one.\<close>

lemma ready_node_inst:
  assumes gr: "graph_of delay dep xs g" and xs: "distinct xs" and a: "a < length xs" and us: "set us \<subseteq> {..<length xs}"
  shows "ready_node F g (set us) a \<longleftrightarrow> ready_inst F dep xs (set (instrs_at g us)) (xs ! a)"
proof -
  have len: "length g = length xs" and nth: "\<And>a. a < length xs \<Longrightarrow> dn_instr (g ! a) = xs ! a" and wf: "wf_ddg g"
    and edge: "\<And>a b. ddg_edge g a b \<longleftrightarrow> a < length xs \<and> b < length xs \<and> dep (xs ! a) (xs ! b)"
    using gr by (auto simp: graph_of_def)
  have mem: "xs ! p \<in> set (instrs_at g us) \<longleftrightarrow> p \<in> set us" if "p < length xs" for p
    using that us nth xs by (force simp: nth_eq_iff_index_eq)
  have "p \<in> preds_of g a \<longleftrightarrow> p < length xs \<and> dep (xs ! p) (xs ! a)" for p
    using wf_ddg_facts(3,5) [OF wf] edge [of p a] a len by (auto simp: ddg_edge_def)
  then have "preds_of g a \<subseteq> set us \<longleftrightarrow> (\<forall>i \<in> set xs. dep i (xs ! a) \<longrightarrow> i \<in> set (instrs_at g us))"
    using mem by (auto simp: all_set_conv_all_nth subset_iff)
  then show ?thesis using a len nth [OF a] mem [OF a] by (auto simp: ready_node_def ready_inst_def schedulable_def)
qed

lemma height_nth:
  assumes "graph_of delay dep xs g" "distinct xs" "a < length xs" shows "height xs g (xs ! a) = dn_cp (g ! a)"
proof -
  have len: "length xs = length g" using assms(1) by (auto simp: graph_of_def)
  then have "map_of (zip xs (map dn_cp g)) (xs ! a) = Some (map dn_cp g ! a)"
    using map_of_zip_nth [of xs "map dn_cp g" a] assms(2,3) by simp
  then show ?thesis using assms(3) len by (simp add: height_def)
qed

lemma greedy_refines:
  assumes gr: "graph_of delay dep xs g" and xs: "distinct xs" and inv: "sched_inv c g don st"
    and greedy: "greedy_nodes c g live don" and q: "ss_queue st = []"
  shows "greedy_schedule c dep xs (height xs g) live (ss_schedule st)"
proof -
  have sched: "ss_schedule st = instrs_at g don" and don: "set don \<subseteq> {..<length xs}"
    using inv gr by (auto simp: sched_inv_def graph_of_def)
  note ready = ready_node_inst [OF gr xs] and h = height_nth [OF gr xs]
  have nth: "\<And>a. a < length xs \<Longrightarrow> dn_instr (g ! a) = xs ! a" using gr by (auto simp: graph_of_def)
  have node: "\<exists>b < length xs. j = xs ! b \<and> ready_node (sc_func c) g (set us) b"
    if "ready_inst (sc_func c) dep xs (set (instrs_at g us)) j" "set us \<subseteq> {..<length xs}" for us j
  proof -
    have "j \<in> set xs" using that(1) by (simp add: ready_inst_def)
    then obtain b where "b < length xs" "j = xs ! b" by (auto simp: in_set_conv_nth)
    then show ?thesis using ready [OF _ that(2)] that(1) by auto
  qed
  have "ready_inst (sc_func c) dep xs (set us) i \<and>
      (\<forall>j. ready_inst (sc_func c) dep xs (set us) j \<longrightarrow> not_better c (height xs g) (live_after c live us) j i)"
    if s: "ss_schedule st = us @ i # vs" for us i vs
  proof -
    obtain ns a ms where n: "don = ns @ a # ms" "us = instrs_at g ns" "i = dn_instr (g ! a)"
      using s unfolding sched by (auto simp: map_eq_append_conv map_eq_Cons_conv)
    have a: "a < length xs" "set ns \<subseteq> {..<length xs}" using n(1) don by auto
    have G: "ready_node (sc_func c) g (set ns) a"
      "\<And>b. ready_node (sc_func c) g (set ns) b \<Longrightarrow> dn_cp (g ! b) < dn_cp (g ! a) \<or>
        (dn_cp (g ! b) = dn_cp (g ! a) \<and> (sc_pressure c \<longrightarrow>
           pressureDelta (sc_func c) (dn_instr (g ! a)) (live_after c live us) (sc_index c) (sc_live c) \<le>
           pressureDelta (sc_func c) (dn_instr (g ! b)) (live_after c live us) (sc_index c) (sc_live c)))"
      using greedy n unfolding greedy_nodes_def by blast+
    have i: "i = xs ! a" using n(3) nth a(1) by simp
    have "not_better c (height xs g) (live_after c live us) j i"
      if j: "ready_inst (sc_func c) dep xs (set us) j" for j
    proof -
      obtain b where b: "b < length xs" "j = xs ! b" "ready_node (sc_func c) g (set ns) b"
        using node [of ns j] j n(2) a(2) by blast
      then show ?thesis using G(2) [OF b(3)] h a(1) i nth unfolding not_better_def by simp
    qed
    then show ?thesis using G(1) ready [OF a] n(2) i by simp
  qed
  moreover have "\<not> ready_inst (sc_func c) dep xs (set (ss_schedule st)) j" for j
    using node [of don j] don q queue_ready [OF inv] unfolding sched by auto
  ultimately show ?thesis unfolding greedy_schedule_def by blast
qed

lemma listSchedule_greedy:
  assumes gr: "graph_of (getDelay F) dep xs g" and z: "\<forall>n < length g. dn_cp (g ! n) = 0" and xs: "distinct xs"
  shows "\<exists>st. listSchedule c (computeCriticalPath g) live peak = Some st \<and>
    greedy_schedule c dep xs (height xs (computeCriticalPath g)) live (ss_schedule st)"
proof -
  have gr': "graph_of (getDelay F) dep xs (computeCriticalPath g)" by (rule graph_of_critical [OF gr])
  then have wf: "wf_ddg (computeCriticalPath g)" by (simp add: graph_of_def)
  have "\<And>i. 0 \<le> getDelay F i" using getDelay_bounds by (meson order_trans zero_le_one)
  then have cp: "\<forall>n < length (computeCriticalPath g). 0 \<le> dn_cp (computeCriticalPath g ! n)"
    by (rule graph_of_cp_nonneg [OF gr _ z])
  obtain don st where st: "listSchedule c (computeCriticalPath g) live peak = Some st"
      "sched_inv c (computeCriticalPath g) don st" "greedy_nodes c (computeCriticalPath g) live don" "ss_queue st = []"
    by (rule listSchedule_greedy_nodes [OF wf cp])
  then show ?thesis using greedy_refines [OF gr' xs st(2-4)] by blast
qed

end
