(* ===== verification/Properties_Schedule.thy ===== *)
theory Properties_Schedule
  imports Examples Trace_Schedules Schedule_Greedy
begin

text \<open>
  The properties of dependence graphs, critical paths, list scheduling and region
  reordering, with the concrete inputs on which they are applied.
\<close>

section \<open>Dependence graphs\<close>

text \<open>C20.  The graph of a trace has one node per instruction that is not a PHI, terminators included, in
  trace order and with its latency.  It has an edge from a definition to a use exactly if both are in
  the trace and neither is a PHI or a terminator, so the condition of a branch has no edge to the
  branch; and an edge for each pair of ordered operations (calls, memory accesses, side effects) of
  one block, in program order, terminators among them.  There are no other edges.\<close>

theorem trace_graph_exact:
  assumes "distinct (insts_of F trace)"
  shows "wf_ddg (trace_ddg F trace) \<and> map dn_instr (trace_ddg F trace) = trace_insts F trace \<and>
    map dn_delay (trace_ddg F trace) = map (getDelay F) (trace_insts F trace) \<and>
    (\<forall>a b. ddg_edge (trace_ddg F trace) a b \<longleftrightarrow> a < length (trace_insts F trace) \<and> b < length (trace_insts F trace) \<and>
       trace_dep F trace (trace_insts F trace ! a) (trace_insts F trace ! b))"
  using trace_ddg_graph [OF assms] by (simp add: graph_of_def)

theorem trace_graph_exact_diamond:
  "wf_ddg (trace_ddg diamond [0, 1, 3]) \<and> map dn_instr (trace_ddg diamond [0, 1, 3]) = trace_insts diamond [0, 1, 3] \<and>
    map dn_delay (trace_ddg diamond [0, 1, 3]) = map (getDelay diamond) (trace_insts diamond [0, 1, 3]) \<and>
    (\<forall>a b. ddg_edge (trace_ddg diamond [0, 1, 3]) a b \<longleftrightarrow> a < length (trace_insts diamond [0, 1, 3]) \<and>
       b < length (trace_insts diamond [0, 1, 3]) \<and>
       trace_dep diamond [0, 1, 3] (trace_insts diamond [0, 1, 3] ! a) (trace_insts diamond [0, 1, 3] ! b))"
  by (rule trace_graph_exact) code_simp

text \<open>C21.  The graph of a block has one node per instruction and an edge exactly for each use of a
  result inside the block and for each pair of ordered operations, in program order.\<close>

theorem local_graph_exact:
  assumes "distinct (f_body F b)"
  shows "wf_ddg (buildLocalDDG F b) \<and> map dn_instr (buildLocalDDG F b) = f_body F b \<and>
    map dn_delay (buildLocalDDG F b) = map (getDelay F) (f_body F b) \<and>
    (\<forall>x y. ddg_edge (buildLocalDDG F b) x y \<longleftrightarrow> x < length (f_body F b) \<and> y < length (f_body F b) \<and>
       local_dep F b (f_body F b ! x) (f_body F b ! y))"
  using local_ddg_graph [OF assms] by (simp add: graph_of_def)

theorem local_graph_exact_diamond:
  "wf_ddg (buildLocalDDG diamond 3) \<and> map dn_instr (buildLocalDDG diamond 3) = f_body diamond 3 \<and>
    map dn_delay (buildLocalDDG diamond 3) = map (getDelay diamond) (f_body diamond 3) \<and>
    (\<forall>x y. ddg_edge (buildLocalDDG diamond 3) x y \<longleftrightarrow> x < length (f_body diamond 3) \<and> y < length (f_body diamond 3) \<and>
       local_dep diamond 3 (f_body diamond 3 ! x) (f_body diamond 3 ! y))"
  by (rule local_graph_exact) code_simp

section \<open>Critical paths\<close>

text \<open>C22.  On an acyclic trace graph the critical path of a node is the weight of a heaviest
  dependence path from it, and at most ten times the number of nodes.\<close>

theorem critical_path_longest:
  assumes d: "distinct (insts_of F trace)" and "defs_first F (trace_insts F trace)"
    and n: "n < length (trace_ddg F trace)"
  shows "(\<exists>p. ddg_path (trace_ddg F trace) n p \<and>
      path_weight (trace_ddg F trace) p = dn_cp (computeCriticalPath (trace_ddg F trace) ! n)) \<and>
    (\<forall>p. ddg_path (trace_ddg F trace) n p \<longrightarrow>
      path_weight (trace_ddg F trace) p \<le> dn_cp (computeCriticalPath (trace_ddg F trace) ! n)) \<and>
    dn_cp (computeCriticalPath (trace_ddg F trace) ! n) \<le> 10 * int (length (trace_ddg F trace))"
proof -
  let ?g = "trace_ddg F trace"
  have gr: "graph_of (getDelay F) (trace_dep F trace) (trace_insts F trace) ?g" by (rule trace_ddg_graph [OF d])
  then have wf: "wf_ddg ?g" and delays: "map dn_delay ?g = map (getDelay F) (trace_insts F trace)"
    by (simp_all add: graph_of_def)
  have fwd: "forward ?g" by (rule trace_ddg_forward [OF d assms(2)])
  have pos: "\<forall>k < length ?g. 0 < dn_delay (?g ! k) \<and> dn_delay (?g ! k) \<le> 10"
    by (rule graph_delays [OF gr])
  show ?thesis
    using critical_longest [OF wf fwd _ n] critical_bound [OF wf fwd pos n] pos by blast
qed

theorem critical_path_longest_diamond:
  "(\<exists>p. ddg_path (trace_ddg diamond [0, 1, 3]) 0 p \<and>
      path_weight (trace_ddg diamond [0, 1, 3]) p = dn_cp (computeCriticalPath (trace_ddg diamond [0, 1, 3]) ! 0)) \<and>
    path_weight (trace_ddg diamond [0, 1, 3]) [0] \<le> dn_cp (computeCriticalPath (trace_ddg diamond [0, 1, 3]) ! 0) \<and>
    dn_cp (computeCriticalPath (trace_ddg diamond [0, 1, 3]) ! 0) \<le> 10 * int (length (trace_ddg diamond [0, 1, 3]))"
proof -
  have h: "distinct (insts_of diamond [0, 1, 3])" "defs_first diamond (trace_insts diamond [0, 1, 3])"
    "0 < length (trace_ddg diamond [0, 1, 3])" by code_simp+
  then have "ddg_path (trace_ddg diamond [0, 1, 3]) 0 [0]" by (simp add: path_one)
  then show ?thesis using critical_path_longest [OF h] by blast
qed

text \<open>C23.  On every graph, cyclic ones included, the topological sort lists every node exactly once; on
  every acyclic graph, in whatever order its nodes are stored, a node comes before all its
  successors.\<close>

theorem topological_sort_correct:
  assumes "wf_ddg g"
  shows "distinct (topologicalSort g) \<and> set (topologicalSort g) = {..<length g} \<and>
    (acyclic {(a, b). ddg_edge g a b} \<longrightarrow> (\<forall>a b. ddg_edge g a b \<longrightarrow> precedes (topologicalSort g) a b))"
proof -
  have "precedes (topologicalSort g) a b" if "acyclic {(a, b). ddg_edge g a b}" and e: "ddg_edge g a b" for a b
  proof -
    have "acyclic (ddg_edges g)" using that(1) by (simp add: ddg_edges_def)
    moreover have "a \<in> set (topologicalSort g)" "b \<in> set (succs_of g a)"
      using topologicalSort_perm [OF assms] e by (auto simp: ddg_edge_def succs_of_def)
    ultimately show ?thesis using topologicalSort_order by (simp add: succs_first_def precedes_rev)
  qed
  then show ?thesis using topologicalSort_perm [OF assms] by blast
qed

text \<open>Three nodes stored against their edges: 2 before 0 before 1.\<close>

definition backward_ddg :: ddg where
  "backward_ddg = addEdge (addEdge (map (new_node diamond) [0, 1, 2]) 2 0) 0 1"

theorem topological_sort_correct_backward:
  "distinct (topologicalSort backward_ddg) \<and> set (topologicalSort backward_ddg) = {..<3} \<and>
    precedes (topologicalSort backward_ddg) 2 0 \<and> precedes (topologicalSort backward_ddg) 0 1"
proof -
  have wf: "wf_ddg backward_ddg" and len: "length backward_ddg = 3" by code_simp+
  have succs: "map dn_succs backward_ddg = [[1], [], [0]]" by code_simp
  have "ddg_edge backward_ddg a b \<longleftrightarrow> (a, b) \<in> {(0, 1), (2, 0)}" for a b
  proof -
    have "a = 0 \<or> a = 1 \<or> a = 2 \<or> \<not> a < 3" by auto
    moreover have "dn_succs (backward_ddg ! a) = [[1], [], [0]] ! a" if "a < 3"
      using that len succs by (metis nth_map)
    ultimately show ?thesis using len by (auto simp: ddg_edge_def)
  qed
  then have edges: "{(a, b). ddg_edge backward_ddg a b} = {(2, 0), (0, 1)}" by auto
  have "acyclic {(2, 0), (0 :: nat, 1 :: nat)}"
    by (rule acyclicI_order [where f = "\<lambda>n. if n = 2 then 2 else if n = 0 then 1 else (0 :: nat)"]) auto
  then show ?thesis using topological_sort_correct [OF wf] edges len by (auto simp: set_eq_iff)
qed

section \<open>List scheduling\<close>

text \<open>C9.  List scheduling of a trace always returns: no instruction twice, none from outside the
  trace, no terminator and no PHI, and every scheduled instruction comes after all instructions
  of the trace it depends on.\<close>

theorem trace_schedule_legal:
  assumes d: "distinct (insts_of F trace)" and fr: "same_frame F (sc_func c)"
  shows "\<exists>st. listSchedule c (computeCriticalPath (trace_ddg F trace)) live peak = Some st \<and>
    distinct (ss_schedule st) \<and> set (ss_schedule st) \<subseteq> set (trace_insts F trace) \<and>
    (\<forall>i \<in> set (ss_schedule st). \<not> is_term F i \<and> \<not> is_phi F i) \<and>
    (\<forall>i \<in> set (trace_insts F trace). \<forall>j \<in> set (ss_schedule st). trace_dep F trace i j \<longrightarrow>
       precedes (ss_schedule st) i j)"
proof -
  obtain st where st: "listSchedule c (computeCriticalPath (trace_ddg F trace)) live peak = Some st"
    using schedule_exists [OF trace_ddg_graph [OF d] trace_ddg_fresh [OF d]] by blast
  have dx: "distinct (trace_insts F trace)" using d by simp
  show ?thesis
    using st schedule_of_graph [OF trace_ddg_graph [OF d] trace_ddg_fresh [OF d] dx st] same_frame_queries [OF fr]
    by auto
qed

definition diamond_sched :: "bool \<Rightarrow> sched_ctx" where
  "diamond_sched pressure = \<lparr>sc_func = diamond, sc_index = diamond_index, sc_live = diamond_live,
     sc_pressure = pressure, sc_stats = True\<rparr>"

theorem trace_schedule_legal_diamond:
  "\<exists>st. listSchedule (diamond_sched True) (computeCriticalPath (trace_ddg diamond [0, 1, 3])) (bits [0, 1, 7]) 0 = Some st \<and>
    distinct (ss_schedule st) \<and> set (ss_schedule st) \<subseteq> set (trace_insts diamond [0, 1, 3]) \<and>
    (\<forall>i \<in> set (ss_schedule st). \<not> is_term diamond i \<and> \<not> is_phi diamond i) \<and>
    (\<forall>i \<in> set (trace_insts diamond [0, 1, 3]). \<forall>j \<in> set (ss_schedule st). trace_dep diamond [0, 1, 3] i j \<longrightarrow>
       precedes (ss_schedule st) i j)"
  by (rule trace_schedule_legal) (code_simp, simp add: diamond_sched_def)

text \<open>C11.  For every trace identified in an SSA function the graph is acyclic, and the schedule lists
  every instruction of the trace but PHIs and terminators.\<close>

theorem identified_trace_scheduled:
  assumes wf: "wf_func F" and s: "ssa F" and tr: "identifyTraces F prob freq threshold on st0 = Some (ts, st1)"
    and t: "t \<in> set ts" and fr: "same_frame F (sc_func c)"
  shows "forward (trace_ddg F t) \<and>
    (\<exists>st. listSchedule c (computeCriticalPath (trace_ddg F t)) live peak = Some st \<and>
       set (ss_schedule st) = {i \<in> set (trace_insts F t). \<not> is_term F i})"
proof -
  note first = identified_trace_defs_first [OF wf s tr t]
  show ?thesis
    using trace_ddg_forward [OF first(1,2)] trace_schedule_complete [OF wf first(3,4,2) fr] by blast
qed

theorem identified_trace_scheduled_diamond:
  "forward (trace_ddg diamond [0, 1, 3]) \<and>
    (\<exists>st. listSchedule (diamond_sched False) (computeCriticalPath (trace_ddg diamond [0, 1, 3])) (bits [0, 1, 7]) 0 = Some st \<and>
       set (ss_schedule st) = {i \<in> set (trace_insts diamond [0, 1, 3]). \<not> is_term diamond i})"
proof (rule identified_trace_scheduled [OF diamond_wf diamond_ssa])
  show "identifyTraces diamond (\<lambda>a b. if b = 2 then 20 else 80) (\<lambda>b. if b = 2 then 3 else 7) 60 True trace_stats0 =
      Some ([[0, 1, 3], [2]], \<lparr>ts_above = 2, ts_below = 1, ts_back = 0\<rparr>)" by code_simp
qed (simp_all add: diamond_sched_def)

text \<open>The node taken from a nonempty ready queue is the first of those with the greatest
  critical path and, among these, the least pressure delta.\<close>

theorem pick_best:
  assumes "q \<noteq> []" "\<forall>n \<in> set q. 0 \<le> dn_cp (g ! n)"
  shows "\<exists>n. pickBest F g q live index lv useP = Some n \<and>
    best_of (\<lambda>n. dn_cp (g ! n)) (\<lambda>n. if useP then pressureDelta F (dn_instr (g ! n)) live index lv else 0) q n"
  using pickBest_best [OF assms] by metis

theorem pick_best_diamond:
  "\<exists>n. pickBest diamond (computeCriticalPath (trace_ddg diamond [0, 1, 3])) [0, 2] (bits [0, 1, 7]) diamond_index diamond_live True = Some n \<and>
    best_of (\<lambda>n. dn_cp (computeCriticalPath (trace_ddg diamond [0, 1, 3]) ! n))
      (\<lambda>n. if True then pressureDelta diamond (dn_instr (computeCriticalPath (trace_ddg diamond [0, 1, 3]) ! n))
         (bits [0, 1, 7]) diamond_index diamond_live else 0) [0, 2] n"
  by (rule pick_best) code_simp+

text \<open>C10.  List scheduling refines greedy scheduling.  On traces and on blocks alike the schedule takes at
  every point an instruction that is ready, all it depends on being scheduled, and none that is ready
  has a longer critical path, or an equally long one and, if pressure matters, a smaller estimate for
  the values live at that point; at the end nothing is ready.\<close>

theorem schedule_greedy:
  assumes "wf_func F" "distinct t" "set t \<subseteq> set (f_blocks F)" "b \<in> set (f_blocks F)"
  shows "(\<exists>st. listSchedule c (computeCriticalPath (trace_ddg F t)) live peak = Some st \<and>
      greedy_schedule c (trace_dep F t) (trace_insts F t) (height (trace_insts F t) (computeCriticalPath (trace_ddg F t)))
        live (ss_schedule st)) \<and>
    (\<exists>st. listSchedule c (computeCriticalPath (buildLocalDDG F b)) live peak = Some st \<and>
      greedy_schedule c (local_dep F b) (f_body F b) (height (f_body F b) (computeCriticalPath (buildLocalDDG F b)))
        live (ss_schedule st))"
proof
  note d = wf_dist_func [OF assms(1)]
  have t: "distinct (insts_of F t)" by (rule distinct_insts_of_sub [OF d assms(2,3)])
  show "\<exists>st. listSchedule c (computeCriticalPath (trace_ddg F t)) live peak = Some st \<and>
      greedy_schedule c (trace_dep F t) (trace_insts F t) (height (trace_insts F t) (computeCriticalPath (trace_ddg F t)))
        live (ss_schedule st)"
    by (rule listSchedule_greedy [OF trace_ddg_graph [OF t] trace_ddg_fresh [OF t]]) (use t in simp)
  have b: "distinct (f_body F b)" by (rule dist_func_body [OF d assms(4)])
  show "\<exists>st. listSchedule c (computeCriticalPath (buildLocalDDG F b)) live peak = Some st \<and>
      greedy_schedule c (local_dep F b) (f_body F b) (height (f_body F b) (computeCriticalPath (buildLocalDDG F b)))
        live (ss_schedule st)"
    by (rule listSchedule_greedy [OF local_ddg_graph [OF b] local_ddg_fresh [OF b] b])
qed

theorem schedule_greedy_diamond:
  "(\<exists>st. listSchedule (diamond_sched True) (computeCriticalPath (trace_ddg diamond [0, 1, 3])) (bits [0, 1, 7]) 0 = Some st \<and>
      greedy_schedule (diamond_sched True) (trace_dep diamond [0, 1, 3]) (trace_insts diamond [0, 1, 3])
        (height (trace_insts diamond [0, 1, 3]) (computeCriticalPath (trace_ddg diamond [0, 1, 3])))
        (bits [0, 1, 7]) (ss_schedule st)) \<and>
    (\<exists>st. listSchedule (diamond_sched True) (computeCriticalPath (buildLocalDDG diamond 3)) (bits [0, 1, 7]) 0 = Some st \<and>
      greedy_schedule (diamond_sched True) (local_dep diamond 3) (f_body diamond 3)
        (height (f_body diamond 3) (computeCriticalPath (buildLocalDDG diamond 3))) (bits [0, 1, 7]) (ss_schedule st))"
  by (rule schedule_greedy [OF diamond_wf]) (simp_all add: diamond_def)

text \<open>C32.  The peak pressure is exact: the live set at the end of list scheduling is that of executing the
  schedule instruction by instruction, and with statistics on the recorded peak is the largest of the
  earlier peak and the numbers of live values before and after each scheduled instruction.\<close>

theorem peak_pressure_exact:
  assumes "distinct (insts_of F trace)"
  shows "\<exists>st. listSchedule c (computeCriticalPath (trace_ddg F trace)) live peak = Some st \<and>
    ss_live st = live_after c live (ss_schedule st) \<and>
    ss_peak st = (if sc_stats c then Max (insert peak (live_counts c live (ss_schedule st))) else peak)"
proof -
  obtain st where st: "listSchedule c (computeCriticalPath (trace_ddg F trace)) live peak = Some st"
    using schedule_exists [OF trace_ddg_graph [OF assms] trace_ddg_fresh [OF assms]] by blast
  then show ?thesis using listSchedule_pressure [OF st] by (simp add: pressure_inv_def)
qed

theorem peak_pressure_exact_diamond:
  "\<exists>st. listSchedule (diamond_sched True) (computeCriticalPath (trace_ddg diamond [0, 1, 3])) (bits [0, 1, 7]) 2 = Some st \<and>
    ss_live st = live_after (diamond_sched True) (bits [0, 1, 7]) (ss_schedule st) \<and>
    ss_peak st = (if sc_stats (diamond_sched True)
      then Max (insert 2 (live_counts (diamond_sched True) (bits [0, 1, 7]) (ss_schedule st))) else 2)"
  by (rule peak_pressure_exact) code_simp

text \<open>C24.  The pressure estimate is exact: when no operand in the value index is repeated, scheduling an
  instruction changes the number of live values by its \<open>pressureDelta\<close>.\<close>

theorem pressure_delta_exact:
  assumes "\<forall>v w k. index v = Some k \<longrightarrow> index w = Some k \<longrightarrow> v = w" "\<forall>v k. index v = Some k \<longrightarrow> k < length live"
    and "distinct (filter (\<lambda>v. index v \<noteq> None) (operands F i))" "Inst i \<notin> set (operands F i)"
  shows "int (bv_count (updateLiveSet F i live index lv)) = int (bv_count live) + pressureDelta F i live index lv"
  using assms by (intro pressureDelta_exact) blast+

theorem pressure_delta_exact_pair:
  "int (bv_count (updateLiveSet pair 1 [True, True, False] (buildValueIndex (universe pair)) pair_live)) =
     int (bv_count [True, True, False]) + pressureDelta pair 1 [True, True, False] (buildValueIndex (universe pair)) pair_live"
proof (rule pressure_delta_exact)
  have u: "distinct (universe pair)" "length (universe pair) = 3" by code_simp+
  note idx = buildValueIndex_Some [OF u(1)]
  show "\<forall>v w k. buildValueIndex (universe pair) v = Some k \<longrightarrow> buildValueIndex (universe pair) w = Some k \<longrightarrow> v = w"
    by (auto simp: idx)
  show "\<forall>v k. buildValueIndex (universe pair) v = Some k \<longrightarrow> k < length [True, True, False]"
    by (auto simp: idx u(2))
qed code_simp+

text \<open>A repeated operand that dies is counted twice: for \<open>x * x\<close> the estimate is -1
  although the number of live values does not change.\<close>

theorem pressure_delta_repeated:
  "pressureDelta diamond 2 (bits [1]) diamond_index Map.empty = -1 \<and>
   bv_count (updateLiveSet diamond 2 (bits [1]) diamond_index Map.empty) = bv_count (bits [1])"
  by code_simp

section \<open>Reordering\<close>

text \<open>C13.  What reordering a block does, region by region.  A region is a maximal run of instructions
  without anchors; an anchor ends it.  If the schedule lists all instructions of a region, they stand
  afterwards in the region's place in the order of the schedule; if one is missing, the region is
  left as it is.  Anchors keep their index, the block keeps its instructions, and no other block
  changes.\<close>

theorem reorder_block:
  assumes wf: "wf_func F" and b: "b \<in> set (f_blocks F)" and s: "distinct schedule"
  shows "\<exists>xs. reorderBlockWithinRegions schedule F b = set_body F b xs \<and> mset xs = mset (f_body F b) \<and>
    (\<forall>k < length (f_body F b). isSchedulingAnchor F (f_body F b ! k) \<longrightarrow> xs ! k = f_body F b ! k) \<and>
    (\<forall>us r p vs. region_at F (f_body F b) us r p vs \<longrightarrow>
       (\<exists>us' r' vs'. xs = us' @ r' @ p # vs' \<and> length us' = length us \<and> mset r' = mset r \<and>
          (if set r \<subseteq> set schedule then \<forall>i j. precedes r' i j \<longrightarrow> precedes schedule i j else r' = r)))"
proof -
  let ?xs = "reorder_spec F schedule [] (f_body F b)"
  have d: "distinct (f_body F b)" by (rule wf_distinct_body [OF wf b])
  have "\<exists>us' r' vs'. ?xs = us' @ r' @ p # vs' \<and> length us' = length us \<and> mset r' = mset r \<and>
      (if set r \<subseteq> set schedule then \<forall>i j. precedes r' i j \<longrightarrow> precedes schedule i j else r' = r)"
    if "region_at F (f_body F b) us r p vs" for us r p vs
    using reorder_spec_region [OF that d s] by metis
  then show ?thesis
    using reorderBlock_body [OF wf_dist_func [OF wf] b] d mset_reorder_spec [of "[]" "f_body F b"]
      reorder_spec_anchor [of "[]" F _ "f_body F b"] by (intro exI [of _ ?xs]) simp
qed

theorem reorder_block_diamond:
  "\<exists>xs. reorderBlockWithinRegions [2, 3, 1] diamond 0 = set_body diamond 0 xs \<and> xs ! 4 = 4 \<and>
    (\<exists>us' r' vs'. xs = us' @ r' @ 4 # vs' \<and> length us' = 1 \<and> mset r' = mset [1, 2, 3] \<and>
       (if set [1, 2, 3] \<subseteq> set [2, 3, 1 :: iid] then \<forall>i j. precedes r' i j \<longrightarrow> precedes [2, 3, 1] i j else r' = [1, 2, 3]))"
proof -
  have h: "0 \<in> set (f_blocks diamond)" "4 < length (f_body diamond 0)" "isSchedulingAnchor diamond (f_body diamond 0 ! 4)"
    "f_body diamond 0 ! 4 = 4" "distinct [2, 3, 1 :: iid]"
    by code_simp+
  have "f_body diamond 0 = [0] @ [1, 2, 3] @ 4 # []" "list_all (\<lambda>i. \<not> isSchedulingAnchor diamond i) [1, 2, 3]"
    "isSchedulingAnchor diamond 4" "isSchedulingAnchor diamond 0" by code_simp+
  then have reg: "region_at diamond (f_body diamond 0) [0] [1, 2, 3] 4 []" by (simp add: region_at_def)
  obtain xs where xs: "reorderBlockWithinRegions [2, 3, 1] diamond 0 = set_body diamond 0 xs"
    "\<forall>k < length (f_body diamond 0). isSchedulingAnchor diamond (f_body diamond 0 ! k) \<longrightarrow> xs ! k = f_body diamond 0 ! k"
    "\<forall>us r p vs. region_at diamond (f_body diamond 0) us r p vs \<longrightarrow>
       (\<exists>us' r' vs'. xs = us' @ r' @ p # vs' \<and> length us' = length us \<and> mset r' = mset r \<and>
          (if set r \<subseteq> set [2, 3, 1] then \<forall>i j. precedes r' i j \<longrightarrow> precedes [2, 3, 1] i j else r' = r))"
    using reorder_block [OF diamond_wf h(1,5)] by blast
  have "xs ! 4 = 4" using xs(2) h(2-4) by metis
  moreover obtain us' r' vs' where "xs = us' @ r' @ 4 # vs'" "length us' = length [0 :: iid]" "mset r' = mset [1, 2, 3]"
    "if set [1, 2, 3] \<subseteq> set [2, 3, 1 :: iid] then \<forall>i j. precedes r' i j \<longrightarrow> precedes [2, 3, 1] i j else r' = [1, 2, 3]"
    using xs(3) reg by metis
  ultimately show ?thesis using xs(1) by auto
qed

text \<open>C12.  Reordering by a schedule that respects uses preserves what a reachable block of an SSA
  function computes, whatever its instructions mean.\<close>

theorem reorder_preserves_meaning:
  assumes wf: "wf_func F" and s: "ssa F" and b: "b \<in> set (f_blocks F)" "reachable F b" and ok: "order_ok F schedule"
  shows "exec_insts S F (f_body (reorderBlockWithinRegions schedule F b) b) st = exec_insts S F (f_body F b) st"
proof -
  have "legal_for F schedule (f_body F b)"
    using ok by (auto simp: legal_for_def order_ok_def isSchedulingAnchor_def)
  then show ?thesis
    using exec_reorder_spec [of "[]" "f_body F b" F schedule S st] wf_distinct_body [OF wf b(1)]
      ssa_pure_defs_first [OF wf_dist_func [OF wf] s b] reorderBlock_body [OF wf_dist_func [OF wf] b(1)] by simp
qed

theorem reorder_preserves_meaning_diamond:
  "exec_insts \<lparr>sem_pure = \<lambda>i vs. sum_list vs + i, sem_effect = \<lambda>i vs m. (m, m + sum_list vs)\<rparr> diamond
     (f_body (reorderBlockWithinRegions [2, 1, 3] diamond 0) 0) ((\<lambda>_. 1), 0) =
   exec_insts \<lparr>sem_pure = \<lambda>i vs. sum_list vs + i, sem_effect = \<lambda>i vs m. (m, m + sum_list vs)\<rparr> diamond (f_body diamond 0) ((\<lambda>_. 1), 0)"
proof (rule reorder_preserves_meaning [OF diamond_wf diamond_ssa])
  show "order_ok diamond [2, 1, 3]" by code_simp
  show "reachable diamond 0" using reachable_entry [of diamond] by (simp add: diamond_def)
qed code_simp

text \<open>C38.  A user of a PHI of its own block is never scheduled by the local scheduler, and a region
  that contains one is left as it is.\<close>

theorem phi_users_not_scheduled:
  assumes d: "distinct (f_body F b)" and fr: "same_frame F (sc_func c)"
    and run: "listSchedule c (computeCriticalPath (buildLocalDDG F b)) live peak = Some st"
    and i: "i \<in> set (f_body F b)" "is_phi F i" and j: "j \<in> set (f_body F b)" "Inst i \<in> set (operands F j)"
    and region: "j \<in> set region" "distinct region"
  shows "j \<notin> set (ss_schedule st) \<and> reorder_region (ss_schedule st) G (region, boundary) = G"
proof -
  note facts = schedule_of_graph [OF local_ddg_graph [OF d] local_ddg_fresh [OF d] d run]
  have "i \<notin> set (ss_schedule st)" using facts(3) i(2) same_frame_queries [OF fr] by auto
  then have j': "j \<notin> set (ss_schedule st)"
    using facts(4) [OF i(1)] j(2) by (auto simp: local_dep_def dest: precedes_in)
  have "set (region_ordered (ss_schedule st) region) \<subset> set region"
    using region_ordered_props [of "ss_schedule st" region] region(1) j' by auto
  then have "card (set (region_ordered (ss_schedule st) region)) < card (set region)" by (simp add: psubset_card_mono)
  then have "length (region_ordered (ss_schedule st) region) < length region"
    using region_ordered_props [of "ss_schedule st" region] region(2) distinct_card by metis
  then show ?thesis using j' by (simp add: reorder_region_def)
qed

theorem phi_users_not_scheduled_diamond:
  "11 \<notin> set [] \<and> reorder_region [] diamond ([11], Some 12) = diamond"
proof -
  have run: "map_option ss_schedule (listSchedule (diamond_sched True) (computeCriticalPath (buildLocalDDG diamond 3)) (bits [1, 2, 7]) 0) = Some []"
    by code_simp
  obtain st where st: "listSchedule (diamond_sched True) (computeCriticalPath (buildLocalDDG diamond 3)) (bits [1, 2, 7]) 0 = Some st"
    "ss_schedule st = []" using run by auto
  have "11 \<notin> set (ss_schedule st) \<and> reorder_region (ss_schedule st) diamond ([11], Some 12) = diamond"
  proof (rule phi_users_not_scheduled [OF _ _ st(1)])
    show "same_frame diamond (sc_func (diamond_sched True))" by (simp add: diamond_sched_def)
    show "(10 :: nat) \<in> set (f_body diamond 3)" by code_simp
  qed code_simp+
  then show ?thesis using st(2) by simp
qed

section \<open>The value index\<close>

text \<open>C34.  The value index inverts the enumeration of the values: looking up a value gives its
  position, and what is not in the enumeration is not found.\<close>

theorem value_index_roundtrip:
  assumes "wf_func F"
  shows "(\<forall>k < length (universe F). buildValueIndex (universe F) (universe F ! k) = Some k) \<and>
    (\<forall>v k. buildValueIndex (universe F) v = Some k \<longrightarrow> k < length (universe F) \<and> universe F ! k = v)"
  using buildValueIndex_Some [OF distinct_universe [OF assms]] by blast

theorem value_index_roundtrip_diamond:
  "buildValueIndex (universe diamond) (universe diamond ! 9) = Some 9"
proof -
  have "9 < length (universe diamond)" by code_simp
  then show ?thesis using value_index_roundtrip [OF diamond_wf] by blast
qed

end
