(* ===== verification/Hoist_Pressure.thy ===== *)
theory Hoist_Pressure
  imports Hoisting Pressure
begin

text \<open>
  The dynamic live sets of phase 2 of \<open>include/applySchedule.hpp\<close>: what the pressure budget
  guarantees, and that the sets keep the size their accesses need.
\<close>

section \<open>The pressure budget\<close>

text \<open>When a hoist happens under the budget, the target's tracked live count afterwards is at
  most the budget plus the number of operands that the estimate took for dying.\<close>

lemma hoist_pressure:
  assumes att: "attempt c F dyn i b t = None" and p: "hc_pressure c"
  shows "int (bv_count (dyn_at (snd (do_hoist c F dyn i t)) t)) \<le> hc_budget c +
    int (length (filter (dies_at (hc_index c) (dyn_at dyn t) (out_of_parent F (hc_live c) i)) (operands F i)))"
proof -
  let ?live = "dyn_at dyn t"
  have budget: "int (bv_count ?live) + pressureDelta F i ?live (hc_index c) (hc_live c) \<le> hc_budget c"
    using attempt_None [OF att] p by blast
  have "bv_count (bv_set ?live k) \<le> bv_count ?live + (if bv_test ?live k then 0 else 1)" for k
    using bv_count_set [of k ?live] by (cases "k < length ?live") (simp_all add: bv_set_def list_update_beyond)
  then have "int (bv_count (bv_set ?live k)) \<le> int (bv_count ?live) + 1"
    "bv_test ?live k \<Longrightarrow> int (bv_count (bv_set ?live k)) \<le> int (bv_count ?live)" for k
    by (smt (verit, best) of_nat_1 of_nat_add of_nat_mono add_0_right)+
  then have "int (bv_count (dyn_at (snd (do_hoist c F dyn i t)) t)) \<le> int (bv_count ?live) +
      (if \<not> is_void F i then (case hc_index c (Inst i) of None \<Rightarrow> 0
         | Some idx \<Rightarrow> (if \<not> bv_test ?live idx then 1 else 0)) else 0)"
    by (cases "hc_index c (Inst i)"; cases "is_void F i")
      (simp_all add: do_hoist_def split: if_split_asm)
  then show ?thesis using budget unfolding pressureDelta_def Let_def delta_fold by linarith
qed

section \<open>Sizes\<close>

lemma do_hoist_length: "length (dyn_at (snd (do_hoist c F dyn i t)) b) = length (dyn_at dyn b)"
  by (auto simp: do_hoist_def bv_simps split: option.split)

lemma hoist_step_length:
  assumes "hoist_step c om (F, dyn, st) i = (G, dyn', st')" shows "length (dyn_at dyn' b) = length (dyn_at dyn b)"
proof -
  have "length (dyn_at (fst (snd (try_targets c F dyn i o' best ts))) b) = length (dyn_at dyn b)" for o' best ts
    using do_hoist_length [of c F dyn i _ b] by (auto simp: try_targets_find split: option.split prod.split) (metis snd_conv)
  then show ?thesis using assms by (auto simp: hoist_step_def Let_def split: option.splits if_splits prod.splits) (metis fst_conv snd_conv)+
qed

lemma phase2_length:
  assumes "phase2 c om is (F, dyn, st) = (G, dyn', st')" shows "length (dyn_at dyn' b) = length (dyn_at dyn b)"
  using assms unfolding phase2_def
proof (induction "is" arbitrary: F dyn st)
  case (Cons i "is")
  obtain F1 d1 s1 where "hoist_step c om (F, dyn, st) i = (F1, d1, s1)" by (metis prod_cases3)
  then show ?case using Cons hoist_step_length by fastforce
qed simp

lemma dyn_init_at: "b \<in> set trace \<Longrightarrow> dyn_at (dyn_init lv trace) b = l_in (live_at lv b)"
  by (simp add: dyn_init_def dm_get_def foldl_upd_map)

text \<open>After any part of phase 2, the accesses for every target and every instruction are in range.\<close>

lemma phase2_in_range:
  assumes d: "dist_func F" and ok: "apply_ok c schedule F" and typed: "live_typed F (hc_index c) (hc_live c) n"
    and run: "phase2 c (original_block F (hc_trace c)) (take k schedule)
      (phase1 schedule (hc_trace c) F, dyn_init (hc_live c) (hc_trace c), st) = (G, dyn, st')"
    and t: "t \<in> set (hc_trace c)" and i: "i \<in> set (all_insts F)"
  shows "in_range G (hc_index c) (hc_live c) (dyn_at dyn t) i"
proof -
  have part: "set (take k schedule) \<subseteq> set schedule" "distinct (take k schedule)"
    using ok by (simp_all add: set_take_subset apply_ok_def order_ok_def)
  obtain F1 where "dist_func F1" "same_insts F F1" "hoists (hc_an c) (hc_trace c) F1 G"
    by (rule phase2_part [OF d ok part run])
  then have si: "same_insts F G" by (rule hoists_part_same_insts [OF ok])
  then have "set (all_insts G) = set (all_insts F)" using mset_eq_setD unfolding same_insts_def by blast
  moreover have "live_typed G (hc_index c) (hc_live c) n" using typed live_typed_same [of F G] si by (simp add: same_insts_def)
  moreover have "length (dyn_at dyn t) = n"
    using phase2_length [OF run, of t] dyn_init_at [OF t] typed ok t by (auto simp: live_typed_def apply_ok_def)
  ultimately show ?thesis using typed_in_range i by blast
qed

end
