(* ===== verification/Properties_Transform.thy ===== *)
theory Properties_Transform
  imports Examples Hoist_Pressure
begin

text \<open>
  The properties of \<open>applySchedule\<close>: what a call guarantees of the function, of the place of
  every instruction, of the register pressure, of the bit vectors it accesses and of the
  statistics.
\<close>

section \<open>The function\<close>

text \<open>C6.  Applying a schedule keeps a function well-formed and in SSA form; only positions of
  instructions change, and the anchors of every block stay, in their order.\<close>

theorem apply_schedule_keeps:
  assumes wf: "wf_func F" and ok: "apply_ok c schedule F" and sound: "dom_sound (hc_an c) F" and s: "ssa F"
  shows "wf_func (fst (applySchedule c schedule F st)) \<and> ssa (fst (applySchedule c schedule F st)) \<and>
    same_insts F (fst (applySchedule c schedule F st)) \<and>
    (\<forall>b. filter (isSchedulingAnchor F) (f_body (fst (applySchedule c schedule F st)) b) =
       filter (isSchedulingAnchor F) (f_body F b))"
proof -
  obtain G st' where run: "applySchedule c schedule F st = (G, st')" by force
  note d = wf_dist_func [OF wf]
  show ?thesis
    using applySchedule_wf [OF wf ok run] applySchedule_ssa [OF d ok run sound s]
      applySchedule_same_insts [OF d ok run] applySchedule_anchors [OF d ok run] run by simp
qed

theorem apply_schedule_keeps_diamond:
  "wf_func (fst (applySchedule diamond_ctx diamond_schedule diamond resetHoistStats)) \<and>
    ssa (fst (applySchedule diamond_ctx diamond_schedule diamond resetHoistStats)) \<and>
    same_insts diamond (fst (applySchedule diamond_ctx diamond_schedule diamond resetHoistStats)) \<and>
    (\<forall>b. filter (isSchedulingAnchor diamond) (f_body (fst (applySchedule diamond_ctx diamond_schedule diamond resetHoistStats)) b) =
       filter (isSchedulingAnchor diamond) (f_body diamond b))"
  by (rule apply_schedule_keeps [OF diamond_wf diamond_apply_ok _ diamond_ssa])
    (use diamond_sound in \<open>simp add: diamond_ctx_def\<close>)

text \<open>C7.  Phase 2 is a sequence of legal hoists: it leads from the reordered function by steps that
  each move one instruction that is no anchor in front of the terminator of an earlier block of
  the trace that dominates the instruction's original block, is in the same loop and no loop
  header, at a point where its operands are available and speculation is safe.\<close>

theorem phase2_only_hoists:
  assumes wf: "wf_func F" and ok: "apply_ok c schedule F"
  shows "hoists (hc_an c) (hc_trace c) (phase1 schedule (hc_trace c) F) (fst (applySchedule c schedule F st))"
proof -
  obtain G st' where run: "applySchedule c schedule F st = (G, st')" by force
  show ?thesis using applySchedule_phases [OF wf_dist_func [OF wf] ok run] run by auto
qed

theorem phase2_only_hoists_pair:
  "hoists (hc_an (pair_ctx 12)) (hc_trace (pair_ctx 12)) (phase1 [1] (hc_trace (pair_ctx 12)) pair)
     (fst (applySchedule (pair_ctx 12) [1] pair resetHoistStats))"
  by (rule phase2_only_hoists [OF pair_wf pair_apply_ok])

text \<open>C8.  An instruction that ends in another block than it started in is no anchor; its new block is
  earlier in the trace, dominates the old one, is in the same loop and is no loop header.\<close>

theorem moved_instructions_legal:
  assumes wf: "wf_func F" and ok: "apply_ok c schedule F"
    and i: "b \<in> set (f_blocks F)" "i \<in> set (f_body F b)"
    and t: "t \<in> set (f_blocks F)" "i \<in> set (f_body (fst (applySchedule c schedule F st)) t)" "t \<noteq> b"
  shows "\<not> isSchedulingAnchor F i \<and> precedes (hc_trace c) t b \<and> \<not> an_loop_header (hc_an c) t \<and>
    an_loop_for (hc_an c) b = an_loop_for (hc_an c) t \<and> an_dom (hc_an c) t b"
proof -
  obtain G st' where run: "applySchedule c schedule F st = (G, st')" by force
  then show ?thesis using applySchedule_positions [OF wf_dist_func [OF wf] ok run i t(1) _ t(3)] t(2) by (simp add: isSameLoopOrOuter_iff)
qed

theorem moved_instructions_legal_pair:
  "\<not> isSchedulingAnchor pair 1 \<and> precedes (hc_trace (pair_ctx 12)) 0 1 \<and> \<not> an_loop_header (hc_an (pair_ctx 12)) 0 \<and>
    an_loop_for (hc_an (pair_ctx 12)) 1 = an_loop_for (hc_an (pair_ctx 12)) 0 \<and> an_dom (hc_an (pair_ctx 12)) 0 1"
proof (rule moved_instructions_legal [OF pair_wf pair_apply_ok])
  show "1 \<in> set (f_body (fst (applySchedule (pair_ctx 12) [1] pair resetHoistStats)) 0)"
    using pair_hoisted by (auto split: prod.splits)
qed code_simp+

text \<open>C26.  A hoist goes to the earliest block of the trace that passes every check.  When no block
  does, nothing changes and the reason recorded is the last check that any attempt reached.\<close>

theorem hoist_earliest:
  assumes "try_targets c F dyn i b RNone [0..<k] = (G, dyn', best, moved)" "hc_stats c"
  shows "if moved then (\<exists>t < k. attempt c F dyn i b (hc_trace c ! t) = None \<and>
      (\<forall>s < t. attempt c F dyn i b (hc_trace c ! s) \<noteq> None) \<and> (G, dyn') = do_hoist c F dyn i (hc_trace c ! t))
    else G = F \<and> dyn' = dyn \<and> (\<forall>t < k. attempt c F dyn i b (hc_trace c ! t) \<noteq> None) \<and>
      best = Max (insert RNone ((\<lambda>t. the (attempt c F dyn i b (hc_trace c ! t))) ` {..<k}))"
proof (cases "find (\<lambda>t. attempt c F dyn i b (hc_trace c ! t) = None) [0..<k]")
  case None
  then have "\<forall>t < k. attempt c F dyn i b (hc_trace c ! t) \<noteq> None" by (simp add: find_None_iff)
  moreover have "G = F" "dyn' = dyn" "\<not> moved"
    "best = foldl (noteReason True) RNone (map (\<lambda>t. the (attempt c F dyn i b (hc_trace c ! t))) [0..<k])"
    using assms by (auto simp: try_targets_find None)
  ultimately show ?thesis by (simp add: note_fold_max atLeast0LessThan)
next
  case (Some t)
  then have "t < k" "attempt c F dyn i b (hc_trace c ! t) = None" "\<forall>s < t. attempt c F dyn i b (hc_trace c ! s) \<noteq> None"
    by (auto simp: find_Some_iff)
  moreover have "moved" "(G, dyn') = do_hoist c F dyn i (hc_trace c ! t)"
    using assms(1) Some by (auto simp: try_targets_find split: prod.splits)
  ultimately show ?thesis by auto
qed

theorem hoist_earliest_pair:
  "if False then (\<exists>t < 1. attempt (pair_ctx 0) pair (dyn_init pair_live [0, 1]) 1 1 (hc_trace (pair_ctx 0) ! t) = None \<and>
      (\<forall>s < t. attempt (pair_ctx 0) pair (dyn_init pair_live [0, 1]) 1 1 (hc_trace (pair_ctx 0) ! s) \<noteq> None) \<and>
      (pair, dyn_init pair_live [0, 1]) = do_hoist (pair_ctx 0) pair (dyn_init pair_live [0, 1]) 1 (hc_trace (pair_ctx 0) ! t))
    else pair = pair \<and> dyn_init pair_live [0, 1] = dyn_init pair_live [0, 1] \<and>
      (\<forall>t < 1. attempt (pair_ctx 0) pair (dyn_init pair_live [0, 1]) 1 1 (hc_trace (pair_ctx 0) ! t) \<noteq> None) \<and>
      RPressure = Max (insert RNone ((\<lambda>t. the (attempt (pair_ctx 0) pair (dyn_init pair_live [0, 1]) 1 1 (hc_trace (pair_ctx 0) ! t))) ` {..<1}))"
proof (rule hoist_earliest)
  have "attempt (pair_ctx 0) pair (dyn_init pair_live [0, 1]) 1 1 (hc_trace (pair_ctx 0) ! 0) = Some RPressure" by code_simp
  moreover have "hc_stats (pair_ctx 0)" by (simp add: pair_ctx_def)
  ultimately show "try_targets (pair_ctx 0) pair (dyn_init pair_live [0, 1]) 1 1 RNone [0..<1] =
      (pair, dyn_init pair_live [0, 1], RPressure, False)"
    by (simp add: noteReason_max RNone_least max_def less_eq_block_reason_def reason_rank_def)
qed (simp add: pair_ctx_def)

section \<open>Pressure\<close>

text \<open>C27.  After a hoist under the budget the live values tracked for the target are at most the budget
  and the operands that the estimate took for dying.\<close>

theorem hoist_within_budget:
  assumes "attempt c F dyn i b t = None" "hc_pressure c"
  shows "int (bv_count (dyn_at (snd (do_hoist c F dyn i t)) t)) \<le> hc_budget c +
    int (length (filter (dies_at (hc_index c) (dyn_at dyn t) (out_of_parent F (hc_live c) i)) (operands F i)))"
  by (rule hoist_pressure [OF assms])

theorem hoist_within_budget_pair:
  "int (bv_count (dyn_at (snd (do_hoist (pair_ctx 12) pair (dyn_init pair_live [0, 1]) 1 0)) 0)) \<le> hc_budget (pair_ctx 12) +
    int (length (filter (dies_at (hc_index (pair_ctx 12)) (dyn_at (dyn_init pair_live [0, 1]) 0)
      (out_of_parent pair (hc_live (pair_ctx 12)) 1)) (operands pair 1)))"
  by (rule hoist_within_budget [where b = 1]) code_simp+

text \<open>The budget does not bound the tracked live values: with a budget of 2, a third value
  becomes live, because operands counted as dying are never removed.\<close>

theorem budget_exceeded_pair:
  "hc_budget (pair_ctx 2) = 2 \<and> attempt (pair_ctx 2) pair (dyn_init pair_live [0, 1]) 1 1 0 = None \<and>
   bv_count (dyn_at (snd (do_hoist (pair_ctx 2) pair (dyn_init pair_live [0, 1]) 1 0)) 0) = 3"
  by code_simp

section \<open>Bit vectors\<close>

text \<open>C25.  Every access to a live set is in range, also when earlier traces have moved instructions since the
  analysis.  Whatever has been scheduled of a trace or a block that starts in \<open>b\<close>, the tracked live
  set and the live-out set of the instruction's block have a bit for the instruction and for each
  operand in the value index; so have the live sets of every block of the trace at every point of
  phase 2.\<close>

theorem bit_accesses_in_range:
  assumes wf: "wf_func F" and lv: "computeLiveness F = Some lv" and si: "same_insts F G"
    and i: "i \<in> set (all_insts F)" and b: "b \<in> set (f_blocks F)"
    and ok: "apply_ok c schedule G" and hc: "hc_index c = buildValueIndex (universe F)" "hc_live c = lv"
    and t: "t \<in> set (hc_trace c)"
  shows "in_range G (buildValueIndex (universe F)) lv (live_after sc (l_in (live_at lv b)) scheduled) i \<and>
    (case phase2 c (original_block G (hc_trace c)) (take k schedule)
        (phase1 schedule (hc_trace c) G, dyn_init lv (hc_trace c), st) of
       (H, dyn, st') \<Rightarrow> in_range H (buildValueIndex (universe F)) lv (dyn_at dyn t) i)"
proof
  have fr: "same_frame F G" and iG: "i \<in> set (all_insts G)"
    using si i mset_eq_setD unfolding same_insts_def by blast+
  have typed: "live_typed G (buildValueIndex (universe F)) lv (length (universe F))"
    using computeLiveness_typed [OF wf lv] live_typed_same [OF fr] by simp
  show "in_range G (buildValueIndex (universe F)) lv (live_after sc (l_in (live_at lv b)) scheduled) i"
    by (rule typed_in_range [OF typed _ iG]) (use typed b fr in \<open>simp add: live_typed_def same_frame_def\<close>)
  show "case phase2 c (original_block G (hc_trace c)) (take k schedule)
        (phase1 schedule (hc_trace c) G, dyn_init lv (hc_trace c), st) of
       (H, dyn, st') \<Rightarrow> in_range H (buildValueIndex (universe F)) lv (dyn_at dyn t) i"
    using phase2_in_range [OF same_insts_dist [OF si wf_dist_func [OF wf]] ok, of "length (universe F)" k st _ _ _ t i] typed t iG
    unfolding hc by (auto split: prod.split)
qed

definition pair_run_ctx :: hoist_ctx where
  "pair_run_ctx = (pair_ctx 12)\<lparr>hc_index := buildValueIndex (universe pair), hc_live := the (computeLiveness pair)\<rparr>"

definition pair_run_sched :: sched_ctx where
  "pair_run_sched = \<lparr>sc_func = pair, sc_index = buildValueIndex (universe pair), sc_live = the (computeLiveness pair),
     sc_pressure = True, sc_stats = True\<rparr>"

theorem bit_accesses_in_range_pair:
  "in_range pair (buildValueIndex (universe pair)) (the (computeLiveness pair))
     (live_after pair_run_sched (l_in (live_at (the (computeLiveness pair)) 1)) [1]) 1 \<and>
    (case phase2 pair_run_ctx (original_block pair (hc_trace pair_run_ctx)) (take 1 [1])
        (phase1 [1] (hc_trace pair_run_ctx) pair, dyn_init (the (computeLiveness pair)) (hc_trace pair_run_ctx), resetHoistStats) of
       (G, dyn, st') \<Rightarrow> in_range G (buildValueIndex (universe pair)) (the (computeLiveness pair)) (dyn_at dyn 0) 1)"
proof (rule bit_accesses_in_range [OF pair_wf])
  show "computeLiveness pair = Some (the (computeLiveness pair))"
    using computeLiveness_result [OF pair_wf] by (metis option.sel)
  show "same_insts pair pair" by simp
  show "apply_ok pair_run_ctx [1] pair" using pair_apply_ok [of 12] by (simp add: apply_ok_def pair_run_ctx_def)
qed (simp_all add: pair_run_ctx_def pair_ctx_def pair_def)

section \<open>Statistics\<close>

text \<open>The counters balance: with every candidate either done or blocked before the call, it is so
  after the call.\<close>

theorem counters_balance:
  assumes "balanced st"
  shows "balanced (snd (applySchedule c schedule F st))"
  using phase2_balanced [OF assms] by (auto simp: applySchedule_def split: prod.splits)

theorem counters_balance_pair: "balanced (snd (applySchedule (pair_ctx 0) [1] pair resetHoistStats))"
  by (rule counters_balance) code_simp

end
