(* ===== verification/Reports.thy ===== *)
theory Reports
  imports Apply_Schedule Trace_Identification Config
begin

text \<open>
  The lines that the passes write to the error stream when statistics are on:
  \<open>emitHoistStats\<close>, \<open>emitPeakLivePressure\<close> and the end of \<open>identifyTraces\<close>.  A report is a
  string, empty when statistics are off.  Numbers are written in decimal, as the stream
  operator of C++ does, and a number that is written is read back by \<open>atoi\<close>.
\<close>

section \<open>Decimal numbers\<close>

definition digit_char :: "nat \<Rightarrow> char" where
  "digit_char d = char_of (48 + d)"

fun show_nat :: "nat \<Rightarrow> string" where
  "show_nat n = (if n < 10 then [digit_char n] else show_nat (n div 10) @ [digit_char (n mod 10)])"

declare show_nat.simps [simp del]

lemma of_digit_char: "d < 10 \<Longrightarrow> (of_char (digit_char d) :: nat) = 48 + d"
  by (simp add: digit_char_def take_bit_eq_mod)

lemma digit_char_props: "d < 10 \<Longrightarrow> c_isdigit (digit_char d) \<and> \<not> c_isspace (digit_char d)"
  by (simp add: c_isdigit_def c_isspace_def of_digit_char)

lemma show_nat_digits: "list_all c_isdigit (show_nat n) \<and> show_nat n \<noteq> []"
proof (induction n rule: show_nat.induct)
  case (1 n)
  then show ?case by (subst show_nat.simps, subst show_nat.simps) (simp add: digit_char_props)
qed

lemma digits_value_show: "foldl (\<lambda>n c. 10 * n + (of_char c - 48)) 0 (show_nat n) = int n"
proof (induction n rule: show_nat.induct)
  case (1 n)
  have oc: "(of_char (digit_char d) :: int) = 48 + int d" if "d < 10" for d
    using of_digit_char [OF that] by (metis of_nat_of_char of_nat_add of_nat_numeral)
  show ?case
  proof (cases "n < 10")
    case True
    then show ?thesis by (subst show_nat.simps) (simp add: oc)
  next
    case False
    have "10 * int (n div 10) + int (n mod 10) = int n" by (metis mult_div_mod_eq of_nat_add of_nat_mult of_nat_numeral)
    then show ?thesis using False 1 by (subst show_nat.simps) (simp add: oc)
  qed
qed

lemma takeWhile_all: "list_all P xs \<Longrightarrow> takeWhile P xs = xs"
  by (induction xs) auto

text \<open>Reading back what was written.\<close>

lemma atoi_show_nat: "atoi (show_nat n) = int n"
proof -
  obtain c cs where s: "show_nat n = c # cs" using show_nat_digits [of n] by (cases "show_nat n") auto
  have c: "c_isdigit c" using show_nat_digits [of n] s by simp
  then have "\<not> c_isspace c" "c \<noteq> CHR ''-''" "c \<noteq> CHR ''+''" by (auto simp: c_isdigit_def c_isspace_def)
  then have "atoi (show_nat n) = digits_value (show_nat n)" by (simp add: s atoi_def)
  then show ?thesis unfolding digits_value_def using digits_value_show takeWhile_all show_nat_digits by metis
qed

section \<open>Reports\<close>

definition newline :: string where
  "newline = [char_of (10 :: nat)]"

definition emitPeakLivePressure :: "bool \<Rightarrow> nat \<Rightarrow> string" where
  "emitPeakLivePressure statsOn peak = (if \<not> statsOn then []
     else ''SCHED_STATS peak_live_pressure='' @ show_nat peak @ newline)"

definition emitHoistStats :: "bool \<Rightarrow> hoist_stats \<Rightarrow> string" where
  "emitHoistStats statsOn st = (if \<not> statsOn then []
     else ''SCHED_STATS hoist_candidates='' @ show_nat (hs_candidates st) @
       '' hoist_done='' @ show_nat (hs_done st) @
       '' blocked_dominance='' @ show_nat (hs_blockedDominance st) @
       '' blocked_loop='' @ show_nat (hs_blockedLoop st) @
       '' blocked_operand='' @ show_nat (hs_blockedOperand st) @
       '' blocked_unsafe_speculation='' @ show_nat (hs_blockedUnsafe st) @
       '' blocked_pressure='' @ show_nat (hs_blockedPressure st) @ newline)"

text \<open>The histogram: entries separated by commas.\<close>

fun show_hist :: "bool \<Rightarrow> (nat \<times> nat) list \<Rightarrow> string" where
  "show_hist first [] = []"
| "show_hist first ((k, n) # kvs) = (if \<not> first then '','' else []) @ show_nat k @ '':'' @ show_nat n @ show_hist False kvs"

definition trace_report :: "bool \<Rightarrow> bid list list \<Rightarrow> trace_stats \<Rightarrow> string" where
  "trace_report statsOn traces st = (if \<not> statsOn then []
     else ''SCHED_STATS trace_count='' @ show_nat (length traces) @ newline @
       ''SCHED_STATS trace_len_hist='' @ show_hist True (len_hist traces) @ newline @
       ''SCHED_STATS edges_above_threshold='' @ show_nat (ts_above st) @
       '' edges_below_threshold='' @ show_nat (ts_below st) @
       '' backedges_skipped='' @ show_nat (ts_back st) @ newline)"

section \<open>The histogram\<close>

lemma hist_incr_keys: "set (map fst (hist_incr n h)) = insert n (set (map fst h))"
  by (induction n h rule: hist_incr.induct) auto

lemma hist_incr_sorted: "sorted_wrt (<) (map fst h) \<Longrightarrow> sorted_wrt (<) (map fst (hist_incr n h))"
proof (induction n h rule: hist_incr.induct)
  case (2 n k c h)
  then show ?case using hist_incr_keys [of n h] by (auto simp flip: set_map)
qed simp

lemma hist_incr_lookup:
  "sorted_wrt (<) (map fst h) \<Longrightarrow>
   map_of (hist_incr n h) = (map_of h)(n \<mapsto> (case map_of h n of None \<Rightarrow> 1 | Some c \<Rightarrow> c + 1))"
proof (induction n h rule: hist_incr.induct)
  case (2 n k c h)
  have "map_of h m = None" if "m \<le> k" for m using "2.prems" that by (auto simp: map_of_eq_None_iff)
  then show ?case using 2 by (auto simp: fun_eq_iff)
qed auto

text \<open>The loop counts the traces of each length that occurs.\<close>

lemma len_hist_counts:
  "sorted_wrt (<) (map fst (len_hist ts)) \<and>
   (\<forall>n. map_of (len_hist ts) n = (if n \<in> length ` set ts then Some (length (filter (\<lambda>t. length t = n) ts)) else None))"
proof (induction ts rule: rev_induct)
  case (snoc t ts)
  have step: "len_hist (ts @ [t]) = hist_incr (length t) (len_hist ts)" by (simp add: len_hist_def)
  have "map_of (len_hist (ts @ [t])) n = (if n \<in> length ` set (ts @ [t])
      then Some (length (filter (\<lambda>u. length u = n) (ts @ [t]))) else None)" for n
    unfolding step using snoc hist_incr_lookup [of "len_hist ts" "length t"] by (auto simp: filter_empty_conv image_iff)
  then show ?case unfolding step using snoc hist_incr_sorted by blast
qed (simp add: len_hist_def)

lemma len_hist_list:
  "len_hist ts = map (\<lambda>n. (n, length (filter (\<lambda>t. length t = n) ts))) (sorted_list_of_set (length ` set ts))"
proof -
  have sorted: "sorted_wrt (<) (map fst (len_hist ts))"
    and look: "map_of (len_hist ts) n = (if n \<in> length ` set ts then Some (length (filter (\<lambda>t. length t = n) ts)) else None)" for n
    using len_hist_counts by blast+
  have "n \<in> set (map fst (len_hist ts)) \<longleftrightarrow> n \<in> length ` set ts" for n
    using look [of n] by (metis domIff dom_map_of_conv_image_fst list.set_map option.distinct(1))
  then have keys: "map fst (len_hist ts) = sorted_list_of_set (length ` set ts)"
    by (intro strict_sorted_equal) (use sorted in auto)
  have "(fst e, the (map_of (len_hist ts) (fst e))) = e" if "e \<in> set (len_hist ts)" for e
  proof -
    have "map_of (len_hist ts) (fst e) = Some (snd e)"
      using sorted that by (intro map_of_is_SomeI) (simp_all add: strict_sorted_iff)
    then show ?thesis by simp
  qed
  then have "map (\<lambda>n. (n, the (map_of (len_hist ts) n))) (map fst (len_hist ts)) = len_hist ts" by (simp add: map_idI)
  then have "len_hist ts = map (\<lambda>n. (n, the (map_of (len_hist ts) n))) (map fst (len_hist ts))" by (rule sym)
  then show ?thesis unfolding keys using look by (simp cong: map_cong)
qed

section \<open>Reading a report\<close>

text \<open>\<open>show_nat\<close> is injective, and a number ends where the digits end.\<close>

lemma show_nat_inj: "show_nat a = show_nat b \<Longrightarrow> a = b"
  using atoi_show_nat by (metis nat_int)

text \<open>The reader of the benchmark scripts: a report is split into words, a word at its first \<open>=\<close> into a
  label and a value.\<close>

fun split_on :: "(char \<Rightarrow> bool) \<Rightarrow> string \<Rightarrow> string list" where
  "split_on P [] = [[]]"
| "split_on P (c # cs) = (if P c then [] # split_on P cs
     else (case split_on P cs of [] \<Rightarrow> [[c]] | w # ws \<Rightarrow> (c # w) # ws))"

definition is_sep :: "char \<Rightarrow> bool" where
  "is_sep c \<longleftrightarrow> c = CHR '' '' \<or> c = CHR 0x0A"

definition report_value :: "string \<Rightarrow> string \<Rightarrow> string option" where
  "report_value key report = map_option (\<lambda>w. drop (Suc (length key)) w)
     (find (\<lambda>w. take (Suc (length key)) w = key @ ''='') (split_on is_sep report))"

definition report_number :: "string \<Rightarrow> string \<Rightarrow> int option" where
  "report_number key report = map_option atoi (report_value key report)"

definition read_hist :: "string \<Rightarrow> (int \<times> int) list" where
  "read_hist s = (if s = [] then [] else map (\<lambda>e. case split_on (\<lambda>c. c = CHR '':'') e of
     [k, n] \<Rightarrow> (atoi k, atoi n) | _ \<Rightarrow> (-1, -1)) (split_on (\<lambda>c. c = CHR '','') s))"

lemma split_on_word: "\<forall>c \<in> set w. \<not> P c \<Longrightarrow> P c \<Longrightarrow> split_on P (w @ c # cs) = w # split_on P cs"
  by (induction w) auto

lemma split_on_last: "\<forall>c \<in> set w. \<not> P c \<Longrightarrow> split_on P w = [w]"
  by (induction w) auto

lemma show_nat_chars: "c \<in> set (show_nat n) \<Longrightarrow> c_isdigit c"
  using show_nat_digits [of n] by (simp add: list_all_iff)

lemma digit_not_sep: "c_isdigit c \<Longrightarrow> \<not> is_sep c \<and> c \<noteq> CHR '':'' \<and> c \<noteq> CHR '',''"
  by (auto simp: c_isdigit_def is_sep_def)

lemma show_hist_chars: "c \<in> set (show_hist b h) \<Longrightarrow> c_isdigit c \<or> c = CHR '':'' \<or> c = CHR '',''"
  by (induction b h rule: show_hist.induct) (auto dest: show_nat_chars split: if_splits)

lemma no_sep [simp]: "list_all (\<lambda>c. \<not> is_sep c) (show_nat n)" "list_all (\<lambda>c. \<not> is_sep c) (show_hist b h)"
  by (auto simp: list_all_iff is_sep_def dest!: show_nat_chars show_hist_chars digit_not_sep)

text \<open>A report is a sequence of words, each followed by a separator.\<close>

abbreviation join_words :: "(string \<times> char) list \<Rightarrow> string" where
  "join_words ws \<equiv> concat (map (\<lambda>(w, c). w @ [c]) ws)"

lemma split_words:
  "list_all (\<lambda>(w, c). is_sep c \<and> list_all (\<lambda>c. \<not> is_sep c) w) ws \<Longrightarrow>
   split_on is_sep (join_words ws) = map fst ws @ [[]]"
  by (induction ws) (auto simp: list_all_iff split_on_word)

text \<open>One entry, and the whole histogram.\<close>

definition hist_entry :: "nat \<times> nat \<Rightarrow> string" where
  "hist_entry e = show_nat (fst e) @ '':'' @ show_nat (snd e)"

lemma read_entry: "split_on (\<lambda>c. c = CHR '':'') (hist_entry (k, n)) = [show_nat k, show_nat n]"
proof -
  have e: "split_on (\<lambda>c. c = CHR '':'') (show_nat k @ CHR '':'' # show_nat n) =
      show_nat k # split_on (\<lambda>c. c = CHR '':'') (show_nat n)"
    by (rule split_on_word) (auto dest!: show_nat_chars digit_not_sep)
  moreover have "split_on (\<lambda>c. c = CHR '':'') (show_nat n) = [show_nat n]"
    by (rule split_on_last) (auto dest!: show_nat_chars digit_not_sep)
  ultimately show ?thesis by (simp add: hist_entry_def)
qed

lemma entry_no_comma: "c \<in> set (hist_entry e) \<Longrightarrow> c \<noteq> CHR '',''"
  by (auto simp: hist_entry_def dest!: show_nat_chars digit_not_sep)

lemma split_hist: "split_on (\<lambda>c. c = CHR '','') (hist_entry e @ show_hist False h) = hist_entry e # map hist_entry h"
proof (induction h arbitrary: e)
  case Nil
  then show ?case using split_on_last [of "hist_entry e" "\<lambda>c. c = CHR '',''"] entry_no_comma by auto
next
  case (Cons f h)
  have "show_hist False (f # h) = CHR '','' # hist_entry f @ show_hist False h"
    by (cases f) (simp add: hist_entry_def)
  then show ?case using split_on_word [of "hist_entry e" "\<lambda>c. c = CHR '',''"] entry_no_comma Cons by auto
qed

lemma read_show_hist: "read_hist (show_hist True h) = map (\<lambda>(k, n). (int k, int n)) h"
proof (cases h)
  case (Cons e h')
  have s: "show_hist True h = hist_entry e @ show_hist False h'" by (cases e) (simp add: Cons hist_entry_def)
  have "hist_entry e \<noteq> []" by (simp add: hist_entry_def)
  then show ?thesis unfolding read_hist_def s split_hist
    by (auto simp: Cons read_entry atoi_show_nat simp del: map_eq_conv split: prod.split intro!: map_cong)
qed (simp add: read_hist_def)

text \<open>The words of the reports.\<close>

lemma newline_char: "newline = [CHR 0x0A]"
  by code_simp

lemma hoist_words:
  "split_on is_sep (emitHoistStats True st) =
     [''SCHED_STATS'', ''hoist_candidates='' @ show_nat (hs_candidates st), ''hoist_done='' @ show_nat (hs_done st), ''blocked_dominance='' @ show_nat (hs_blockedDominance st), ''blocked_loop='' @ show_nat (hs_blockedLoop st), ''blocked_operand='' @ show_nat (hs_blockedOperand st), ''blocked_unsafe_speculation='' @ show_nat (hs_blockedUnsafe st), ''blocked_pressure='' @ show_nat (hs_blockedPressure st), []]"
proof -
  have e: "emitHoistStats True st = join_words
      [(''SCHED_STATS'', CHR '' ''), (''hoist_candidates='' @ show_nat (hs_candidates st), CHR '' ''), (''hoist_done='' @ show_nat (hs_done st), CHR '' ''), (''blocked_dominance='' @ show_nat (hs_blockedDominance st), CHR '' ''), (''blocked_loop='' @ show_nat (hs_blockedLoop st), CHR '' ''), (''blocked_operand='' @ show_nat (hs_blockedOperand st), CHR '' ''), (''blocked_unsafe_speculation='' @ show_nat (hs_blockedUnsafe st), CHR '' ''), (''blocked_pressure='' @ show_nat (hs_blockedPressure st), CHR 0x0A)]"
    by (simp add: emitHoistStats_def newline_char)
  show ?thesis unfolding e
    by (subst split_words) (simp_all add: is_sep_def no_sep [unfolded is_sep_def de_Morgan_disj])
qed

lemma trace_words:
  "split_on is_sep (trace_report True ts st) =
     [''SCHED_STATS'', ''trace_count='' @ show_nat (length ts), ''SCHED_STATS'', ''trace_len_hist='' @ show_hist True (len_hist ts), ''SCHED_STATS'', ''edges_above_threshold='' @ show_nat (ts_above st), ''edges_below_threshold='' @ show_nat (ts_below st), ''backedges_skipped='' @ show_nat (ts_back st), []]"
proof -
  have e: "trace_report True ts st = join_words
      [(''SCHED_STATS'', CHR '' ''), (''trace_count='' @ show_nat (length ts), CHR 0x0A), (''SCHED_STATS'', CHR '' ''), (''trace_len_hist='' @ show_hist True (len_hist ts), CHR 0x0A), (''SCHED_STATS'', CHR '' ''), (''edges_above_threshold='' @ show_nat (ts_above st), CHR '' ''), (''edges_below_threshold='' @ show_nat (ts_below st), CHR '' ''), (''backedges_skipped='' @ show_nat (ts_back st), CHR 0x0A)]"
    by (simp add: trace_report_def newline_char)
  show ?thesis unfolding e
    by (subst split_words) (simp_all add: is_sep_def no_sep [unfolded is_sep_def de_Morgan_disj])
qed

lemma peak_words:
  "split_on is_sep (emitPeakLivePressure True peak) =
     [''SCHED_STATS'', ''peak_live_pressure='' @ show_nat peak, []]"
proof -
  have e: "emitPeakLivePressure True peak = join_words
      [(''SCHED_STATS'', CHR '' ''), (''peak_live_pressure='' @ show_nat peak, CHR 0x0A)]"
    by (simp add: emitPeakLivePressure_def newline_char)
  show ?thesis unfolding e
    by (subst split_words) (simp_all add: is_sep_def no_sep [unfolded is_sep_def de_Morgan_disj])
qed

end
