(* ===== verification/Driver.thy ===== *)
theory Driver
  imports Main
begin

text \<open>
  \<open>src/schedRegAllocDriver.cpp\<close>: a compiler driver that runs LLVM's code generation on one
  module.  Everything it calls is LLVM's; those functions are parameters.  The model keeps
  what the driver itself decides: the order of the calls, the fallback target, the flags of
  the output file, and what it reports and returns when a call fails.
\<close>

text \<open>The calls into LLVM: \<open>'m\<close> modules, \<open>'t\<close> targets, \<open>'tm\<close> target machines, \<open>'p\<close> pass
  managers.\<close>

record ('m, 't, 'tm, 'p) llvm =
  ll_parseIRFile :: "string \<Rightarrow> string + 'm"              \<comment> \<open>a diagnostic, or a module\<close>
  ll_printDiag :: "string \<Rightarrow> string \<Rightarrow> string"        \<comment> \<open>\<open>SMDiagnostic::print\<close>, with the program's name\<close>
  ll_triple :: "'m \<Rightarrow> string"
  ll_setTriple :: "'m \<Rightarrow> string \<Rightarrow> 'm"
  ll_lookupTarget :: "string \<Rightarrow> string \<Rightarrow> string + 't"     \<comment> \<open>architecture and triple\<close>
  ll_createTargetMachine :: "'t \<Rightarrow> string \<Rightarrow> bool \<Rightarrow> 'tm option"  \<comment> \<open>triple and verbosity\<close>
  ll_setDataLayout :: "'m \<Rightarrow> 'tm \<Rightarrow> 'm"
  ll_openOutput :: "string \<Rightarrow> bool \<Rightarrow> string option"     \<comment> \<open>an error message; text mode or not\<close>
  ll_addPasses :: "'tm \<Rightarrow> string \<Rightarrow> bool \<Rightarrow> 'p option"     \<comment> \<open>triple and object file or not\<close>

text \<open>The options that the driver reads.\<close>

record options =
  op_argv0 :: string
  op_input :: string
  op_output :: string
  op_verbose :: bool
  op_march :: string
  op_object :: bool           \<comment> \<open>\<open>-filetype=obj\<close>\<close>

text \<open>The outcome: exit code, lines on the error stream, and, if it was kept, what the output
  file was made from: the passes run on the module.\<close>

record ('m, 'p) outcome =
  oc_exit :: int
  oc_errs :: "string list"
  oc_kept :: "('p \<times> 'm) option"

definition fail_with :: "string list \<Rightarrow> ('m, 'p) outcome" where
  "fail_with msgs = \<lparr>oc_exit = 1, oc_errs = msgs, oc_kept = None\<rparr>"

definition resolve_triple :: "string \<Rightarrow> string" where
  "resolve_triple t = (if t = [] then ''riscv64-unknown-linux-gnu'' else t)"

definition emit_module :: "('m, 't, 'tm, 'p) llvm \<Rightarrow> options \<Rightarrow> 'tm \<Rightarrow> string \<Rightarrow> 'm \<Rightarrow> ('m, 'p) outcome" where
  "emit_module L opts tm triple M =
     (let M' = ll_setDataLayout L M tm
      in case ll_openOutput L (op_output opts) (\<not> op_object opts) of
           Some msg \<Rightarrow> fail_with [op_argv0 opts @ '': '' @ msg]
         | None \<Rightarrow> (case ll_addPasses L tm triple (op_object opts) of
              None \<Rightarrow> fail_with [op_argv0 opts @ '': target does not support generation of this file type'']
            | Some pm \<Rightarrow> \<lparr>oc_exit = 0, oc_errs = [], oc_kept = Some (pm, M')\<rparr>))"

definition driver_main :: "('m, 't, 'tm, 'p) llvm \<Rightarrow> options \<Rightarrow> ('m, 'p) outcome" where
  "driver_main L opts = (case ll_parseIRFile L (op_input opts) of
       Inl err \<Rightarrow> fail_with [ll_printDiag L (op_argv0 opts) err]
     | Inr M0 \<Rightarrow>
        (let triple = resolve_triple (ll_triple L M0); M = ll_setTriple L M0 triple
         in case ll_lookupTarget L (op_march opts) triple of
              Inl err \<Rightarrow> fail_with [op_argv0 opts @ '': '' @ err]
            | Inr target \<Rightarrow> (case ll_createTargetMachine L target triple (op_verbose opts) of
                 None \<Rightarrow> fail_with [op_argv0 opts @ '': could not allocate target machine'']
               | Some tm \<Rightarrow> emit_module L opts tm triple M)))"

text \<open>The driver succeeds or fails with one message, and keeps output exactly on success.\<close>

lemma fail_with_simps [simp]:
  "oc_exit (fail_with msgs) = 1" "oc_errs (fail_with msgs) = msgs" "oc_kept (fail_with msgs) = None"
  by (simp_all add: fail_with_def)

lemma resolve_triple_nonempty [simp]: "resolve_triple t \<noteq> []"
  by (simp add: resolve_triple_def)

lemma driver_cases:
  obtains (failed) msg where "driver_main L opts = fail_with [msg]"
  | (success) M0 target tm pm where "ll_parseIRFile L (op_input opts) = Inr M0"
    "ll_lookupTarget L (op_march opts) (resolve_triple (ll_triple L M0)) = Inr target"
    "ll_createTargetMachine L target (resolve_triple (ll_triple L M0)) (op_verbose opts) = Some tm"
    "ll_openOutput L (op_output opts) (\<not> op_object opts) = None"
    "ll_addPasses L tm (resolve_triple (ll_triple L M0)) (op_object opts) = Some pm"
    "driver_main L opts = \<lparr>oc_exit = 0, oc_errs = [],
       oc_kept = Some (pm, ll_setDataLayout L (ll_setTriple L M0 (resolve_triple (ll_triple L M0))) tm)\<rparr>"
proof (cases "ll_parseIRFile L (op_input opts)")
  case M0: (Inr M0)
  let ?t = "resolve_triple (ll_triple L M0)"
  show ?thesis
  proof (cases "ll_lookupTarget L (op_march opts) ?t")
    case target: (Inr target)
    show ?thesis
    proof (cases "ll_createTargetMachine L target ?t (op_verbose opts)")
      case tm: (Some tm)
      have run: "driver_main L opts = emit_module L opts tm ?t (ll_setTriple L M0 ?t)"
        using M0 target tm by (simp add: driver_main_def Let_def)
      show ?thesis
      proof (cases "ll_openOutput L (op_output opts) (\<not> op_object opts)")
        case out: None
        show ?thesis
        proof (cases "ll_addPasses L tm ?t (op_object opts)")
          case (Some pm)
          then show ?thesis using success [OF M0 target tm out] run out by (simp add: emit_module_def Let_def)
        qed (use failed run out in \<open>simp add: emit_module_def Let_def\<close>)
      qed (use failed run in \<open>simp add: emit_module_def Let_def\<close>)
    qed (use failed M0 target in \<open>simp add: driver_main_def Let_def\<close>)
  qed (use failed M0 in \<open>simp add: driver_main_def Let_def\<close>)
qed (use failed in \<open>simp add: driver_main_def\<close>)

end
