(* ===== verification/Properties_Reports.thy ===== *)
theory Properties_Reports
  imports Reports Driver
begin

text \<open>
  The properties of the settings, of the reports on the error stream and of the code
  generation driver.
\<close>

section \<open>Settings\<close>

text \<open>C35.  A positive pressure budget that fits an \<open>int\<close> is read back from its decimal digits, a
  threshold only if it is a percentage; whatever the environment holds, the threshold is from 1 to
  100 and the budget positive.\<close>

theorem settings_read_back:
  assumes "0 < n" "n < 2147483648"
  shows "getPressureBudget [''SCHED_PRESSURE_BUDGET'' \<mapsto> show_nat n] = int n \<and>
    trace_threshold_pct [''SCHED_TRACE_THRESHOLD_PCT'' \<mapsto> show_nat n] = (if n \<le> 100 then int n else 60) \<and>
    1 \<le> trace_threshold_pct env \<and> trace_threshold_pct env \<le> 100 \<and> 1 \<le> getPressureBudget env"
  using assms trace_threshold_pct_range [of env] getPressureBudget_pos [of env]
  by (simp add: getPressureBudget_def trace_threshold_pct_def atoi_show_nat)

theorem settings_read_back_24:
  "getPressureBudget [''SCHED_PRESSURE_BUDGET'' \<mapsto> show_nat 24] = int 24 \<and>
    trace_threshold_pct [''SCHED_TRACE_THRESHOLD_PCT'' \<mapsto> show_nat 24] = (if 24 \<le> (100 :: nat) then int 24 else 60) \<and>
    1 \<le> trace_threshold_pct [''SCHED_TRACE_THRESHOLD_PCT'' \<mapsto> ''-3''] \<and>
    trace_threshold_pct [''SCHED_TRACE_THRESHOLD_PCT'' \<mapsto> ''-3''] \<le> 100 \<and>
    1 \<le> getPressureBudget [''SCHED_TRACE_THRESHOLD_PCT'' \<mapsto> ''-3'']"
  by (rule settings_read_back) simp_all

section \<open>Reports\<close>

text \<open>C36.  Every number of a report is read back under its own label, by splitting the line into words and a
  word into label and value, as the benchmark scripts do: the hoist counters, the peak pressure, the
  number of traces and the edge counters; and the histogram gives for each length that occurs, lengths
  ascending, the number of traces of this length.\<close>

theorem reports_complete:
  "report_number ''hoist_candidates'' (emitHoistStats True hs) = Some (int (hs_candidates hs)) \<and>
   report_number ''hoist_done'' (emitHoistStats True hs) = Some (int (hs_done hs)) \<and>
   report_number ''blocked_dominance'' (emitHoistStats True hs) = Some (int (hs_blockedDominance hs)) \<and>
   report_number ''blocked_loop'' (emitHoistStats True hs) = Some (int (hs_blockedLoop hs)) \<and>
   report_number ''blocked_operand'' (emitHoistStats True hs) = Some (int (hs_blockedOperand hs)) \<and>
   report_number ''blocked_unsafe_speculation'' (emitHoistStats True hs) = Some (int (hs_blockedUnsafe hs)) \<and>
   report_number ''blocked_pressure'' (emitHoistStats True hs) = Some (int (hs_blockedPressure hs)) \<and>
   report_number ''peak_live_pressure'' (emitPeakLivePressure True peak) = Some (int peak) \<and>
   report_number ''trace_count'' (trace_report True traces ts) = Some (int (length traces)) \<and>
   report_number ''edges_above_threshold'' (trace_report True traces ts) = Some (int (ts_above ts)) \<and>
   report_number ''edges_below_threshold'' (trace_report True traces ts) = Some (int (ts_below ts)) \<and>
   report_number ''backedges_skipped'' (trace_report True traces ts) = Some (int (ts_back ts)) \<and>
   map_option read_hist (report_value ''trace_len_hist'' (trace_report True traces ts)) =
     Some (map (\<lambda>n. (int n, int (length (filter (\<lambda>t. length t = n) traces)))) (sorted_list_of_set (length ` set traces)))"
  unfolding report_number_def report_value_def hoist_words trace_words peak_words
  by (simp add: atoi_show_nat read_show_hist len_hist_list)

section \<open>The driver\<close>

text \<open>C37.  The driver either returns 0 without a message and keeps output made from a module whose target
  triple is set, or returns 1 with one message and keeps no output.\<close>

theorem driver_outcome:
  assumes "\<And>m t. ll_triple L (ll_setTriple L m t) = t" "\<And>m tm. ll_triple L (ll_setDataLayout L m tm) = ll_triple L m"
  shows "oc_exit (driver_main L opts) = 0 \<and> oc_errs (driver_main L opts) = [] \<and>
      (\<exists>pm M. oc_kept (driver_main L opts) = Some (pm, M) \<and> ll_triple L M \<noteq> []) \<or>
    oc_exit (driver_main L opts) = 1 \<and> oc_kept (driver_main L opts) = None \<and>
      (\<exists>msg. oc_errs (driver_main L opts) = [msg])"
  by (cases rule: driver_cases [of L opts]) (simp_all add: assms)

text \<open>A library whose modules are pairs of a triple and a mark for the data layout.\<close>

definition toy_llvm :: "(string \<times> bool, string, string, string) llvm" where
  "toy_llvm = \<lparr>ll_parseIRFile = (\<lambda>f. if f = [] then Inl ''no input'' else Inr ([], False)),
     ll_printDiag = (\<lambda>name msg. name @ msg), ll_triple = fst, ll_setTriple = (\<lambda>m t. (t, snd m)),
     ll_lookupTarget = (\<lambda>march t. Inr t), ll_createTargetMachine = (\<lambda>t triple v. Some t),
     ll_setDataLayout = (\<lambda>m tm. (fst m, True)), ll_openOutput = (\<lambda>f text. None),
     ll_addPasses = (\<lambda>tm triple obj. if obj then Some tm else None)\<rparr>"

definition toy_options :: "bool \<Rightarrow> options" where
  "toy_options obj = \<lparr>op_argv0 = ''driver'', op_input = ''a.ll'', op_output = ''a.o'', op_verbose = True,
     op_march = [], op_object = obj\<rparr>"

theorem driver_outcome_toy:
  "oc_exit (driver_main toy_llvm (toy_options True)) = 0 \<and> oc_errs (driver_main toy_llvm (toy_options True)) = [] \<and>
      (\<exists>pm M. oc_kept (driver_main toy_llvm (toy_options True)) = Some (pm, M) \<and> ll_triple toy_llvm M \<noteq> []) \<or>
    oc_exit (driver_main toy_llvm (toy_options True)) = 1 \<and> oc_kept (driver_main toy_llvm (toy_options True)) = None \<and>
      (\<exists>msg. oc_errs (driver_main toy_llvm (toy_options True)) = [msg])"
  by (rule driver_outcome) (simp_all add: toy_llvm_def)

end
