(* ===== verification/Function_Semantics.thy ===== *)
theory Function_Semantics
  imports SSA Block_Semantics
begin

text \<open>
  What a whole function does, and why moving code does not change it.  A run enters a block
  from a predecessor, gives all its PHIs their values at once, executes the other
  instructions and lets the terminator choose a successor.  The meaning of instructions is a
  parameter: anchors may read and change the machine state, all others compute from their
  operands.  What can be observed of a run is the sequence of blocks, the operands of their
  terminators (conditions and return values) and the machine state after each.

  Two SSA functions whose anchors are the same, block by block, and whose other
  instructions lie in dominating blocks are shown to have the same runs.
\<close>

section \<open>Runs\<close>

record ('v, 'm) machine =
  mc_sem :: "('v, 'm) semantics"
  mc_next :: "iid \<Rightarrow> 'v list \<Rightarrow> 'm \<Rightarrow> nat option"    \<comment> \<open>which successor a terminator takes, if any\<close>
  mc_poison :: 'v                                       \<comment> \<open>a PHI without an entry for the predecessor\<close>

definition phi_value :: "('v, 'm) machine \<Rightarrow> func \<Rightarrow> (val \<Rightarrow> 'v) \<Rightarrow> bid \<Rightarrow> iid \<Rightarrow> 'v" where
  "phi_value M F env p i = (case map_of (zip (i_incoming (f_inst F i)) (operands F i)) p of
     None \<Rightarrow> mc_poison M | Some v \<Rightarrow> env v)"

definition enter_block :: "('v, 'm) machine \<Rightarrow> func \<Rightarrow> bid option \<Rightarrow> bid \<Rightarrow> (val \<Rightarrow> 'v) \<Rightarrow> (val \<Rightarrow> 'v)" where
  "enter_block M F prev b env = (case prev of None \<Rightarrow> env
     | Some p \<Rightarrow> (\<lambda>v. case v of Inst i \<Rightarrow> (if i \<in> set (f_body F b) \<and> is_phi F i then phi_value M F env p i else env v)
         | _ \<Rightarrow> env v))"

definition straight_line :: "func \<Rightarrow> bid \<Rightarrow> iid list" where
  "straight_line F b = filter (\<lambda>i. \<not> is_phi F i) (f_body F b)"

definition exec_block :: "('v, 'm) machine \<Rightarrow> func \<Rightarrow> bid option \<Rightarrow> bid \<Rightarrow> ('v, 'm) exec_state \<Rightarrow> ('v, 'm) exec_state" where
  "exec_block M F prev b s = exec_insts (mc_sem M) F (straight_line F b) (enter_block M F prev b (fst s), snd s)"

type_synonym ('v, 'm) observation = "bid \<times> 'v list \<times> 'm"

fun run_func :: "('v, 'm) machine \<Rightarrow> func \<Rightarrow> nat \<Rightarrow> bid option \<Rightarrow> bid \<Rightarrow> ('v, 'm) exec_state \<Rightarrow> ('v, 'm) observation list" where
  "run_func M F 0 prev b s = []"
| "run_func M F (Suc n) prev b s =
     (let s' = exec_block M F prev b s; t = last (f_body F b); args = map (fst s') (operands F t)
      in (b, args, snd s') # (case mc_next M t args (snd s') of None \<Rightarrow> []
           | Some k \<Rightarrow> (if k < length (f_succs F b) then run_func M F n (Some b) (f_succs F b ! k) s' else [])))"

section \<open>The equations of a block\<close>

text \<open>The machine state after some instructions, given the final values.\<close>

definition mem_after :: "('v, 'm) semantics \<Rightarrow> func \<Rightarrow> (val \<Rightarrow> 'v) \<Rightarrow> 'm \<Rightarrow> iid list \<Rightarrow> 'm" where
  "mem_after S F env = foldl (\<lambda>m i. if isSchedulingAnchor F i then snd (sem_effect S i (map env (operands F i)) m) else m)"

lemma mem_after_simps [simp]:
  "mem_after S F env m [] = m"
  "mem_after S F env m (xs @ [x]) = (if isSchedulingAnchor F x
     then snd (sem_effect S x (map env (operands F x)) (mem_after S F env m xs)) else mem_after S F env m xs)"
  by (simp_all add: mem_after_def)

lemma mem_after_filter: "mem_after S F env m (filter (isSchedulingAnchor F) xs) = mem_after S F env m xs"
  by (induction xs rule: rev_induct) auto

lemma mem_after_cong:
  "(\<And>x. x \<in> set xs \<Longrightarrow> map env (operands F x) = map env' (operands F x)) \<Longrightarrow>
   mem_after S F env m xs = mem_after S F env' m xs"
  by (induction xs rule: rev_induct) (simp_all del: map_eq_conv)

text \<open>In a list without repetitions in which definitions come before uses, the final values
  satisfy one equation per instruction.\<close>

definition defs_before :: "func \<Rightarrow> iid list \<Rightarrow> bool" where
  "defs_before F xs \<longleftrightarrow> distinct xs \<and> (\<forall>u \<in> set xs. \<forall>d \<in> set xs. Inst d \<in> set (operands F u) \<longrightarrow> precedes xs d u)"

lemma defs_before_snoc:
  assumes "defs_before F (xs @ [x])"
  shows "defs_before F xs" "x \<notin> set xs" "u \<in> set (xs @ [x]) \<Longrightarrow> Inst x \<notin> set (operands F u)"
proof -
  have d: "distinct (xs @ [x])" using assms by (simp add: defs_before_def)
  then show "x \<notin> set xs" by simp
  then show "defs_before F xs" using assms by (auto simp: defs_before_def precedes_append)
  show "Inst x \<notin> set (operands F u)" if "u \<in> set (xs @ [x])"
    using assms that d unfolding defs_before_def by (auto simp: precedes_append dest: precedes_in)
qed

definition block_equations :: "('v, 'm) semantics \<Rightarrow> func \<Rightarrow> iid list \<Rightarrow> ('v, 'm) exec_state \<Rightarrow> ('v, 'm) exec_state \<Rightarrow> bool" where
  "block_equations S F xs s s' \<longleftrightarrow> (\<forall>v. v \<notin> Inst ` set xs \<longrightarrow> fst s' v = fst s v) \<and>
     (\<forall>x \<in> set xs. \<not> isSchedulingAnchor F x \<longrightarrow> fst s' (Inst x) = sem_pure S x (map (fst s') (operands F x))) \<and>
     (\<forall>us x vs. xs = us @ x # vs \<longrightarrow> isSchedulingAnchor F x \<longrightarrow>
        fst s' (Inst x) = fst (sem_effect S x (map (fst s') (operands F x)) (mem_after S F (fst s') (snd s) us))) \<and>
     snd s' = mem_after S F (fst s') (snd s) xs"

text \<open>One more instruction: what it writes, and what it leaves alone because nothing before it
  uses its result.\<close>

lemma exec_inst_value:
  "fst (exec_inst S F s x) v = (if v = Inst x
     then (if isSchedulingAnchor F x then fst (sem_effect S x (map (fst s) (operands F x)) (snd s))
           else sem_pure S x (map (fst s) (operands F x)))
     else fst s v)"
  by (auto simp: exec_inst_def split: prod.splits)

lemma exec_inst_state:
  "snd (exec_inst S F s x) =
     (if isSchedulingAnchor F x then snd (sem_effect S x (map (fst s) (operands F x)) (snd s)) else snd s)"
  by (auto simp: exec_inst_def split: prod.splits)

lemma exec_inst_operands:
  assumes "defs_before F (xs @ [x])" "u \<in> set (xs @ [x])"
  shows "map (fst (exec_inst S F s x)) (operands F u) = map (fst s) (operands F u)"
  by (intro map_cong refl) (use defs_before_snoc(3) [OF assms] in \<open>auto simp: exec_inst_value\<close>)

lemma exec_inst_mem:
  assumes "defs_before F (xs @ [x])" "set us \<subseteq> set (xs @ [x])"
  shows "mem_after S F (fst (exec_inst S F s x)) m us = mem_after S F (fst s) m us"
  by (intro mem_after_cong exec_inst_operands [OF assms(1)]) (use assms(2) in blast)

lemma block_equations_snoc:
  assumes db: "defs_before F (xs @ [x])" and eq: "block_equations S F xs s s1"
  shows "block_equations S F (xs @ [x]) s (exec_inst S F s1 x)"
proof -
  let ?s2 = "exec_inst S F s1 x"
  note [simp del] = map_eq_conv
  note ops = exec_inst_operands [OF db] and mem = exec_inst_mem [OF db] and val = exec_inst_value
  have E: "\<And>v. v \<notin> Inst ` set xs \<Longrightarrow> fst s1 v = fst s v"
    "\<And>y. y \<in> set xs \<Longrightarrow> \<not> isSchedulingAnchor F y \<Longrightarrow> fst s1 (Inst y) = sem_pure S y (map (fst s1) (operands F y))"
    "\<And>us y vs. xs = us @ y # vs \<Longrightarrow> isSchedulingAnchor F y \<Longrightarrow>
       fst s1 (Inst y) = fst (sem_effect S y (map (fst s1) (operands F y)) (mem_after S F (fst s1) (snd s) us))"
    "snd s1 = mem_after S F (fst s1) (snd s) xs"
    using eq unfolding block_equations_def by blast+
  have "fst ?s2 v = fst s v" if "v \<notin> Inst ` set (xs @ [x])" for v
    using E(1) [of v] that by (auto simp: val)
  moreover have "fst ?s2 (Inst y) = sem_pure S y (map (fst ?s2) (operands F y))"
    if y: "y \<in> set (xs @ [x])" "\<not> isSchedulingAnchor F y" for y
    unfolding ops [OF y(1)] using y E(2) [of y] by (cases "y = x") (simp_all add: val)
  moreover have "fst ?s2 (Inst y) = fst (sem_effect S y (map (fst ?s2) (operands F y)) (mem_after S F (fst ?s2) (snd s) us))"
    if e: "xs @ [x] = us @ y # vs" and a: "isSchedulingAnchor F y" for us y vs
  proof -
    have sub: "y \<in> set (xs @ [x])" "set us \<subseteq> set (xs @ [x])" unfolding e by auto
    show ?thesis unfolding ops [OF sub(1)] mem [OF sub(2)]
    proof (cases vs rule: rev_cases)
      case Nil
      then have "us = xs" "y = x" using e by simp_all
      then show "fst ?s2 (Inst y) = fst (sem_effect S y (map (fst s1) (operands F y)) (mem_after S F (fst s1) (snd s) us))"
        using a E(4) by (simp add: val)
    next
      case (snoc vs' z)
      then have xs: "xs = us @ y # vs'" using e by simp
      then show "fst ?s2 (Inst y) = fst (sem_effect S y (map (fst s1) (operands F y)) (mem_after S F (fst s1) (snd s) us))"
        using E(3) [OF xs a] defs_before_snoc(2) [OF db] by (auto simp: val)
    qed
  qed
  moreover have "snd ?s2 = mem_after S F (fst ?s2) (snd s) (xs @ [x])"
    unfolding mem [OF subset_refl] using E(4) by (simp add: exec_inst_state)
  ultimately show ?thesis unfolding block_equations_def by blast
qed

lemma exec_equations: "defs_before F xs \<Longrightarrow> block_equations S F xs s (exec_insts S F xs s)"
proof (induction xs rule: rev_induct)
  case (snoc x xs)
  then show ?case using block_equations_snoc defs_before_snoc(1) by simp
qed (simp add: block_equations_def)

section \<open>Code motion\<close>

text \<open>\<open>G\<close> is \<open>F\<close> with instructions moved up the dominator tree.\<close>

definition code_motion :: "func \<Rightarrow> func \<Rightarrow> bool" where
  "code_motion F G \<longleftrightarrow> same_insts F G \<and> wf_func F \<and> wf_func G \<and> ssa F \<and> ssa G \<and>
     (\<forall>b \<in> set (f_blocks F). filter (isSchedulingAnchor F) (f_body G b) = filter (isSchedulingAnchor F) (f_body F b)) \<and>
     (\<forall>b \<in> set (f_blocks F). \<forall>c \<in> set (f_blocks F). \<forall>i. i \<in> set (f_body F b) \<longrightarrow> i \<in> set (f_body G c) \<longrightarrow> dominates F c b)"

lemma code_motion_facts:
  assumes "code_motion F G"
  shows "same_frame F G" "f_blocks G = f_blocks F" "dist_func F" "dist_func G" "reachable G = reachable F"
    "dominates G = dominates F" "isSchedulingAnchor G = isSchedulingAnchor F" "set (all_insts G) = set (all_insts F)"
proof -
  show fr: "same_frame F G" using assms by (simp add: code_motion_def same_insts_def)
  show "f_blocks G = f_blocks F" using fr by (simp add: same_frame_def)
  show "dist_func F" "dist_func G" using assms by (simp_all add: code_motion_def wf_dist_func)
  show "reachable G = reachable F" by (rule reachable_cfg [OF fr])
  show "dominates G = dominates F" by (rule dominates_cfg [OF fr])
  show "isSchedulingAnchor G = isSchedulingAnchor F" using fr by (intro anchor_frame) (simp add: same_frame_def)
  show "set (all_insts G) = set (all_insts F)" using assms mset_eq_setD unfolding code_motion_def same_insts_def by blast
qed

text \<open>Every instruction of \<open>F\<close> has a block in \<open>G\<close>, which dominates its block in \<open>F\<close>; an anchor is
  still in its block.\<close>

lemma moved_block:
  assumes m: "code_motion F G" and b: "b \<in> set (f_blocks F)" "i \<in> set (f_body F b)"
  obtains c where "c \<in> set (f_blocks F)" "i \<in> set (f_body G c)" "dominates F c b"
proof -
  have "i \<in> set (all_insts G)" using b code_motion_facts(8) [OF m] by (auto simp: set_insts_of)
  then obtain c where "c \<in> set (f_blocks F)" "i \<in> set (f_body G c)"
    using code_motion_facts(2) [OF m] by (auto simp: set_insts_of)
  then show thesis using that m b unfolding code_motion_def by blast
qed

lemma anchor_stays:
  assumes m: "code_motion F G" and b: "b \<in> set (f_blocks F)" and a: "isSchedulingAnchor F i"
  shows "i \<in> set (f_body G b) \<longleftrightarrow> i \<in> set (f_body F b)"
proof -
  have "filter (isSchedulingAnchor F) (f_body G b) = filter (isSchedulingAnchor F) (f_body F b)"
    using m b by (simp add: code_motion_def)
  then have "set (filter (isSchedulingAnchor F) (f_body G b)) = set (filter (isSchedulingAnchor F) (f_body F b))" by simp
  then show ?thesis using a by auto
qed

text \<open>Nothing defined above a reachable block in \<open>F\<close> is in the block in \<open>G\<close>.\<close>

lemma above_stays_above:
  assumes m: "code_motion F G" and b: "reachable F b" "b \<in> set (f_blocks F)"
    and d: "d \<in> set (f_body F c)" "c \<in> set (f_blocks F)" "dominates F c b" "c \<noteq> b"
  shows "d \<notin> set (f_body G b)"
proof
  assume "d \<in> set (f_body G b)"
  then have "dominates F b c" using m b(2) d(1,2) unfolding code_motion_def by blast
  then show False using dominates_antisym [OF d(3)] b(1) d(4) by blast
qed

text \<open>In an SSA function, the operands of what is above a reachable block are above it.\<close>

lemma operands_above:
  assumes d: "dist_func F" and s: "ssa F" and b: "reachable F b" "b \<in> set (f_blocks F)"
    and x: "x \<in> set (f_body F c)" "c \<in> set (f_blocks F)" "dominates F c b" "c \<noteq> b" "\<not> is_phi F x"
    and op: "Inst i \<in> set (operands F x)"
  shows "i \<notin> set (f_body F b)"
proof
  assume i: "i \<in> set (f_body F b)"
  have "inst_dominates F i x"
    using ssa_operand [OF s x(2) dominates_reachable [OF x(3) b(1)] x(1,5) op] .
  then obtain bd where "bd \<in> set (f_blocks F)" "i \<in> set (f_body F bd)" "dominates F bd c"
    using inst_dominatesE [OF _ d x(2,1)] by metis
  moreover then have "bd = b" using dist_same_block [OF d] b(2) i by blast
  ultimately show False
    using dominates_antisym [OF _ x(3) dominates_reachable [OF x(3) b(1)]] x(4) by blast
qed

lemma straight_defs_before:
  assumes "dist_func F" "ssa F" "b \<in> set (f_blocks F)" "reachable F b"
  shows "defs_before F (straight_line F b)"
proof -
  have db: "distinct (f_body F b)" by (rule dist_func_body [OF assms(1,3)])
  have "precedes (f_body F b) i u" if u: "u \<in> set (f_body F b)" "\<not> is_phi F u" and i: "i \<in> set (f_body F b)"
    and op: "Inst i \<in> set (operands F u)" for u i
  proof -
    obtain bd where "bd \<in> set (f_blocks F)" "i \<in> set (f_body F bd)" "bd = b \<Longrightarrow> precedes (f_body F b) i u"
      using inst_dominatesE [OF ssa_operand [OF assms(2,3,4) u op] assms(1,3) u(1)] by metis
    moreover then have "bd = b" using dist_same_block [OF assms(1) _ assms(3) _ i] by blast
    ultimately show ?thesis by blast
  qed
  then show ?thesis using db by (auto simp: defs_before_def straight_line_def precedes_filter)
qed

section \<open>Lockstep\<close>

text \<open>The values that are defined before block \<open>b\<close> is entered, and when it is left.\<close>

definition defined_above :: "func \<Rightarrow> bid \<Rightarrow> val \<Rightarrow> bool" where
  "defined_above F b v \<longleftrightarrow> (\<forall>i. v = Inst i \<longrightarrow> (\<exists>c \<in> set (f_blocks F). i \<in> set (f_body F c) \<and> dominates F c b \<and> c \<noteq> b))"

definition defined_by :: "func \<Rightarrow> bid \<Rightarrow> val \<Rightarrow> bool" where
  "defined_by F b v \<longleftrightarrow> (\<forall>i. v = Inst i \<longrightarrow> (\<exists>c \<in> set (f_blocks F). i \<in> set (f_body F c) \<and> dominates F c b))"

text \<open>The values of instructions that are no anchors are those of their operands: for those in
  blocks above \<open>b\<close> when it is entered, for those up to \<open>b\<close> when it is left.\<close>

definition solved :: "('v, 'm) semantics \<Rightarrow> func \<Rightarrow> (bid \<Rightarrow> bool) \<Rightarrow> (val \<Rightarrow> 'v) \<Rightarrow> bool" where
  "solved S G at env \<longleftrightarrow> (\<forall>c \<in> set (f_blocks G). \<forall>x \<in> set (f_body G c). at c \<longrightarrow> \<not> isSchedulingAnchor G x \<longrightarrow>
     env (Inst x) = sem_pure S x (map env (operands G x)))"

lemma defined_above_moved:
  assumes m: "code_motion F G" and b: "reachable F b" "b \<in> set (f_blocks F)" and "defined_above F b v"
  shows "v \<notin> Inst ` set (f_body F b)" "v \<notin> Inst ` set (f_body G b)"
  using assms(4) above_stays_above [OF m b] dist_same_block [OF code_motion_facts(3) [OF m] _ b(2)]
  by (auto simp: defined_above_def)

text \<open>Values above \<open>b\<close> are not touched by \<open>b\<close>, so solved equations stay solved.\<close>

lemma solved_above:
  assumes d: "dist_func G" and s: "ssa G" and b: "reachable G b" "b \<in> set (f_blocks G)"
    and sol: "solved S G (\<lambda>c. dominates G c b \<and> c \<noteq> b) env"
    and same: "\<And>v. v \<notin> Inst ` set (f_body G b) \<Longrightarrow> env' v = env v"
  shows "solved S G (\<lambda>c. dominates G c b \<and> c \<noteq> b) env'"
  unfolding solved_def
proof (intro ballI impI)
  fix c x assume c: "c \<in> set (f_blocks G)" "x \<in> set (f_body G c)" "dominates G c b \<and> c \<noteq> b" and a: "\<not> isSchedulingAnchor G x"
  have "\<not> is_phi G x" using a by (simp add: isSchedulingAnchor_def)
  then have "v \<notin> Inst ` set (f_body G b)" if "v \<in> set (operands G x)" for v
    using operands_above [OF d s b c(2,1)] c(3) that by auto
  then have "map env' (operands G x) = map env (operands G x)" using same by (intro map_cong) auto
  moreover have "x \<notin> set (f_body G b)" using dist_same_block [OF d c(1) b(2) c(2)] c(3) by blast
  then have "env' (Inst x) = env (Inst x)" using same by blast
  ultimately show "env' (Inst x) = sem_pure S x (map env' (operands G x))"
    using sol c a unfolding solved_def by (simp del: map_eq_conv)
qed

lemma filter_anchor_split:
  assumes "filter P ys = filter P ps @ x # rest" "P x" "distinct ys"
  obtains us vs where "ys = us @ x # vs" "filter P us = filter P ps"
proof -
  have "x \<in> set ys" using assms(1,2) by (metis filter_set in_set_conv_decomp mem_Collect_eq set_filter)
  then obtain us vs where ys: "ys = us @ x # vs" by (auto simp: in_set_conv_decomp)
  then have "filter P us @ x # filter P vs = filter P ps @ x # rest" using assms(1,2) by simp
  moreover have "x \<notin> set (filter P us)" "x \<notin> set (filter P vs)" using ys assms(3) by auto
  moreover have "x \<notin> set (filter P ps)"
    using assms calculation by (metis append_Cons_eq_iff distinct_append distinct_filter not_distinct_conv_prefix)
  ultimately have "filter P us = filter P ps" by (metis append_Cons_eq_iff)
  then show thesis using that ys by blast
qed

text \<open>An operand of an instruction of \<open>b\<close> is defined above \<open>b\<close>, by a PHI of \<open>b\<close>, or earlier in \<open>b\<close>.\<close>

lemma operand_cases:
  assumes d: "dist_func F" and s: "ssa F" and b: "reachable F b" "b \<in> set (f_blocks F)"
    and xs: "straight_line F b = ps @ x # qs" and v: "v \<in> set (operands F x)"
  shows "defined_above F b v \<or> (\<exists>i. v = Inst i \<and> i \<in> set (f_body F b) \<and> is_phi F i) \<or> (\<exists>i \<in> set ps. v = Inst i)"
proof (cases "\<exists>i. v = Inst i \<and> i \<in> set (f_body F b)")
  case True
  then obtain i where i: "v = Inst i" "i \<in> set (f_body F b)" by blast
  note db = straight_defs_before [OF d s b(2,1)]
  have "i \<in> set ps" if "\<not> is_phi F i"
  proof -
    have "i \<in> set (straight_line F b)" using i that by (simp add: straight_line_def)
    moreover have "x \<in> set (straight_line F b)" using xs by simp
    ultimately have "precedes (straight_line F b) i x" using db v i(1) unfolding defs_before_def by blast
    moreover have "distinct (straight_line F b)" using db by (simp add: defs_before_def)
    ultimately have "precedes (ps @ x # qs) i x" "distinct (ps @ x # qs)" using xs by metis+
    then show ?thesis by (auto simp: precedes_append dest: precedes_in)
  qed
  then show ?thesis using i by blast
next
  case False
  have "x \<in> set (straight_line F b)" using xs by simp
  then have x: "x \<in> set (f_body F b)" "\<not> is_phi F x" by (auto simp: straight_line_def)
  have "\<exists>c \<in> set (f_blocks F). i \<in> set (f_body F c) \<and> dominates F c b \<and> c \<noteq> b" if vi: "v = Inst i" for i
  proof -
    obtain bd where "bd \<in> set (f_blocks F)" "i \<in> set (f_body F bd)" "dominates F bd b"
      using inst_dominatesE [OF ssa_operand [OF s b(2,1) x] d b(2) x(1)] v vi by metis
    then show ?thesis using False vi by blast
  qed
  then show ?thesis by (simp add: defined_above_def)
qed

text \<open>Two lists of equations with the same anchors, of which the second has, for every other
  instruction of the first, its equation: if they agree on the operands from outside, they agree
  on all instructions of the first and on the machine state.\<close>

lemma equations_agree:
  assumes EF: "block_equations S F xs (envF, mm) (E, M)" and EG: "block_equations S F ys (envG, mm) (E', M')"
    and anchors: "filter (isSchedulingAnchor F) ys = filter (isSchedulingAnchor F) xs" and dys: "distinct ys"
    and pure: "\<And>x. x \<in> set xs \<Longrightarrow> \<not> isSchedulingAnchor F x \<Longrightarrow> E' (Inst x) = sem_pure S x (map E' (operands F x))"
    and ops: "\<And>ps x qs v. xs = ps @ x # qs \<Longrightarrow> v \<in> set (operands F x) \<Longrightarrow> E' v = E v \<or> (\<exists>i \<in> set ps. v = Inst i)"
  shows "(\<forall>x \<in> set xs. E' (Inst x) = E (Inst x)) \<and> M' = M"
proof -
  let ?A = "isSchedulingAnchor F" and ?mem = "mem_after S F"
  have "(\<forall>j \<in> set ps. E' (Inst j) = E (Inst j)) \<and> ?mem E' mm ps = ?mem E mm ps" if "xs = ps @ qs" for ps qs
    using that
  proof (induction ps arbitrary: qs rule: rev_induct)
    case (snoc x ps)
    have xs: "xs = ps @ x # qs" using snoc.prems by simp
    note IH = snoc.IH [OF xs]
    have args: "map E' (operands F x) = map E (operands F x)" using ops [OF xs] IH by (intro map_cong) auto
    show ?case
    proof (cases "?A x")
      case True
      then have "filter ?A ys = filter ?A ps @ x # filter ?A qs" using anchors xs by simp
      from filter_anchor_split [OF this True dys] obtain us vs where ys: "ys = us @ x # vs" "filter ?A us = filter ?A ps" .
      have "?mem E' mm us = ?mem E mm ps"
        using IH ys(2) mem_after_filter [of S F E' mm us] mem_after_filter [of S F E' mm ps] by simp
      moreover have "E' (Inst x) = fst (sem_effect S x (map E' (operands F x)) (?mem E' mm us))"
        using EG ys(1) True unfolding block_equations_def fst_conv snd_conv by blast
      moreover have "E (Inst x) = fst (sem_effect S x (map E (operands F x)) (?mem E mm ps))"
        using EF xs True unfolding block_equations_def fst_conv snd_conv by blast
      ultimately show ?thesis using IH args True by (simp del: map_eq_conv)
    next
      case False
      then have "E (Inst x) = sem_pure S x (map E (operands F x))" using EF xs unfolding block_equations_def fst_conv by auto
      moreover have "E' (Inst x) = sem_pure S x (map E' (operands F x))" using pure [of x] xs False by simp
      ultimately show ?thesis using IH args False by (simp del: map_eq_conv)
    qed
  qed simp
  note all = this [of xs "[]", simplified]
  have "M' = ?mem E' mm ys" "M = ?mem E mm xs" using EF EG by (simp_all add: block_equations_def)
  then have "M' = M" using all mem_after_filter [of S F E' mm ys] mem_after_filter [of S F E' mm xs] anchors by simp
  then show ?thesis using all by blast
qed

lemma block_equations_frame:
  assumes "same_frame F G" shows "block_equations S G = block_equations S F"
proof -
  have a: "isSchedulingAnchor G = isSchedulingAnchor F" using assms by (intro anchor_frame) (simp add: same_frame_def)
  note q = same_frame_queries [OF assms]
  have "mem_after S G = mem_after S F" by (intro ext) (simp only: mem_after_def a q)
  then show ?thesis by (intro ext) (simp only: block_equations_def a q)
qed

text \<open>The final values of a block solve its equations, in addition to those above it.\<close>

lemma solved_block:
  assumes d: "dist_func G" and s: "ssa G" and b: "reachable G b" "b \<in> set (f_blocks G)"
    and sol: "solved S G (\<lambda>c. dominates G c b \<and> c \<noteq> b) env"
    and eq: "block_equations S G (straight_line G b) (env, m) (E, M)"
  shows "solved S G (\<lambda>c. dominates G c b) E"
proof -
  have "E v = env v" if "v \<notin> Inst ` set (f_body G b)" for v
    using eq that by (auto simp: block_equations_def straight_line_def)
  then have above: "solved S G (\<lambda>c. dominates G c b \<and> c \<noteq> b) E" by (rule solved_above [OF d s b sol])
  have "E (Inst x) = sem_pure S x (map E (operands G x))" if x: "x \<in> set (f_body G b)" "\<not> isSchedulingAnchor G x" for x
  proof -
    have "x \<in> set (straight_line G b)" using x by (auto simp: straight_line_def isSchedulingAnchor_def)
    then show ?thesis using eq x(2) unfolding block_equations_def fst_conv by blast
  qed
  then show ?thesis using above unfolding solved_def by metis
qed

lemma straight_line_anchors:
  assumes "same_frame F G" "filter (isSchedulingAnchor F) (f_body G b) = filter (isSchedulingAnchor F) (f_body F b)"
  shows "filter (isSchedulingAnchor F) (straight_line G b) = filter (isSchedulingAnchor F) (straight_line F b)"
proof -
  have "filter (\<lambda>i. \<not> is_phi F i) (filter (isSchedulingAnchor F) (f_body G b)) =
      filter (\<lambda>i. \<not> is_phi F i) (filter (isSchedulingAnchor F) (f_body F b))" using assms(2) by simp
  then show ?thesis by (simp add: straight_line_def same_frame_queries [OF assms(1)] conj_commute)
qed

lemma block_lockstep:
  assumes m: "code_motion F G" and b: "reachable F b" "b \<in> set (f_blocks F)"
    and above: "\<And>v. defined_above F b v \<Longrightarrow> envG v = envF v"
    and phis: "\<And>i. i \<in> set (f_body F b) \<Longrightarrow> is_phi F i \<Longrightarrow> envG (Inst i) = envF (Inst i)"
    and sol: "solved S G (\<lambda>c. dominates F c b \<and> c \<noteq> b) envG"
    and EF: "block_equations S F (straight_line F b) (envF, mm) (E, M)"
    and EG: "block_equations S G (straight_line G b) (envG, mm) (E', M')"
  shows "M' = M \<and> (\<forall>v. defined_by F b v \<longrightarrow> E' v = E v) \<and> solved S G (\<lambda>c. dominates F c b) E'"
proof -
  note facts = code_motion_facts [OF m]
  note q = same_frame_queries [OF facts(1)]
  let ?xs = "straight_line F b" and ?ys = "straight_line G b" and ?A = "isSchedulingAnchor F"
  have sets: "set ?xs = {i \<in> set (f_body F b). \<not> is_phi F i}" "set ?ys = {i \<in> set (f_body G b). \<not> is_phi F i}"
    by (auto simp: straight_line_def q)
  have bG: "reachable G b" "b \<in> set (f_blocks G)" and ssa: "ssa F" "ssa G"
    using b facts(2,5) m by (simp_all add: code_motion_def)
  have above': "E' v = E v" if "defined_above F b v" for v
  proof -
    have "E v = envF v" "E' v = envG v"
      using EF EG sets defined_above_moved [OF m b that] by (auto simp: block_equations_def)
    then show ?thesis using above [OF that] by simp
  qed
  have phi: "E' (Inst i) = E (Inst i)" if "i \<in> set (f_body F b)" "is_phi F i" for i
  proof -
    have "Inst i \<notin> Inst ` set ?xs" "Inst i \<notin> Inst ` set ?ys" using that sets by auto
    then have "E (Inst i) = envF (Inst i)" "E' (Inst i) = envG (Inst i)" using EF EG unfolding block_equations_def by auto
    then show ?thesis using phis [OF that] by simp
  qed
  have sol': "solved S G (\<lambda>c. dominates F c b) E'"
    using solved_block [OF facts(4) ssa(2) bG _ EG] sol unfolding facts(6) .
  have agree: "(\<forall>x \<in> set ?xs. E' (Inst x) = E (Inst x)) \<and> M' = M"
  proof (rule equations_agree [OF EF])
    show "block_equations S F ?ys (envG, mm) (E', M')" using EG unfolding block_equations_frame [OF facts(1), of S] .
    show "filter ?A ?ys = filter ?A ?xs"
      by (rule straight_line_anchors [OF facts(1)]) (use m b(2) in \<open>simp add: code_motion_def\<close>)
    show "distinct ?ys" using dist_func_body [OF facts(4) bG(2)] by (simp add: straight_line_def)
    show "E' (Inst x) = sem_pure S x (map E' (operands F x))" if x: "x \<in> set ?xs" "\<not> ?A x" for x
    proof -
      obtain c where "c \<in> set (f_blocks F)" "x \<in> set (f_body G c)" "dominates F c b"
        using moved_block [OF m b(2)] x(1) sets(1) by blast
      then show ?thesis using sol' x(2) unfolding solved_def facts(2,7) q by blast
    qed
    show "E' v = E v \<or> (\<exists>i \<in> set ps. v = Inst i)" if "?xs = ps @ x # qs" "v \<in> set (operands F x)" for ps x qs v
      using operand_cases [OF facts(3) ssa(1) b that] above' phi by blast
  qed
  have "E' v = E v" if "defined_by F b v" for v
  proof (cases "\<exists>d. v = Inst d \<and> d \<in> set (f_body F b)")
    case False
    then have "defined_above F b v" using that unfolding defined_by_def defined_above_def by metis
    then show ?thesis by (rule above')
  qed (use agree phi sets(1) in auto)
  then show ?thesis using sol' agree by blast
qed

section \<open>Whole runs\<close>

text \<open>The values at the end of a block carry over the edge to the next.\<close>

lemma enter_lockstep:
  fixes M :: "('v, 'm) machine"
  assumes m: "code_motion F G" and p: "reachable F p" "cfg_edge F p b" "b \<in> set (f_blocks F)"
    and agree: "\<And>v. defined_by F p v \<Longrightarrow> envG v = envF v"
    and sol: "solved (mc_sem M) G (\<lambda>c. dominates F c p) envG"
  defines "enF \<equiv> enter_block M F (Some p) b envF" and "enG \<equiv> enter_block M G (Some p) b envG"
  shows "defined_above F b v \<Longrightarrow> enG v = enF v"
    "i \<in> set (f_body F b) \<Longrightarrow> is_phi F i \<Longrightarrow> enG (Inst i) = enF (Inst i)"
    "solved (mc_sem M) G (\<lambda>c. dominates F c b \<and> c \<noteq> b) enG"
proof -
  note facts = code_motion_facts [OF m]
  note q = same_frame_queries [OF facts(1)]
  have b: "reachable F b" by (rule reachable_step [OF p(1,2)])
  have bG: "b \<in> set (f_blocks G)" "reachable G b" and ssa: "ssa F" "ssa G"
    using b p(3) facts(2,5) m by (simp_all add: code_motion_def)
  have phiG: "i \<in> set (f_body G b) \<longleftrightarrow> i \<in> set (f_body F b)" if "is_phi F i" for i
    using anchor_stays [OF m p(3)] that by (simp add: isSchedulingAnchor_def)
  have same: "enF v = envF v" if "v \<notin> Inst ` set (f_body F b)" for v
    using that by (auto simp: enF_def enter_block_def split: val.splits)
  have sameG: "enG v = envG v" if "v \<notin> Inst ` set (f_body G b)" for v
    using that by (auto simp: enG_def enter_block_def split: val.splits)
  show "enG v = enF v" if v: "defined_above F b v"
  proof -
    have "defined_by F p v"
      using v dominates_pred [OF _ _ p(2)] unfolding defined_above_def defined_by_def by blast
    then show ?thesis using agree same [of v] sameG [of v] defined_above_moved [OF m b p(3) v] by simp
  qed
  show "enG (Inst i) = enF (Inst i)" if i: "i \<in> set (f_body F b)" "is_phi F i"
  proof (cases "map_of (zip (i_incoming (f_inst F i)) (operands F i)) p")
    case None
    then show ?thesis using i phiG [OF i(2)] facts(1)
      by (simp add: enF_def enG_def enter_block_def phi_value_def q same_frame_def)
  next
    case (Some v)
    have "(v, p) \<in> set (zip (operands F i) (i_incoming (f_inst F i)))"
      using map_of_SomeD [OF Some] by (auto simp: in_set_zip)
    then have "defined_by F p v"
      using ssa p(3) b i unfolding ssa_def ssa_use_def defined_by_def by fastforce
    then show ?thesis using Some i phiG [OF i(2)] facts(1) agree
      by (simp add: enF_def enG_def enter_block_def phi_value_def q same_frame_def)
  qed
  have "solved (mc_sem M) G (\<lambda>c. dominates F c b \<and> c \<noteq> b) envG"
    using sol dominates_pred [OF _ _ p(2)] unfolding solved_def by blast
  then show "solved (mc_sem M) G (\<lambda>c. dominates F c b \<and> c \<noteq> b) enG"
    using solved_above [OF facts(4) ssa(2) bG(2,1), unfolded facts(6)] sameG by blast
qed

text \<open>The last instruction of a block is the same anchor in both functions.\<close>

lemma last_anchor: "xs \<noteq> [] \<Longrightarrow> P (last xs) \<Longrightarrow> last (filter P xs) = last xs"
  by (induction xs rule: rev_induct) auto

lemma same_terminator:
  assumes m: "code_motion F G" and b: "b \<in> set (f_blocks F)"
  shows "last (f_body G b) = last (f_body F b)" "last (f_body F b) \<in> set (f_body F b)" "is_term F (last (f_body F b))"
proof -
  note q = same_frame_queries [OF code_motion_facts(1) [OF m]] 
  have t: "f_body F b \<noteq> []" "is_term F (last (f_body F b))" "f_body G b \<noteq> []" "is_term F (last (f_body G b))"
    using m b code_motion_facts(2) [OF m] wf_block_last [of F b] wf_block_last [of G b] q
    by (auto simp: code_motion_def wf_func_def)
  then have "last (filter (isSchedulingAnchor F) (f_body F b)) = last (f_body F b)"
    "last (filter (isSchedulingAnchor F) (f_body G b)) = last (f_body G b)"
    by (auto intro!: last_anchor simp: isSchedulingAnchor_def)
  then show "last (f_body G b) = last (f_body F b)" using m b by (simp add: code_motion_def)
  show "last (f_body F b) \<in> set (f_body F b)" "is_term F (last (f_body F b))" using t by simp_all
qed

text \<open>Executing one block from related states.\<close>

lemma exec_block_lockstep:
  fixes M :: "('v, 'm) machine"
  assumes m: "code_motion F G" and b: "reachable F b" "b \<in> set (f_blocks F)" and mem: "snd sG = snd sF"
    and above: "\<And>v. defined_above F b v \<Longrightarrow> enter_block M G prev b (fst sG) v = enter_block M F prev b (fst sF) v"
    and phis: "\<And>i. i \<in> set (f_body F b) \<Longrightarrow> is_phi F i \<Longrightarrow>
      enter_block M G prev b (fst sG) (Inst i) = enter_block M F prev b (fst sF) (Inst i)"
    and sol: "solved (mc_sem M) G (\<lambda>c. dominates F c b \<and> c \<noteq> b) (enter_block M G prev b (fst sG))"
  shows "snd (exec_block M G prev b sG) = snd (exec_block M F prev b sF)"
    "defined_by F b v \<Longrightarrow> fst (exec_block M G prev b sG) v = fst (exec_block M F prev b sF) v"
    "solved (mc_sem M) G (\<lambda>c. dominates F c b) (fst (exec_block M G prev b sG))"
proof -
  note facts = code_motion_facts [OF m]
  have bG: "b \<in> set (f_blocks G)" "reachable G b" and ssa: "ssa F" "ssa G"
    using b facts(2,5) m by (simp_all add: code_motion_def)
  have "block_equations (mc_sem M) F (straight_line F b) (enter_block M F prev b (fst sF), snd sF) (exec_block M F prev b sF)"
    unfolding exec_block_def by (rule exec_equations [OF straight_defs_before [OF facts(3) ssa(1) b(2,1)]])
  moreover have "block_equations (mc_sem M) G (straight_line G b) (enter_block M G prev b (fst sG), snd sF) (exec_block M G prev b sG)"
    unfolding exec_block_def mem by (rule exec_equations [OF straight_defs_before [OF facts(4) ssa(2) bG]])
  ultimately have "snd (exec_block M G prev b sG) = snd (exec_block M F prev b sF) \<and>
      (\<forall>v. defined_by F b v \<longrightarrow> fst (exec_block M G prev b sG) v = fst (exec_block M F prev b sF) v) \<and>
      solved (mc_sem M) G (\<lambda>c. dominates F c b) (fst (exec_block M G prev b sG))"
    using block_lockstep [OF m b above phis sol] by (metis prod.collapse)
  then show "snd (exec_block M G prev b sG) = snd (exec_block M F prev b sF)"
    "defined_by F b v \<Longrightarrow> fst (exec_block M G prev b sG) v = fst (exec_block M F prev b sF) v"
    "solved (mc_sem M) G (\<lambda>c. dominates F c b) (fst (exec_block M G prev b sG))" by simp_all
qed

lemma terminator_operands:
  assumes m: "code_motion F G" and b: "reachable F b" "b \<in> set (f_blocks F)"
    and v: "v \<in> set (operands F (last (f_body F b)))"
  shows "defined_by F b v"
  unfolding defined_by_def
proof (intro allI impI)
  fix i assume i: "v = Inst i"
  note t = same_terminator(2,3) [OF m b(2)]
  have "ssa F" "dist_func F" using m code_motion_facts(3) [OF m] by (simp_all add: code_motion_def)
  moreover have "wf_block F b" using m b(2) by (simp add: code_motion_def wf_func_def)
  then have "\<not> is_phi F (last (f_body F b))" using t unfolding wf_block_def by blast
  ultimately show "\<exists>c \<in> set (f_blocks F). i \<in> set (f_body F c) \<and> dominates F c b"
    using inst_dominatesE [OF ssa_operand [OF _ b(2,1) t(1)] _ b(2) t(1)] v i by metis
qed

lemma run_lockstep:
  fixes M :: "('v, 'm) machine"
  assumes m: "code_motion F G" and b: "reachable F b" "b \<in> set (f_blocks F)" and mem: "snd sG = snd sF"
    and above: "\<And>v. defined_above F b v \<Longrightarrow> enter_block M G prev b (fst sG) v = enter_block M F prev b (fst sF) v"
    and phis: "\<And>i. i \<in> set (f_body F b) \<Longrightarrow> is_phi F i \<Longrightarrow>
      enter_block M G prev b (fst sG) (Inst i) = enter_block M F prev b (fst sF) (Inst i)"
    and sol: "solved (mc_sem M) G (\<lambda>c. dominates F c b \<and> c \<noteq> b) (enter_block M G prev b (fst sG))"
  shows "run_func M G n prev b sG = run_func M F n prev b sF"
  using b mem above phis sol
proof (induction n arbitrary: prev b sF sG)
  case (Suc n)
  note facts = code_motion_facts [OF m]
  let ?F = "exec_block M F prev b sF" and ?G = "exec_block M G prev b sG" and ?t = "last (f_body F b)"
  note eqs = exec_block_lockstep [OF m Suc.prems]
  have t: "last (f_body G b) = ?t" by (rule same_terminator(1) [OF m Suc.prems(2)])
  have op: "operands G = operands F" and su: "f_succs G = f_succs F"
    using same_frame_queries(4) [OF facts(1)] facts(1) by (simp_all add: same_frame_def)
  have args: "map (fst ?G) (operands F ?t) = map (fst ?F) (operands F ?t)"
    using eqs(2) terminator_operands [OF m Suc.prems(1,2)] by (intro map_cong) auto
  have next_run: "run_func M G n (Some b) c ?G = run_func M F n (Some b) c ?F" if "c \<in> set (f_succs F b)" for c
  proof -
    have e: "cfg_edge F b c" and c: "c \<in> set (f_blocks F)"
      using that m Suc.prems(2) wf_succs by (auto simp: cfg_edge_def code_motion_def)
    note en = enter_lockstep [OF m Suc.prems(1) e c eqs(2,3)]
    show ?thesis by (rule Suc.IH [OF reachable_step [OF Suc.prems(1) e] c eqs(1) en])
  qed
  obtain as mm where am: "map (fst ?F) (operands F ?t) = as" "snd ?F = mm" by blast
  then have mG: "snd ?G = mm" using eqs(1) by simp
  have unfold: "run_func M F (Suc n) prev b sF = (b, as, mm) # (case mc_next M ?t as mm of None \<Rightarrow> []
      | Some k \<Rightarrow> if k < length (f_succs F b) then run_func M F n (Some b) (f_succs F b ! k) ?F else [])"
    "run_func M G (Suc n) prev b sG = (b, as, mm) # (case mc_next M ?t as mm of None \<Rightarrow> []
      | Some k \<Rightarrow> if k < length (f_succs F b) then run_func M G n (Some b) (f_succs F b ! k) ?G else [])"
    unfolding run_func.simps Let_def t op su args eqs(1) am mG by (rule refl)+
  show ?case
  proof (cases "mc_next M ?t as mm")
    case (Some k)
    then show ?thesis unfolding unfold using next_run [OF nth_mem, of k] by simp
  qed (simp only: unfold option.case)
qed simp

text \<open>The main result: the two functions have the same runs.\<close>

lemma code_motion_runs:
  assumes m: "code_motion F G"
  shows "run_func M G n None (entry_block F) s = run_func M F n None (entry_block F) s"
proof (rule run_lockstep [OF m])
  show "entry_block F \<in> set (f_blocks F)" using m by (auto simp: code_motion_def)
  have "c = entry_block F" if "dominates F c (entry_block F)" for c
    using that entry_path_entry [of F] unfolding dominates_def by fastforce
  then show "solved (mc_sem M) G (\<lambda>c. dominates F c (entry_block F) \<and> c \<noteq> entry_block F)
      (enter_block M G None (entry_block F) (fst s))"
    by (auto simp: solved_def)
qed (simp_all add: enter_block_def)

end
