(* ===== verification/Pass_Semantics.thy ===== *)
theory Pass_Semantics
  imports Function_Semantics Scheduler_Pass
begin

text \<open>
  The passes as code movers: an interface that promises code motion gives the equality of
  runs once, and both passes are shown to provide it.
\<close>

locale code_mover =
  fixes admissible :: "'p \<Rightarrow> func \<Rightarrow> bool" and move :: "'p \<Rightarrow> func \<Rightarrow> (func \<times> counters) option"
  assumes moves: "admissible p F \<Longrightarrow> \<exists>G ct'. move p F = Some (G, ct') \<and> code_motion F G"
begin

lemma total: "admissible p F \<Longrightarrow> move p F \<noteq> None"
  using moves by fastforce

lemma same_runs:
  assumes "admissible p F" "move p F = Some (G, ct')"
  shows "run_func M G n None (entry_block G) s = run_func M F n None (entry_block F) s"
proof -
  have m: "code_motion F G" using moves [OF assms(1)] assms(2) by auto
  then have "entry_block G = entry_block F" using code_motion_facts(2) by simp
  then show ?thesis using code_motion_runs [OF m] by simp
qed

lemma keeps_shape: "admissible p F \<Longrightarrow> move p F = Some (G, ct') \<Longrightarrow> same_insts F G \<and> wf_func G \<and> ssa G"
  using moves by (fastforce simp: code_motion_def)

end

lemma global_inv_motion:
  assumes "wf_func F" "ssa F" "dom_sound an F" "global_inv an traces [] F G"
  shows "code_motion F G"
proof -
  have "dominates F c b" if "b \<in> set (f_blocks F)" "c \<in> set (f_blocks F)" "i \<in> set (f_body F b)" "i \<in> set (f_body G c)" for b c i
    using assms(3,4) that unfolding global_inv_def legal_position_def dom_sound_def by (metis dominates_refl)
  then show ?thesis using assms by (simp add: code_motion_def global_inv_def)
qed

lemma local_inv_motion:
  assumes wf: "wf_func F" and s: "ssa F" and G: "same_insts F G" "wf_func G" "local_inv S F G"
  shows "code_motion F G"
proof -
  have v: "block_view G = block_view F" using G(3) by (simp add: local_inv_def)
  have a: "isSchedulingAnchor G = isSchedulingAnchor F"
    using G(1) by (intro anchor_frame) (simp add: same_insts_def same_frame_def)
  have "filter (isSchedulingAnchor F) (f_body G b) = filter (isSchedulingAnchor F) (f_body F b)" for b
    using fun_cong [OF v, of b] a by (simp add: block_view_def)
  moreover have "dominates F c b" if "b \<in> set (f_blocks F)" "c \<in> set (f_blocks F)" "i \<in> set (f_body F b)" "i \<in> set (f_body G c)" for b c i
  proof -
    have "i \<in> set (f_body F c)" using that(4) block_view_set [OF v] by blast
    then show ?thesis using dist_same_block [OF wf_dist_func [OF wf]] that by fastforce
  qed
  ultimately show ?thesis using assms by (simp add: code_motion_def local_inv_def)
qed

definition sound_for :: "pass_env \<Rightarrow> func \<Rightarrow> bool" where
  "sound_for env F \<longleftrightarrow> wf_func F \<and> ssa F \<and> dom_sound (pe_an env) F"

interpretation globalpass: code_mover "\<lambda>(env, usePressure :: bool, ct :: counters) F. sound_for env F"
  "\<lambda>(env, usePressure, ct) F. globalSchedulerPass_run env usePressure F ct"
proof
  fix p F assume a: "(case p of (env, usePressure :: bool, ct :: counters) \<Rightarrow> \<lambda>F. sound_for env F) F"
  obtain env usePressure ct where p: "p = (env, usePressure, ct)" by (metis prod_cases3)
  then have s: "wf_func F" "ssa F" "dom_sound (pe_an env) F" using a by (simp_all add: sound_for_def)
  obtain G ct' traces tst where "globalSchedulerPass_run env usePressure F ct = Some (G, ct')" "global_inv (pe_an env) traces [] F G"
    by (rule globalSchedulerPass_result [OF s(1,3)])
  then show "\<exists>G ct'. (case p of (env, usePressure, ct) \<Rightarrow> \<lambda>F. globalSchedulerPass_run env usePressure F ct) F = Some (G, ct') \<and>
      code_motion F G"
    using global_inv_motion [OF s] p by auto
qed

interpretation localpass: code_mover "\<lambda>(env :: pass_env, ct :: counters) F. wf_func F \<and> ssa F" "\<lambda>(env, ct) F. localSchedulerPass_run env F ct"
proof
  fix p F assume a: "(case p of (env :: pass_env, ct :: counters) \<Rightarrow> \<lambda>F. wf_func F \<and> ssa F) F"
  obtain env ct where p: "p = (env, ct)" by (cases p)
  then have s: "wf_func F" "ssa F" using a by simp_all
  obtain lv where lv: "computeLiveness F = Some lv" by (rule computeLiveness_result [OF s(1)])
  obtain G peak where G: "runLocalScheduler \<lparr>lc_index = buildValueIndex (universe F), lc_live = lv,
      lc_stats = schedStatsEnabled (pe_environ env)\<rparr> F 0 = Some (G, peak)" "same_insts F G" "wf_func G"
      "local_inv \<lparr>sem_pure = \<lambda>i vs. (), sem_effect = \<lambda>i vs m. ((), ())\<rparr> F G"
    by (rule runLocalScheduler_keeps [OF s(1)])
  then show "\<exists>G ct'. (case p of (env, ct) \<Rightarrow> \<lambda>F. localSchedulerPass_run env F ct) F = Some (G, ct') \<and> code_motion F G"
    using lv local_inv_motion [OF s G(2-4)] p by (simp add: localSchedulerPass_run_def)
qed

text \<open>Any pass of the plugin.\<close>

interpretation anypass: code_mover "\<lambda>(env, k :: pass_kind, ct :: counters) F. sound_for env F"
  "\<lambda>(env, k, ct) F. run_pass env k F ct"
proof
  fix p F assume a: "(case p of (env, k :: pass_kind, ct :: counters) \<Rightarrow> \<lambda>F. sound_for env F) F"
  obtain env k ct where p: "p = (env, k, ct)" by (metis prod_cases3)
  then have s: "sound_for env F" using a by simp
  show "\<exists>G ct'. (case p of (env, k, ct) \<Rightarrow> \<lambda>F. run_pass env k F ct) F = Some (G, ct') \<and> code_motion F G"
    using globalpass.moves [of "(env, _, ct)" F] localpass.moves [of "(env, ct)" F] s p
    by (cases k) (simp_all add: run_pass_def sound_for_def)
qed

lemma run_pass_motion:
  assumes "sound_for env F"
  obtains G ct' where "run_pass env k F ct = Some (G, ct')" "code_motion F G"
    "\<And>n s. run_func M G n None (entry_block G) s = run_func M F n None (entry_block F) s"
proof -
  have ok: "(case (env, k, ct) of (env, k, ct) \<Rightarrow> \<lambda>F. sound_for env F) F" using assms by simp
  obtain G ct' where "run_pass env k F ct = Some (G, ct')" "code_motion F G" using anypass.moves [OF ok] by auto
  then show thesis using that anypass.same_runs [OF ok, of G ct' M] by simp
qed

end
