(* ===== verification/Pipeline.thy ===== *)
theory Pipeline
  imports Pass_Semantics
begin

text \<open>
  The plugin's entry point, \<open>llvmGetPassPluginInfo\<close> of \<open>src/schedulerPass.cpp\<close>, and what its
  passes do one after the other.  LLVM's pass manager is a parameter: a type \<open>'fpm\<close> and its
  \<open>addPass\<close>.  How LLVM runs the passes it holds is not modelled; the lemmas speak of any
  sequence of runs, each with analyses that are sound for the code it is given, as both \<open>run\<close>
  methods demand by returning \<open>PreservedAnalyses::none()\<close>.
\<close>

section \<open>Registration\<close>

record ('fpm) plugin_info =
  pi_api :: nat                \<comment> \<open>\<open>LLVM_PLUGIN_API_VERSION\<close>\<close>
  pi_name :: string
  pi_version :: string
  pi_callback :: "string \<Rightarrow> 'fpm \<Rightarrow> bool \<times> 'fpm"

definition parsing_callback :: "('fpm \<Rightarrow> pass_kind \<Rightarrow> 'fpm) \<Rightarrow> string \<Rightarrow> 'fpm \<Rightarrow> bool \<times> 'fpm" where
  "parsing_callback addPass name fpm =
     (case parse_pass name of None \<Rightarrow> (False, fpm) | Some k \<Rightarrow> (True, addPass fpm k))"

definition llvmGetPassPluginInfo :: "('fpm \<Rightarrow> pass_kind \<Rightarrow> 'fpm) \<Rightarrow> nat \<Rightarrow> 'fpm plugin_info" where
  "llvmGetPassPluginInfo addPass api = \<lparr>pi_api = api, pi_name = ''UnifiedPass'', pi_version = ''v1'',
     pi_callback = parsing_callback addPass\<rparr>"

text \<open>What \<open>run\<close> writes to the standard output; \<open>name\<close> is the function as \<open>printAsOperand\<close> prints it.\<close>

definition globalSchedulerPass_outs :: "bool \<Rightarrow> string \<Rightarrow> string" where
  "globalSchedulerPass_outs usePressure name = ''globalSchedulerPass running on: '' @ name @
     '' | Register Pressure: '' @ (if usePressure then ''enabled'' else ''disabled'') @ [CHR 0x0A] @ [CHR 0x0A]"

definition localSchedulerPass_outs :: "string \<Rightarrow> string" where
  "localSchedulerPass_outs name = ''localSchedulerPass running on: '' @ name @ [CHR 0x0A] @ [CHR 0x0A]"

definition pass_outs :: "pass_kind \<Rightarrow> string \<Rightarrow> string" where
  "pass_outs k name = (case k of GlobalPass p \<Rightarrow> globalSchedulerPass_outs p name | LocalPass \<Rightarrow> localSchedulerPass_outs name)"

text \<open>The banner tells which pass runs.\<close>

lemma pass_outs_inj: "pass_outs k name = pass_outs k' name \<longleftrightarrow> k = k'"
  by (cases k; cases k') (auto simp: pass_outs_def globalSchedulerPass_outs_def localSchedulerPass_outs_def)

text \<open>The names that are accepted, and what each stands for.\<close>

definition pass_table :: "(string \<times> pass_kind) list" where
  "pass_table = [(''localSchedulerPass'', LocalPass), (''globalSchedulerPass'', GlobalPass True),
     (''globalSchedulerPassNoPressure'', GlobalPass False)]"

lemma parse_pass_table: "parse_pass name = Some k \<longleftrightarrow> (name, k) \<in> set pass_table"
  by (auto simp: parse_pass_def pass_table_def)

lemma callback_table:
  "pi_callback (llvmGetPassPluginInfo addPass api) name fpm = (True, fpm') \<longleftrightarrow>
     (\<exists>k. (name, k) \<in> set pass_table \<and> fpm' = addPass fpm k)"
  "pi_callback (llvmGetPassPluginInfo addPass api) name fpm = (False, fpm') \<longleftrightarrow>
     name \<notin> fst ` set pass_table \<and> fpm' = fpm"
  using parse_pass_table [of name]
  by (cases "parse_pass name"; force simp: llvmGetPassPluginInfo_def parsing_callback_def)+

section \<open>Sequences of runs\<close>

inductive pass_runs :: "func \<Rightarrow> func \<Rightarrow> bool" for F where
  no_pass: "pass_runs F F"
| one_more: "pass_runs F G \<Longrightarrow> dom_sound (pe_an env) G \<Longrightarrow> run_pass env k G ct = Some (H, ct') \<Longrightarrow> pass_runs F H"

text \<open>Every run keeps the assumptions of the next one.\<close>

lemma pass_runs_motion:
  assumes "pass_runs F G" "wf_func F" "ssa F"
  shows "wf_func G \<and> ssa G \<and> same_insts F G \<and>
    (\<forall>n s. run_func M G n None (entry_block G) s = run_func M F n None (entry_block F) s)"
  using assms(1)
proof (induction rule: pass_runs.induct)
  case (one_more G env k ct H ct')
  then have "sound_for env G" by (simp add: sound_for_def)
  from run_pass_motion [OF this, of k ct M] obtain H1 ct1 where H1: "run_pass env k G ct = Some (H1, ct1)" "code_motion G H1"
    "\<And>n s. run_func M H1 n None (entry_block H1) s = run_func M G n None (entry_block G) s"
    by metis
  moreover have "H1 = H" using H1(1) one_more.hyps(3) by simp
  ultimately show ?case using one_more.IH same_insts_trans by (auto simp: code_motion_def)
qed (use assms(2,3) in simp)

end
