(* ===== verification/Pass_Reports.thy ===== *)
theory Pass_Reports
  imports Scheduler_Pass Reports
begin

text \<open>
  The error stream of a whole pass of \<open>src/schedulerPass.cpp\<close>, and the proof that collecting
  statistics (\<open>SCHED_STATS\<close>) only adds to it: neither the traces nor the schedules nor the
  code that is produced depend on the setting or on the counters.
\<close>

section \<open>The stream\<close>

text \<open>The line groups in the order in which the pass writes them.\<close>

definition globalSchedulerPass_errs :: "pass_env \<Rightarrow> bool \<Rightarrow> func \<Rightarrow> counters \<Rightarrow> string option" where
  "globalSchedulerPass_errs env usePressure F ct =
     (let statsOn = schedStatsEnabled (pe_environ env)
      in case identifyTraces F (pe_prob env) (pe_freq env) (getTraceThreshold (pe_mkprob env) (pe_environ env))
               statsOn (ct_trace ct) of
           None \<Rightarrow> None
         | Some (traces, tst) \<Rightarrow> (case globalSchedulerPass_run env usePressure F ct of None \<Rightarrow> None
             | Some (G, ct') \<Rightarrow> Some (trace_report statsOn traces tst @ emitHoistStats statsOn (ct_hoist ct') @
                 emitPeakLivePressure statsOn (ct_peak ct'))))"

definition localSchedulerPass_errs :: "pass_env \<Rightarrow> func \<Rightarrow> counters \<Rightarrow> string option" where
  "localSchedulerPass_errs env F ct = (case localSchedulerPass_run env F ct of None \<Rightarrow> None
     | Some (G, ct') \<Rightarrow> Some (emitPeakLivePressure (schedStatsEnabled (pe_environ env)) (ct_peak ct')))"

definition pass_errs :: "pass_env \<Rightarrow> pass_kind \<Rightarrow> func \<Rightarrow> counters \<Rightarrow> string option" where
  "pass_errs env k F ct = (case k of GlobalPass p \<Rightarrow> globalSchedulerPass_errs env p F ct
     | LocalPass \<Rightarrow> localSchedulerPass_errs env F ct)"

text \<open>With statistics off the stream stays empty.\<close>

lemma globalSchedulerPass_silent:
  assumes "\<not> schedStatsEnabled (pe_environ env)"
  shows "globalSchedulerPass_errs env p F ct = map_option (\<lambda>_. []) (globalSchedulerPass_run env p F ct)"
proof (cases "globalSchedulerPass_run env p F ct")
  case None
  then show ?thesis by (simp add: globalSchedulerPass_errs_def Let_def split: option.split)
next
  case (Some r)
  then have "identifyTraces F (pe_prob env) (pe_freq env) (getTraceThreshold (pe_mkprob env) (pe_environ env))
      (schedStatsEnabled (pe_environ env)) (ct_trace ct) \<noteq> None"
    unfolding globalSchedulerPass_run_def by (auto split: option.splits)
  then show ?thesis using Some assms
    by (auto simp: globalSchedulerPass_errs_def trace_report_def emitHoistStats_def emitPeakLivePressure_def)
qed

lemma localSchedulerPass_silent:
  assumes "\<not> schedStatsEnabled (pe_environ env)"
  shows "localSchedulerPass_errs env F ct = map_option (\<lambda>_. []) (localSchedulerPass_run env F ct)"
  using assms by (auto simp: localSchedulerPass_errs_def emitPeakLivePressure_def split: option.split)

section \<open>Traces do not depend on statistics\<close>

text \<open>The decision part of the search for the best edge.\<close>

lemma edge_step_decision:
  fixes c :: trace_ctx
  shows "(case edge_step (c\<lparr>tc_stats := on\<rparr>) V prob bk (best, p, st) n of (b, q, _) \<Rightarrow> (b, q)) =
    (case edge_step c V prob bk (best, p, st') n of (b, q, _) \<Rightarrow> (b, q))"
  by (simp add: edge_step_def Let_def)

lemma edge_fold_decision:
  fixes c :: trace_ctx
  shows "fst (foldl (edge_step (c\<lparr>tc_stats := on\<rparr>) V prob bk) (best, p, st) ns) =
    fst (foldl (edge_step c V prob bk) (best, p, st') ns)"
proof (induction ns arbitrary: best p st st')
  case (Cons n ns)
  obtain b q s where 1: "edge_step (c\<lparr>tc_stats := on\<rparr>) V prob bk (best, p, st) n = (b, q, s)" by (metis prod_cases3)
  obtain b' q' s' where 2: "edge_step c V prob bk (best, p, st') n = (b', q', s')" by (metis prod_cases3)
  have "b' = b \<and> q' = q"
    using edge_step_decision [where c = c and on = on and V = V and prob = prob and bk = bk and best = best and p = p
        and st = st and st' = st' and n = n] by (simp add: 1 2)
  then show ?case using Cons.IH [of b q s s'] by (simp add: 1 2)
qed simp

lemma best_edge_stats:
  fixes c :: trace_ctx
  shows "fst (bestSuccessor (c\<lparr>tc_stats := on\<rparr>) b V st) = fst (bestSuccessor c b V st')"
    and "fst (bestPredecessor (c\<lparr>tc_stats := on\<rparr>) b V st) = fst (bestPredecessor c b V st')"
proof -
  have fst_case: "fst (case x of (b, q, s) \<Rightarrow> (b, s)) = fst x" for x :: edge_state by (simp split: prod.split)
  show "fst (bestSuccessor (c\<lparr>tc_stats := on\<rparr>) b V st) = fst (bestSuccessor c b V st')"
    "fst (bestPredecessor (c\<lparr>tc_stats := on\<rparr>) b V st) = fst (bestPredecessor c b V st')"
    unfolding bestSuccessor_def bestPredecessor_def fst_case by (simp_all add: edge_fold_decision)
qed

text \<open>If a loop returns with one setting, it returns the same blocks with any other.\<close>

type_synonym grown = "bid list \<times> bid set \<times> trace_stats"

definition same_blocks :: "grown option \<Rightarrow> grown \<Rightarrow> bool" where
  "same_blocks x r \<longleftrightarrow> (\<exists>s. x = Some (fst r, fst (snd r), s))"

lemma grow_forward_stats:
  "grow_forward c b tr V st = Some r \<Longrightarrow> \<forall>on st'. same_blocks (grow_forward (c\<lparr>tc_stats := on\<rparr>) b tr V st') r"
proof (rule grow_forward.raw_induct [where P = "\<lambda>c b tr V st r. \<forall>on st'. same_blocks (grow_forward (c\<lparr>tc_stats := on\<rparr>) b tr V st') r"], goal_cases)
  case (1 gf c b tr V st r)
  show ?case
  proof (intro allI)
    fix on st'
    obtain n s where n: "bestSuccessor c b V st = (n, s)" by force
    obtain s' where n': "bestSuccessor (c\<lparr>tc_stats := on\<rparr>) b V st' = (n, s')"
      using best_edge_stats(1) [of on c b V st' st] n by (metis eq_fst_iff fst_conv)
    show "same_blocks (grow_forward (c\<lparr>tc_stats := on\<rparr>) b tr V st') r"
    proof (cases n)
      case None
      then show ?thesis using 1(3) n n' by (subst grow_forward.simps) (auto simp: same_blocks_def)
    next
      case (Some m)
      then have "same_blocks (grow_forward (c\<lparr>tc_stats := on\<rparr>) m (tr @ [m]) (insert m V) s') r"
        using 1(2,3) n by simp
      then show ?thesis using Some n' by (subst grow_forward.simps) simp
    qed
  qed
qed

lemma grow_backward_stats:
  "grow_backward c b tr V st = Some r \<Longrightarrow> \<forall>on st'. same_blocks (grow_backward (c\<lparr>tc_stats := on\<rparr>) b tr V st') r"
proof (rule grow_backward.raw_induct [where P = "\<lambda>c b tr V st r. \<forall>on st'. same_blocks (grow_backward (c\<lparr>tc_stats := on\<rparr>) b tr V st') r"], goal_cases)
  case (1 gb c b tr V st r)
  show ?case
  proof (intro allI)
    fix on st'
    obtain n s where n: "bestPredecessor c b V st = (n, s)" by force
    obtain s' where n': "bestPredecessor (c\<lparr>tc_stats := on\<rparr>) b V st' = (n, s')"
      using best_edge_stats(2) [of on c b V st' st] n by (metis eq_fst_iff fst_conv)
    show "same_blocks (grow_backward (c\<lparr>tc_stats := on\<rparr>) b tr V st') r"
    proof (cases n)
      case None
      then show ?thesis using 1(3) n n' by (subst grow_backward.simps) (auto simp: same_blocks_def)
    next
      case (Some m)
      then have "same_blocks (grow_backward (c\<lparr>tc_stats := on\<rparr>) m (m # tr) (insert m V) s') r"
        using 1(2,3) n by simp
      then show ?thesis using Some n' by (subst grow_backward.simps) simp
    qed
  qed
qed

lemma grow_trace_stats:
  assumes "grow_trace c seed V st = Some (t, U, s)"
  obtains s' where "grow_trace (c\<lparr>tc_stats := on\<rparr>) seed V st' = Some (t, U, s')"
proof -
  obtain t1 U1 s1 where 1: "grow_forward c seed [seed] (insert seed V) st = Some (t1, U1, s1)"
    "grow_backward c seed t1 U1 s1 = Some (t, U, s)"
    using assms by (auto simp: grow_trace_def split: option.splits)
  obtain s2 where 2: "grow_forward (c\<lparr>tc_stats := on\<rparr>) seed [seed] (insert seed V) st' = Some (t1, U1, s2)"
    using grow_forward_stats [OF 1(1)] by (auto simp: same_blocks_def)
  show thesis using grow_backward_stats [OF 1(2)] 2 that by (auto simp: grow_trace_def same_blocks_def)
qed

lemma trace_loop_stats:
  "trace_loop c bs k V ts st = Some r \<Longrightarrow>
   \<forall>on st'. map_option fst (trace_loop (c\<lparr>tc_stats := on\<rparr>) bs k V ts st') = Some (fst r)"
proof (rule trace_loop.raw_induct [where P = "\<lambda>c bs k V ts st r. \<forall>on st'. map_option fst (trace_loop (c\<lparr>tc_stats := on\<rparr>) bs k V ts st') = Some (fst r)"], goal_cases)
  case (1 tl c bs k V ts st r)
  show ?case
  proof (intro allI)
    fix on st'
    let ?k = "advance bs V k" and ?c = "c\<lparr>tc_stats := on\<rparr>"
    have seed: "seed_at ?c bs ?k = seed_at c bs ?k" by (simp add: seed_at_def)
    show "map_option fst (trace_loop ?c bs k V ts st') = Some (fst r)"
    proof (cases "seed_at c bs ?k")
      case None
      then show ?thesis using 1(3) by (subst trace_loop.simps) (auto simp: Let_def seed)
    next
      case (Some b)
      then obtain t U s where t: "grow_trace c b V st = Some (t, U, s)" "tl c bs ?k U (ts @ [t]) s = Some r"
        using 1(3) by (auto simp: Let_def split: option.splits)
      obtain s' where "grow_trace ?c b V st' = Some (t, U, s')" by (rule grow_trace_stats [OF t(1)])
      moreover have "map_option fst (trace_loop ?c bs ?k U (ts @ [t]) s') = Some (fst r)" using 1(2) [OF t(2)] by blast
      ultimately show ?thesis using Some by (subst trace_loop.simps) (simp add: Let_def seed)
    qed
  qed
qed

lemma identifyTraces_stats:
  "map_option fst (identifyTraces F prob freq th on st) = map_option fst (identifyTraces F prob freq th on' st')"
proof (cases "bfs_indexed F")
  case (Some oi)
  obtain order ix where oi: "oi = (order, ix)" by (cases oi)
  define c where "c = (\<lambda>on. \<lparr>tc_func = F, tc_prob = prob, tc_freq = freq, tc_threshold = th, tc_stats = on, tc_index = ix\<rparr>)"
  let ?loop = "\<lambda>on st. trace_loop (c on) (byFreqDesc freq order) 0 {} [] st"
  have id: "identifyTraces F prob freq th on st = ?loop on (if on then trace_stats0 else st)" for on st
    unfolding identifyTraces_def Some oi c_def by simp
  have step: "map_option fst (?loop on2 s2) = Some (fst r)" if "?loop on1 s1 = Some r" for on1 on2 s1 s2 r
  proof -
    have "(c on1)\<lparr>tc_stats := on2\<rparr> = c on2" by (simp add: c_def)
    then show ?thesis using trace_loop_stats [OF that] by metis
  qed
  have "map_option fst (?loop on1 s1) = map_option fst (?loop on2 s2)" for on1 on2 s1 s2
    using step [of on1 s1 _ on2 s2] step [of on2 s2 _ on1 s1] by (cases "?loop on1 s1"; cases "?loop on2 s2") auto
  then show ?thesis unfolding id .
qed (simp add: identifyTraces_def)

section \<open>Schedules do not depend on statistics\<close>

lemma sched_step_stats:
  "\<exists>pk'. sched_step (c\<lparr>sc_stats := on\<rparr>) (st\<lparr>ss_peak := pk\<rparr>) b = (sched_step c st b)\<lparr>ss_peak := pk'\<rparr>"
  by (simp add: sched_step_def Let_def)

lemma sched_loop_stats:
  "sched_loop c st = Some r \<Longrightarrow> \<forall>on pk. \<exists>pk'. sched_loop (c\<lparr>sc_stats := on\<rparr>) (st\<lparr>ss_peak := pk\<rparr>) = Some (r\<lparr>ss_peak := pk'\<rparr>)"
proof (rule sched_loop.raw_induct [where P = "\<lambda>c st r. \<forall>on pk. \<exists>pk'. sched_loop (c\<lparr>sc_stats := on\<rparr>) (st\<lparr>ss_peak := pk\<rparr>) = Some (r\<lparr>ss_peak := pk'\<rparr>)"], goal_cases)
  case (1 sl c st r)
  show ?case
  proof (intro allI)
    fix on pk
    let ?pick = "pickBest (sc_func c) (ss_ddg st) (ss_queue st) (ss_live st) (sc_index c) (sc_live c) (sc_pressure c)"
    show "\<exists>pk'. sched_loop (c\<lparr>sc_stats := on\<rparr>) (st\<lparr>ss_peak := pk\<rparr>) = Some (r\<lparr>ss_peak := pk'\<rparr>)"
    proof (cases "ss_queue st = []")
      case True
      then have "r = st" using 1(3) by simp
      then show ?thesis using True by (subst sched_loop.simps) auto
    next
      case False
      then obtain b where b: "?pick = Some b" "sl c (sched_step c st b) = Some r"
        using 1(3) by (auto split: option.splits)
      obtain pk1 where "sched_step (c\<lparr>sc_stats := on\<rparr>) (st\<lparr>ss_peak := pk\<rparr>) b = (sched_step c st b)\<lparr>ss_peak := pk1\<rparr>"
        using sched_step_stats by blast
      moreover have "\<exists>pk'. sched_loop (c\<lparr>sc_stats := on\<rparr>) ((sched_step c st b)\<lparr>ss_peak := pk1\<rparr>) = Some (r\<lparr>ss_peak := pk'\<rparr>)"
        using 1(2) [OF b(2)] by blast
      ultimately show ?thesis using False b(1) by (subst sched_loop.simps) simp
    qed
  qed
qed

lemma listSchedule_stats:
  "map_option ss_schedule (listSchedule (c\<lparr>sc_stats := on\<rparr>) g live pk) = map_option ss_schedule (listSchedule c g live pk')"
proof -
  define c' where "c' = c\<lparr>sc_stats := on\<rparr>"
  have init: "sched_init c' g live pk = (sched_init c g live pk')\<lparr>ss_peak := note_peak on live pk\<rparr>"
    "sched_init c g live pk' = (sched_init c' g live pk)\<lparr>ss_peak := note_peak (sc_stats c) live pk'\<rparr>"
    by (simp_all add: sched_init_def Let_def c'_def)
  have ctx: "c'\<lparr>sc_stats := sc_stats c\<rparr> = c" by (simp add: c'_def)
  have "map_option ss_schedule (listSchedule c' g live pk) = Some (ss_schedule r)" if r: "listSchedule c g live pk' = Some r" for r
  proof -
    have "\<exists>pk2. sched_loop c' (sched_init c' g live pk) = Some (r\<lparr>ss_peak := pk2\<rparr>)"
      using sched_loop_stats [OF r [unfolded listSchedule_def]] unfolding init(1) unfolding c'_def by blast
    then obtain pk2 where "listSchedule c' g live pk = Some (r\<lparr>ss_peak := pk2\<rparr>)"
      unfolding listSchedule_def by blast
    then show ?thesis by simp
  qed
  moreover have "map_option ss_schedule (listSchedule c g live pk') = Some (ss_schedule r)" if r: "listSchedule c' g live pk = Some r" for r
  proof -
    have "\<exists>pk2. sched_loop (c'\<lparr>sc_stats := sc_stats c\<rparr>) (sched_init c g live pk') = Some (r\<lparr>ss_peak := pk2\<rparr>)"
      using sched_loop_stats [OF r [unfolded listSchedule_def]] unfolding init(2) by blast
    then obtain pk2 where "listSchedule c g live pk' = Some (r\<lparr>ss_peak := pk2\<rparr>)"
      unfolding listSchedule_def ctx by blast
    then show ?thesis by simp
  qed
  ultimately show ?thesis unfolding c'_def [symmetric]
    by (cases "listSchedule c' g live pk"; cases "listSchedule c g live pk'") auto
qed

section \<open>Code does not depend on statistics\<close>

lemma applySchedule_stats:
  "fst (applySchedule (c\<lparr>hc_stats := on\<rparr>) schedule F st) = fst (applySchedule c schedule F st')"
proof -
  let ?s = "\<lambda>st. (phase1 schedule (hc_trace c) F, dyn_init (hc_live c) (hc_trace c), st)"
  obtain G d s where 1: "phase2 c (original_block F (hc_trace c)) schedule (?s st') = (G, d, s)" by (metis prod_cases3)
  obtain G' d' s' where 2: "phase2 (c\<lparr>hc_stats := on\<rparr>) (original_block F (hc_trace c)) schedule (?s st) = (G', d', s')"
    by (metis prod_cases3)
  show ?thesis using phase2_stats [OF 1 2] 1 2 by (simp add: applySchedule_def)
qed

text \<open>Two results that agree on the code.\<close>

lemma same_fst:
  assumes "map_option fst x = map_option fst y"
  obtains "x = None" "y = None" | a b c where "x = Some (a, b)" "y = Some (a, c)"
  using assms by (cases x; cases y) auto

lemma local_block_stats:
  "map_option fst (local_block (lc\<lparr>lc_stats := on\<rparr>) F b pk) = map_option fst (local_block lc F b pk')"
proof -
  define c where "c = \<lparr>sc_func = F, sc_index = lc_index lc, sc_live = lc_live lc, sc_pressure = True, sc_stats = lc_stats lc\<rparr>"
  let ?g = "computeCriticalPath (buildLocalDDG F b)" and ?live = "l_in (live_at (lc_live lc) b)"
  have "map_option fst (local_block lc F b pk) = map_option (\<lambda>s. applyLocalSchedule s F b)
      (map_option ss_schedule (listSchedule \<lparr>sc_func = F, sc_index = lc_index lc, sc_live = lc_live lc,
         sc_pressure = True, sc_stats = lc_stats lc\<rparr> ?g (l_in (live_at (lc_live lc) b)) pk))" for lc pk
    by (simp add: local_block_def Let_def split: option.split)
  note this [of lc pk'] this [of "lc\<lparr>lc_stats := on\<rparr>" pk]
  moreover have "map_option ss_schedule (listSchedule (c\<lparr>sc_stats := on\<rparr>) ?g ?live pk) = map_option ss_schedule (listSchedule c ?g ?live pk')"
    by (rule listSchedule_stats)
  ultimately show ?thesis by (simp add: c_def)
qed

lemma local_blocks_stats:
  "map_option fst (local_blocks (lc\<lparr>lc_stats := on\<rparr>) F pk bs) = map_option fst (local_blocks lc F pk' bs)"
proof (induction bs arbitrary: F pk pk')
  case (Cons b bs)
  show ?case using Cons.IH local_block_stats [of on lc F b pk pk'] by (auto split: option.splits)
qed simp

lemma schedule_trace_stats:
  assumes "gc' = gc\<lparr>gc_env := (gc_env gc)\<lparr>pe_environ := e\<rparr>\<rparr>" "getPressureBudget e = getPressureBudget (pe_environ (gc_env gc))"
  shows "map_option fst (schedule_trace gc' (F, x) td) = map_option fst (schedule_trace gc (F, y) td)"
proof -
  obtain tr g hs pk hs' pk' where v: "td = (tr, g)" "x = (hs, pk)" "y = (hs', pk')" by (metis surj_pair)
  let ?live = "l_in (live_at (gc_live gc) (tr ! 0))"
  have ctx: "hoist_ctx_of gc' tr = (hoist_ctx_of gc tr)\<lparr>hc_stats := schedStatsEnabled e\<rparr>"
    "sched_ctx_of gc' F = (sched_ctx_of gc F)\<lparr>sc_stats := schedStatsEnabled e\<rparr>" "gc_live gc' = gc_live gc"
    using assms by (simp_all add: hoist_ctx_of_def sched_ctx_of_def)
  have "map_option fst (schedule_trace gc (F, hs, pk) (tr, g)) =
      map_option (\<lambda>s. fst (applySchedule (hoist_ctx_of gc tr) s F hs))
        (map_option ss_schedule (listSchedule (sched_ctx_of gc F) g (l_in (live_at (gc_live gc) (tr ! 0))) pk))" for gc hs pk
    by (simp add: schedule_trace_def Let_def split: option.split prod.split)
  note this [of gc hs' pk'] this [of gc' hs pk]
  moreover have "map_option ss_schedule (listSchedule (sched_ctx_of gc' F) g ?live pk) = map_option ss_schedule (listSchedule (sched_ctx_of gc F) g ?live pk')"
    unfolding ctx by (rule listSchedule_stats)
  moreover have "fst (applySchedule (hoist_ctx_of gc' tr) s F hs) = fst (applySchedule (hoist_ctx_of gc tr) s F hs')" for s
    unfolding ctx by (rule applySchedule_stats)
  ultimately show ?thesis by (simp only: v ctx(3))
qed

lemma schedule_traces_stats:
  assumes "gc' = gc\<lparr>gc_env := (gc_env gc)\<lparr>pe_environ := e\<rparr>\<rparr>" "getPressureBudget e = getPressureBudget (pe_environ (gc_env gc))"
  shows "map_option fst (schedule_traces gc' (F, x) tds) = map_option fst (schedule_traces gc (F, y) tds)"
proof (induction tds arbitrary: F x y)
  case (Cons td tds)
  show ?case using Cons.IH schedule_trace_stats [OF assms, of F x td y] by (auto split: option.splits)
qed simp

text \<open>The code that the passes produce, without their counters.\<close>

lemma globalSchedulerPass_code:
  "map_option fst (globalSchedulerPass_run env p F ct) =
     (case computeLiveness F of None \<Rightarrow> None | Some lv \<Rightarrow> (case computeReaching F of None \<Rightarrow> None | Some rd \<Rightarrow>
       (case map_option fst (identifyTraces F (pe_prob env) (pe_freq env) (getTraceThreshold (pe_mkprob env) (pe_environ env))
               (schedStatsEnabled (pe_environ env)) (ct_trace ct)) of None \<Rightarrow> None
        | Some traces \<Rightarrow> map_option fst (schedule_traces \<lparr>gc_env = env, gc_index = buildValueIndex (universe F),
             gc_live = lv, gc_pressure = p\<rparr> (F, resetHoistStats, 0) (zip traces (map computeCriticalPath (buildDDG F traces)))))))"
  by (simp add: globalSchedulerPass_run_def Let_def split: option.split)

lemma localSchedulerPass_code:
  "map_option fst (localSchedulerPass_run env F ct) = (case computeLiveness F of None \<Rightarrow> None
     | Some lv \<Rightarrow> map_option fst (local_blocks \<lparr>lc_index = buildValueIndex (universe F), lc_live = lv,
         lc_stats = schedStatsEnabled (pe_environ env)\<rparr> F 0 (f_blocks F)))"
  by (simp add: localSchedulerPass_run_def runLocalScheduler_def split: option.split)

text \<open>All that the passes read of the environment besides \<open>SCHED_STATS\<close>.\<close>

definition same_settings :: "environment \<Rightarrow> environment \<Rightarrow> bool" where
  "same_settings e e' \<longleftrightarrow> trace_threshold_pct e' = trace_threshold_pct e \<and> getPressureBudget e' = getPressureBudget e"

lemma run_pass_stats:
  assumes s: "same_settings e e'"
  shows "map_option fst (run_pass (env\<lparr>pe_environ := e'\<rparr>) k F ct') = map_option fst (run_pass (env\<lparr>pe_environ := e\<rparr>) k F ct)"
proof (cases k)
  case (GlobalPass p)
  let ?gc = "\<lambda>e lv. \<lparr>gc_env = env\<lparr>pe_environ := e\<rparr>, gc_index = buildValueIndex (universe F), gc_live = lv, gc_pressure = p\<rparr>"
  have th: "getTraceThreshold (pe_mkprob env) e' = getTraceThreshold (pe_mkprob env) e"
    using s by (simp add: getTraceThreshold_def same_settings_def)
  have tr: "map_option fst (identifyTraces F (pe_prob env) (pe_freq env) (getTraceThreshold (pe_mkprob env) e)
        (schedStatsEnabled e') (ct_trace ct')) =
      map_option fst (identifyTraces F (pe_prob env) (pe_freq env) (getTraceThreshold (pe_mkprob env) e)
        (schedStatsEnabled e) (ct_trace ct))" by (rule identifyTraces_stats)
  have sched: "map_option fst (schedule_traces (?gc e' lv) (F, x) tds) = map_option fst (schedule_traces (?gc e lv) (F, x) tds)" for lv x tds
    by (rule schedule_traces_stats [where e = e']) (use s in \<open>simp_all add: same_settings_def\<close>)
  show ?thesis
    by (simp add: GlobalPass run_pass_def globalSchedulerPass_code th tr sched cong: option.case_cong)
next
  case LocalPass
  have "map_option fst (local_blocks \<lparr>lc_index = ix, lc_live = lv, lc_stats = on\<rparr> F 0 bs) =
      map_option fst (local_blocks \<lparr>lc_index = ix, lc_live = lv, lc_stats = on'\<rparr> F 0 bs)" for ix lv on on' bs
    using local_blocks_stats [of on "\<lparr>lc_index = ix, lc_live = lv, lc_stats = on'\<rparr>"] by simp
  then show ?thesis
    by (simp add: LocalPass run_pass_def localSchedulerPass_code cong: option.case_cong) metis
qed

end
