(* ===== verification/Counter_Bounds.thy ===== *)
theory Counter_Bounds
  imports Scheduler_Pass Pressure "HOL-Library.Word"
begin

text \<open>
  The counters behind \<open>SCHED_STATS\<close> are \<open>unsigned\<close> in the code and natural numbers in the model.
  The lemmas bound them by sizes of the function: a search looks at every edge slot of the CFG at
  most once forwards and once backwards, a schedule lists every instruction at most once, and the
  live sets have one bit per value.  So a counter wraps only if one of these sizes does.
\<close>

section \<open>Trace identification\<close>

definition looked :: "trace_stats \<Rightarrow> nat" where
  "looked st = ts_above st + ts_below st"

definition edge_slots :: "func \<Rightarrow> bid list \<Rightarrow> nat" where
  "edge_slots F bs = sum_list (map (\<lambda>b. length (f_succs F b) + length (f_preds F b)) bs)"

text \<open>\<open>n\<close> more edges were looked at, and back edges are still some of those above the threshold.\<close>

definition stats_grow :: "nat \<Rightarrow> trace_stats \<Rightarrow> trace_stats \<Rightarrow> bool" where
  "stats_grow n st st' \<longleftrightarrow> looked st' \<le> looked st + n \<and> (ts_back st \<le> ts_above st \<longrightarrow> ts_back st' \<le> ts_above st')"

lemma stats_grow_trans: "stats_grow m s s' \<Longrightarrow> stats_grow n s' s'' \<Longrightarrow> m + n \<le> k \<Longrightarrow> stats_grow k s s''"
  by (auto simp: stats_grow_def)

lemma stats_grow_refl: "stats_grow n s s"
  by (simp add: stats_grow_def)

lemma edge_counts_grow: "stats_grow (length ns) st (edge_counts c visited prob bk ns st)"
proof -
  have "length (filter (\<lambda>n. n \<notin> visited \<and> tc_threshold c < prob n) ns) +
      length (filter (\<lambda>n. n \<notin> visited \<and> prob n \<le> tc_threshold c) ns) \<le> length ns"
    "length (filter (\<lambda>n. n \<notin> visited \<and> tc_threshold c < prob n \<and> bk n) ns) \<le>
      length (filter (\<lambda>n. n \<notin> visited \<and> tc_threshold c < prob n) ns)"
    by (induction ns) auto
  then show ?thesis by (auto simp: stats_grow_def looked_def edge_counts_def)
qed

lemma bestSuccessor_grow: "bestSuccessor c b visited st = (r, st') \<Longrightarrow> stats_grow (length (f_succs (tc_func c) b)) st st'"
  using edge_search [OF bestSuccessor_def] edge_counts_grow by (metis snd_conv)

lemma bestPredecessor_grow: "bestPredecessor c b visited st = (r, st') \<Longrightarrow> stats_grow (length (f_preds (tc_func c) b)) st st'"
  using edge_search [OF bestPredecessor_def] edge_counts_grow by (metis snd_conv)

lemma grow_forward_counts:
  "grow_forward c cur tr visited st = Some r \<Longrightarrow> (\<exists>ext. fst r = tr @ ext \<and>
     stats_grow (sum_list (map (\<lambda>b. length (f_succs (tc_func c) b)) (cur # ext))) st (snd (snd r)))"
proof (rule grow_forward.raw_induct [where P = "\<lambda>c cur tr visited st r. \<exists>ext. fst r = tr @ ext \<and>
     stats_grow (sum_list (map (\<lambda>b. length (f_succs (tc_func c) b)) (cur # ext))) st (snd (snd r))"], goal_cases)
  case (1 gf c cur tr visited st r)
  obtain best st1 where best: "bestSuccessor c cur visited st = (best, st1)" by force
  note g = bestSuccessor_grow [OF best]
  show ?case
  proof (cases best)
    case None
    then have "r = (tr, visited, st1)" using 1(3) best by simp
    then show ?thesis using g by (intro exI [of _ "[]"]) simp
  next
    case (Some n)
    then have "gf c n (tr @ [n]) (insert n visited) st1 = Some r" using 1(3) best by simp
    then obtain ext where "fst r = (tr @ [n]) @ ext"
      "stats_grow (sum_list (map (\<lambda>b. length (f_succs (tc_func c) b)) (n # ext))) st1 (snd (snd r))"
      using 1(2) by blast
    then show ?thesis using stats_grow_trans [OF g] by (intro exI [of _ "n # ext"]) simp
  qed
qed

lemma grow_backward_counts:
  "grow_backward c cur tr visited st = Some r \<Longrightarrow> (\<exists>ext. fst r = ext @ tr \<and>
     stats_grow (sum_list (map (\<lambda>b. length (f_preds (tc_func c) b)) (ext @ [cur]))) st (snd (snd r)))"
proof (rule grow_backward.raw_induct [where P = "\<lambda>c cur tr visited st r. \<exists>ext. fst r = ext @ tr \<and>
     stats_grow (sum_list (map (\<lambda>b. length (f_preds (tc_func c) b)) (ext @ [cur]))) st (snd (snd r))"], goal_cases)
  case (1 gb c cur tr visited st r)
  obtain best st1 where best: "bestPredecessor c cur visited st = (best, st1)" by force
  note g = bestPredecessor_grow [OF best]
  show ?case
  proof (cases best)
    case None
    then have "r = (tr, visited, st1)" using 1(3) best by simp
    then show ?thesis using g by (intro exI [of _ "[]"]) simp
  next
    case (Some n)
    then have "gb c n (n # tr) (insert n visited) st1 = Some r" using 1(3) best by simp
    then obtain ext where "fst r = ext @ n # tr"
      "stats_grow (sum_list (map (\<lambda>b. length (f_preds (tc_func c) b)) (ext @ [n]))) st1 (snd (snd r))"
      using 1(2) by blast
    then show ?thesis using stats_grow_trans [OF g] by (intro exI [of _ "ext @ [n]"]) simp
  qed
qed

text \<open>A trace pays for its own edge slots.\<close>

lemma grow_trace_counts:
  assumes "grow_trace c seed visited st = Some (t, visited', st')" shows "stats_grow (edge_slots (tc_func c) t) st st'"
proof -
  obtain t1 v1 st1 where f: "grow_forward c seed [seed] (insert seed visited) st = Some (t1, v1, st1)"
    and b: "grow_backward c seed t1 v1 st1 = Some (t, visited', st')"
    using assms by (auto simp: grow_trace_def split: option.splits)
  obtain ext where t1: "t1 = [seed] @ ext"
    and s1: "stats_grow (sum_list (map (\<lambda>b. length (f_succs (tc_func c) b)) (seed # ext))) st st1"
    using grow_forward_counts [OF f] by auto
  obtain pre where t: "t = pre @ t1"
    and s2: "stats_grow (sum_list (map (\<lambda>b. length (f_preds (tc_func c) b)) (pre @ [seed]))) st1 st'"
    using grow_backward_counts [OF b] by auto
  show ?thesis by (rule stats_grow_trans [OF s1 s2]) (simp add: t t1 edge_slots_def sum_list_addf)
qed

lemma trace_loop_counts:
  "trace_loop c bs k visited traces st = Some r \<Longrightarrow> (\<exists>new. fst r = traces @ new \<and>
     stats_grow (edge_slots (tc_func c) (concat new)) st (snd r))"
proof (rule trace_loop.raw_induct [where P = "\<lambda>c bs k visited traces st r. \<exists>new. fst r = traces @ new \<and>
     stats_grow (edge_slots (tc_func c) (concat new)) st (snd r)"], goal_cases)
  case (1 tl c bs k visited traces st r)
  show ?case
  proof (cases "seed_at c bs (advance bs visited k)")
    case None
    then have "r = (traces, st)" using 1(3) by (simp add: Let_def)
    then show ?thesis by (intro exI [of _ "[]"]) (simp add: stats_grow_refl)
  next
    case (Some seed)
    then obtain t v st1 where t: "grow_trace c seed visited st = Some (t, v, st1)"
      and r: "tl c bs (advance bs visited k) v (traces @ [t]) st1 = Some r"
      using 1(3) by (auto simp: Let_def split: option.splits)
    obtain new where new: "fst r = (traces @ [t]) @ new" "stats_grow (edge_slots (tc_func c) (concat new)) st1 (snd r)"
      using 1(2) [OF r] by blast
    then show ?thesis using stats_grow_trans [OF grow_trace_counts [OF t] new(2)]
      by (intro exI [of _ "t # new"]) (simp add: edge_slots_def)
  qed
qed

lemma sum_list_sub:
  fixes f :: "'a \<Rightarrow> nat" assumes "distinct xs" "set xs \<subseteq> set ys" shows "sum_list (map f xs) \<le> sum_list (map f ys)"
proof -
  have "sum_list (map f xs) = sum f (set xs)" using assms(1) by (rule sum_list_distinct_conv_sum_set)
  also have "\<dots> \<le> sum f (set ys)" by (rule sum_mono2) (use assms(2) in auto)
  also have "\<dots> = sum_list (map f (remdups ys))" by (simp add: sum_list_distinct_conv_sum_set)
  also have "\<dots> \<le> sum_list (map f ys)" by (induction ys) auto
  finally show ?thesis .
qed

lemma identifyTraces_counts:
  assumes wf: "wf_func F" and run: "identifyTraces F prob freq threshold True st = Some (ts, st')"
  shows "ts_above st' + ts_below st' \<le> edge_slots F (f_blocks F)" "ts_back st' \<le> ts_above st'"
    "distinct (concat ts)" "\<forall>t \<in> set ts. t \<noteq> [] \<and> set t \<subseteq> set (f_blocks F)"
proof -
  obtain order where o: "bfs_order F = Some order"
    and ok: "traces_ok (mk_trace_ctx F prob freq threshold True order) order ts"
    using identifyTraces_result [OF wf, of prob freq threshold True st] run by (metis option.inject prod.inject)
  have blocks: "set order \<subseteq> set (f_blocks F)" using bfs_order_correct [OF wf o] reachable_block [OF wf] by auto
  show d: "distinct (concat ts)" using ok by (simp add: traces_ok_def)
  show s: "\<forall>t \<in> set ts. t \<noteq> [] \<and> set t \<subseteq> set (f_blocks F)"
    using ok blocks by (auto simp: traces_ok_def trace_ok_def)
  have "trace_loop (mk_trace_ctx F prob freq threshold True order) (byFreqDesc freq order) 0 {} [] trace_stats0 = Some (ts, st')"
    using run o by (simp add: identifyTraces_def bfs_indexed_order mk_trace_ctx_def)
  then have "stats_grow (edge_slots F (concat ts)) trace_stats0 st'"
    using trace_loop_counts by (fastforce simp: mk_trace_ctx_def)
  moreover have "edge_slots F (concat ts) \<le> edge_slots F (f_blocks F)"
    unfolding edge_slots_def by (rule sum_list_sub [OF d]) (use s in auto)
  ultimately show "ts_above st' + ts_below st' \<le> edge_slots F (f_blocks F)" "ts_back st' \<le> ts_above st'"
    by (auto simp: stats_grow_def looked_def trace_stats0_def)
qed

section \<open>Hoisting and the peak\<close>

lemma hoist_step_candidates:
  assumes "hoist_step c om (F, dyn, st) i = (G, dyn', st')" shows "hs_candidates st' \<le> Suc (hs_candidates st)"
proof -
  have "hs_candidates (count_reason r s) = hs_candidates s" for r s by (simp add: count_reason_def split: block_reason.split)
  then show ?thesis using assms
    by (auto simp: hoist_step_outcome Let_def split: option.splits if_splits prod.splits)
qed

lemma phase2_candidates:
  assumes "phase2 c om is (F, dyn, st) = (G, dyn', st')" shows "hs_candidates st' \<le> hs_candidates st + length is"
  using assms unfolding phase2_def
proof (induction "is" arbitrary: F dyn st)
  case (Cons i "is")
  obtain F1 d1 s1 where "hoist_step c om (F, dyn, st) i = (F1, d1, s1)" by (metis prod_cases3)
  then show ?case using Cons hoist_step_candidates by fastforce
qed simp

lemma applySchedule_counts:
  assumes "applySchedule c schedule F st = (G, st')"
  shows "hs_candidates st' \<le> hs_candidates st + length schedule" "balanced st \<Longrightarrow> balanced st'"
  using assms phase2_candidates phase2_balanced by (fastforce simp: applySchedule_def split: prod.splits)+

lemma schedule_length:
  assumes gr: "graph_of (getDelay F) dep xs g" and z: "\<forall>n < length g. dn_cp (g ! n) = 0"
    and run: "listSchedule c (computeCriticalPath g) live peak = Some st"
  shows "length (ss_schedule st) \<le> length xs"
proof -
  have gr': "graph_of (getDelay F) dep xs (computeCriticalPath g)" by (rule graph_of_critical [OF gr])
  have "\<And>i. 0 \<le> getDelay F i" using getDelay_bounds by (meson order_trans zero_le_one)
  then have "\<forall>n < length (computeCriticalPath g). 0 \<le> dn_cp (computeCriticalPath g ! n)"
    by (rule graph_of_cp_nonneg [OF gr _ z])
  then obtain don where I: "sched_inv c (computeCriticalPath g) don st"
    using listSchedule_result gr' run by (metis graph_of_def option.inject)
  have "length don \<le> length (computeCriticalPath g)"
    using I card_mono [of "{..<length (computeCriticalPath g)}" "set don"]
    by (simp add: sched_inv_def distinct_card)
  moreover have "length (computeCriticalPath g) = length xs" using gr' by (auto simp: graph_of_def)
  ultimately show ?thesis using I by (simp add: sched_inv_def)
qed

lemma trace_schedule_length:
  assumes "distinct (insts_of F t)" "listSchedule c (computeCriticalPath (trace_ddg F t)) live peak = Some st"
  shows "length (ss_schedule st) \<le> length (insts_of F t)"
  using schedule_length [OF trace_ddg_graph [OF assms(1)] trace_ddg_fresh [OF assms(1)] assms(2)]
    length_filter_le [of "\<lambda>i. \<not> is_phi F i" "insts_of F t"] by linarith

lemma schedule_traces_counts:
  assumes "schedule_traces gc (G, hs, peak) (zip ts (map computeCriticalPath (buildDDG F ts))) = Some (H, hs', peak')"
    and "\<forall>t \<in> set ts. distinct (insts_of F t) \<and> length (l_in (live_at (gc_live gc) (t ! 0))) \<le> n"
  shows "hs_candidates hs' \<le> hs_candidates hs + length (insts_of F (concat ts)) \<and> (balanced hs \<longrightarrow> balanced hs') \<and>
    peak' \<le> max peak n"
  using assms
proof (induction ts arbitrary: G hs peak)
  case (Cons t ts)
  let ?live = "l_in (live_at (gc_live gc) (t ! 0))"
  obtain st G1 hs1 where st: "listSchedule (sched_ctx_of gc G) (computeCriticalPath (trace_ddg F t)) ?live peak = Some st"
    and app: "applySchedule (hoist_ctx_of gc t) (ss_schedule st) G hs = (G1, hs1)"
    and rest: "schedule_traces gc (G1, hs1, ss_peak st) (zip ts (map computeCriticalPath (buildDDG F ts))) = Some (H, hs', peak')"
    using Cons.prems(1) by (auto simp: buildDDG_def schedule_trace_def Let_def split: option.splits prod.splits)
  have "length (ss_schedule st) \<le> length (insts_of F t)" using trace_schedule_length [OF _ st] Cons.prems(2) by simp
  moreover have "ss_peak st \<le> max peak n" using peak_bound [OF st] Cons.prems(2) by fastforce
  ultimately show ?case using Cons.IH [OF rest] Cons.prems(2) applySchedule_counts [OF app] by fastforce
qed (simp add: buildDDG_def)

lemma insts_of_length: "length (insts_of F bs) = sum_list (map (\<lambda>b. length (f_body F b)) bs)"
  by (induction bs) auto

text \<open>The counters of a whole pass.\<close>

lemma globalSchedulerPass_counts:
  assumes wf: "wf_func F" and on: "schedStatsEnabled (pe_environ env)"
    and run: "globalSchedulerPass_run env usePressure F ct = Some (G, ct')"
  shows "ts_above (ct_trace ct') + ts_below (ct_trace ct') \<le> edge_slots F (f_blocks F)"
    "ts_back (ct_trace ct') \<le> ts_above (ct_trace ct')" "balanced (ct_hoist ct')"
    "hs_candidates (ct_hoist ct') \<le> length (all_insts F)" "ct_peak ct' \<le> length (universe F)"
proof -
  obtain lv ts tst hs peak where lv: "computeLiveness F = Some lv"
    and tr: "identifyTraces F (pe_prob env) (pe_freq env) (getTraceThreshold (pe_mkprob env) (pe_environ env)) True (ct_trace ct) = Some (ts, tst)"
    and s: "schedule_traces \<lparr>gc_env = env, gc_index = buildValueIndex (universe F), gc_live = lv, gc_pressure = usePressure\<rparr>
       (F, resetHoistStats, 0) (zip ts (map computeCriticalPath (buildDDG F ts))) = Some (G, hs, peak)"
    and ct': "ct' = \<lparr>ct_trace = tst, ct_hoist = hs, ct_peak = peak\<rparr>"
    using run on by (auto simp: globalSchedulerPass_run_def Let_def split: option.splits)
  note T = identifyTraces_counts [OF wf tr]
  show "ts_above (ct_trace ct') + ts_below (ct_trace ct') \<le> edge_slots F (f_blocks F)"
    "ts_back (ct_trace ct') \<le> ts_above (ct_trace ct')" using T(1,2) ct' by simp_all
  have typed: "live_typed F (buildValueIndex (universe F)) lv (length (universe F))" by (rule computeLiveness_typed [OF wf lv])
  have "\<forall>t \<in> set ts. distinct (insts_of F t)"
    using T(3,4) distinct_insts_of_sub [OF wf_dist_func [OF wf]] by (auto simp: distinct_concat_iff)
  moreover have "length (l_in (live_at lv (t ! 0))) \<le> length (universe F)" if "t \<in> set ts" for t
    using typed T(4) that nth_mem [of 0 t] unfolding live_typed_def by fastforce
  ultimately have "hs_candidates hs \<le> length (insts_of F (concat ts)) \<and> balanced hs \<and> peak \<le> length (universe F)"
    using schedule_traces_counts [OF s, of "length (universe F)"] by (simp add: resetHoistStats_def balanced_def hs_blocked_def)
  moreover have "length (insts_of F (concat ts)) \<le> length (all_insts F)"
    unfolding insts_of_length by (rule sum_list_sub) (use T(3,4) in auto)
  ultimately show "balanced (ct_hoist ct')" "hs_candidates (ct_hoist ct') \<le> length (all_insts F)"
    "ct_peak ct' \<le> length (universe F)" using ct' by simp_all
qed

lemma local_blocks_peak:
  assumes "local_blocks lc F peak bs = Some (G, peak')" "\<forall>b \<in> set bs. length (l_in (live_at (lc_live lc) b)) \<le> n"
  shows "peak' \<le> max peak n"
  using assms
proof (induction bs arbitrary: F peak)
  case (Cons b bs)
  obtain F1 p1 where step: "local_block lc F b peak = Some (F1, p1)" and rest: "local_blocks lc F1 p1 bs = Some (G, peak')"
    using Cons.prems(1) by (auto split: option.splits)
  have "p1 \<le> max peak (length (l_in (live_at (lc_live lc) b)))"
    using step peak_bound by (auto simp: local_block_def Let_def split: option.splits)
  then show ?case using Cons.IH [OF rest] Cons.prems(2) by fastforce
qed simp

lemma localSchedulerPass_counts:
  assumes wf: "wf_func F" and run: "localSchedulerPass_run env F ct = Some (G, ct')"
  shows "ct_trace ct' = ct_trace ct" "ct_hoist ct' = ct_hoist ct" "ct_peak ct' \<le> length (universe F)"
proof -
  obtain lv peak where lv: "computeLiveness F = Some lv" and ct': "ct' = ct\<lparr>ct_peak := peak\<rparr>"
    and r: "runLocalScheduler \<lparr>lc_index = buildValueIndex (universe F), lc_live = lv,
      lc_stats = schedStatsEnabled (pe_environ env)\<rparr> F 0 = Some (G, peak)"
    using run by (auto simp: localSchedulerPass_run_def split: option.splits)
  have "\<forall>b \<in> set (f_blocks F). length (l_in (live_at lv b)) \<le> length (universe F)"
    using computeLiveness_typed [OF wf lv] by (simp add: live_typed_def)
  then have "peak \<le> length (universe F)" using local_blocks_peak [of _ F 0 "f_blocks F" G peak] r by (simp add: runLocalScheduler_def)
  then show "ct_trace ct' = ct_trace ct" "ct_hoist ct' = ct_hoist ct" "ct_peak ct' \<le> length (universe F)" using ct' by simp_all
qed

section \<open>Machine counters\<close>

text \<open>All counters of the translation unit, in declaration order, and that an \<open>unsigned\<close> holds each of them.\<close>

definition counter_values :: "counters \<Rightarrow> nat list" where
  "counter_values ct = [ts_above (ct_trace ct), ts_below (ct_trace ct), ts_back (ct_trace ct),
     hs_candidates (ct_hoist ct), hs_done (ct_hoist ct), hs_blockedDominance (ct_hoist ct), hs_blockedLoop (ct_hoist ct),
     hs_blockedOperand (ct_hoist ct), hs_blockedUnsafe (ct_hoist ct), hs_blockedPressure (ct_hoist ct), ct_peak ct]"

definition counters_fit :: "counters \<Rightarrow> bool" where
  "counters_fit ct \<longleftrightarrow> list_all (\<lambda>n. unat (word_of_nat n :: 32 word) = n) (counter_values ct)"

lemma counters_fit_iff: "counters_fit ct \<longleftrightarrow> (\<forall>n \<in> set (counter_values ct). n < 2 ^ 32)"
proof -
  have "unat (word_of_nat n :: 32 word) = n \<longleftrightarrow> n < 2 ^ 32" for n
    by (simp add: unsigned_of_nat take_bit_nat_eq_self_iff)
  then show ?thesis by (simp add: counters_fit_def list_all_iff)
qed

text \<open>The sizes that decide it.\<close>

definition sizes_fit :: "func \<Rightarrow> bool" where
  "sizes_fit F \<longleftrightarrow> length (all_insts F) < 2 ^ 32 \<and> length (universe F) < 2 ^ 32 \<and> edge_slots F (f_blocks F) < 2 ^ 32"

lemma run_pass_counters:
  assumes wf: "wf_func F" and on: "schedStatsEnabled (pe_environ env)" and run: "run_pass env k F ct = Some (G, ct')"
    and sizes: "sizes_fit F" and ct: "counters_fit ct"
  shows "counters_fit ct'"
proof (cases k)
  case (GlobalPass p)
  then have r: "globalSchedulerPass_run env p F ct = Some (G, ct')" using run by (simp add: run_pass_def)
  note c = globalSchedulerPass_counts [OF wf on r]
  show ?thesis unfolding counters_fit_iff counter_values_def
    using c sizes by (auto simp: sizes_fit_def balanced_def hs_blocked_def)
next
  case LocalPass
  then have r: "localSchedulerPass_run env F ct = Some (G, ct')" using run by (simp add: run_pass_def)
  show ?thesis using localSchedulerPass_counts [OF wf r] sizes ct
    unfolding counters_fit_iff counter_values_def by (auto simp: sizes_fit_def)
qed

end
