(* ===== verification/Spec2Isabelle.thy ===== *)
theory Spec2Isabelle
  imports Properties_Analysis Properties_Schedule Properties_Transform Properties_Reports Pipeline Pass_Reports
    Counter_Bounds
begin

text \<open>
  Verification of an out-of-tree LLVM plugin that schedules instructions before register
  allocation, along hot traces or inside basic blocks, and of the small driver that lowers
  the scheduled code.  The library models every operation of the plugin on functions,
  graphs and schedules, and proves that what the passes return has the same meaning as
  what they were given.

  \<^bold>\<open>The program.\<close>  \<open>src/schedulerPass.cpp\<close> registers two function passes.
  \<^item> \<open>globalSchedulerPass\<close> numbers the values of the function (\<open>schedulerPass.hpp\<close>), computes
    liveness (\<open>liveness.hpp\<close>) and reaching definitions (\<open>reaching.hpp\<close>), covers the hot part of
    the CFG with disjoint traces (\<open>traceIdentification.hpp\<close>), builds a dependence graph per
    trace (\<open>ddg.hpp\<close>), weighs its nodes by their critical paths (\<open>critical.hpp\<close>), list-schedules
    it (\<open>listScheduler.hpp\<close>) and moves the instructions accordingly (\<open>applySchedule.hpp\<close>): first
    inside the anchor-free regions of each block (\<open>scheduleLegality.hpp\<close>), then to earlier
    blocks of the trace, under a register pressure budget if the pass was asked for one.
  \<^item> \<open>localSchedulerPass\<close> does the same for each block on its own (\<open>localScheduler.hpp\<close>), with
    a graph of its own making and without the second phase.

  \<open>dom.hpp\<close> computes dominators; the passes use LLVM's dominator tree instead, but the
  component is modelled and verified too.  \<open>src/schedRegAllocDriver.cpp\<close> is a separate
  executable.

  \<^bold>\<open>The model.\<close>  A \<open>Function\<close> is the record \<open>func\<close> of \<^verbatim>\<open>LLVM_IR\<close>; pointers to
  blocks and instructions are natural numbers, and only positions of instructions ever
  change, by \<open>move_before\<close>.  A \<open>BitVector\<close> is the list of its bits, a \<open>DenseMap\<close> a map
  with the default value \<open>operator[]\<close> creates (\<^verbatim>\<open>Prelude\<close>), a \<open>DDGNode*\<close> a position in the
  list of nodes.  Static counters, the graph and the function are passed explicitly; what
  may not return gives an option.  The theories follow the files:
  \<^item> \<^verbatim>\<open>Prelude\<close>: bit vectors (locale \<open>bit_vector\<close>), maps, order in lists, the sweep-until-stable
    loop of all data-flow analyses (\<open>rr_loop\<close>, locale \<open>round_robin\<close>).
  \<^item> \<^verbatim>\<open>LLVM_IR\<close>, \<^verbatim>\<open>CFG\<close>, \<^verbatim>\<open>SSA\<close>: functions and what the verifier of LLVM promises
    (\<open>wf_func\<close>, \<open>ssa\<close>), \<open>buildValueIndex\<close>, path dominance (locale \<open>dominance_order\<close>), the
    breadth-first order used by three of the files.
  \<^item> \<^verbatim>\<open>Liveness\<close>, \<^verbatim>\<open>Reaching\<close>, \<^verbatim>\<open>Dominators\<close>: \<open>computeLiveness\<close>, \<open>computeReaching\<close>,
    \<open>computeDominators\<close>, each with an inductive or path-based meaning and a proof that the
    fixed point is reached and is exactly that meaning.
  \<^item> \<^verbatim>\<open>Trace_Identification\<close>, \<^verbatim>\<open>Trace_Correctness\<close>: \<open>identifyTraces\<close> with the seed cursor, the
    two growing loops and the statistics; traces are disjoint, increasing, hottest first, and
    the cursor is equivalent to rescanning all blocks.
  \<^item> \<^verbatim>\<open>DDG\<close>, \<^verbatim>\<open>Critical\<close>: \<open>buildDDG\<close>, \<open>buildLocalDDG\<close>, \<open>topologicalSort\<close>,
    \<open>computeCriticalPath\<close>; the edges are characterised exactly (branches have none from
    their conditions), the sort is topological on every acyclic graph, the critical path is the
    weight of a heaviest path.
  \<^item> \<^verbatim>\<open>Config\<close>, \<^verbatim>\<open>Reports\<close>: the environment variables through \<open>atoi\<close>, the lines of
    \<open>SCHED_STATS\<close>.
  \<^item> \<^verbatim>\<open>List_Scheduler\<close>, \<^verbatim>\<open>Schedule_Contract\<close>, \<^verbatim>\<open>Trace_Schedules\<close>: \<open>pressureDelta\<close>,
    \<open>pickBest\<close>, \<open>listSchedule\<close>; the contract between schedules and their clients (locale
    \<open>schedule_source\<close>, interpreted for traces and for blocks); completeness for the traces of
    SSA functions.  \<^verbatim>\<open>Schedule_Greedy\<close>: the abstract specification, a greedy choice among the
    ready instructions, and the refinement.
  \<^item> \<^verbatim>\<open>Pressure\<close>, \<^verbatim>\<open>Hoist_Pressure\<close>: what the pressure estimate, the recorded peak and the
    budget mean, and that every access to a live set is in range.
  \<^item> \<^verbatim>\<open>Legality\<close>, \<^verbatim>\<open>Block_Semantics\<close>: \<open>isSchedulingAnchor\<close> and \<open>reorderBlockWithinRegions\<close>, the
    list function that the moves implement, and the meaning of a reordered block.
  \<^item> \<^verbatim>\<open>Apply_Schedule\<close>, \<^verbatim>\<open>Hoisting\<close>: both phases of \<open>applySchedule\<close>; phase 2 refines the step
    relation \<open>hoists\<close>, whose invariants carry well-formedness, SSA, anchors and positions.
  \<^item> \<^verbatim>\<open>Local_Scheduler\<close>, \<^verbatim>\<open>Scheduler_Pass\<close>: \<open>runLocalScheduler\<close>, the two \<open>run\<close> methods, the
    parsing callback \<open>parse_pass\<close> and the dispatch \<open>run_pass\<close>.  \<^verbatim>\<open>Pipeline\<close>: the plugin
    record with its callback, the banners, and what any sequence of passes keeps.  \<^verbatim>\<open>Counter_Bounds\<close>: bounds of all counters.
  \<^item> \<^verbatim>\<open>Pass_Reports\<close>: what a pass writes to the error stream, and that neither the traces nor
    the schedules nor the code depend on the statistics.
  \<^item> \<^verbatim>\<open>Function_Semantics\<close>, \<^verbatim>\<open>Pass_Semantics\<close>: runs of a whole function over arbitrary
    instruction meanings, code motion between functions, and the two passes as code movers
    (locale \<open>code_mover\<close>).
  \<^item> \<^verbatim>\<open>Driver\<close>: \<open>main\<close> of the driver, over a record of the LLVM calls it makes.
  \<^item> \<^verbatim>\<open>Examples\<close>: small functions (a diamond, two blocks in a row, a loop) for the concrete instances.  The
    properties are in \<^verbatim>\<open>Properties_Analysis\<close>, \<^verbatim>\<open>Properties_Schedule\<close>,
    \<^verbatim>\<open>Properties_Transform\<close>, \<^verbatim>\<open>Properties_Reports\<close> and, where they speak of whole passes, here.

  \<^bold>\<open>How the main theorem comes about.\<close>  A schedule lists a definition before its uses
  (\<^verbatim>\<open>List_Scheduler\<close>: the ready queue releases a node after its predecessors), so reordering
  a region by it permutes non-anchors consistently with their dependences.  A hoist goes to
  a dominating block in front of the terminator, where all operands dominate it.  Both kinds
  of moves keep SSA, keep the anchors of every block in their order, and never put an
  instruction where it does not dominate its old place: this is \<open>code_motion\<close>.  In an SSA
  function the values of the reached blocks solve the equations their non-anchors state, the
  solution is unique, and moving an equation to a dominating block does not change it; so
  runs of both functions stay in lockstep (\<open>code_motion_runs\<close>).

  \<^bold>\<open>Parameters.\<close>  Code outside the repository is an argument: LLVM's answers to queries
  about an instruction are fields of \<open>instr\<close>; block frequencies, edge probabilities, the
  dominator tree, loop info and speculation safety are fields of \<open>pass_env\<close> and \<open>analyses\<close>,
  constrained only by \<open>dom_sound\<close> (positive answers of the dominator tree are right) where a
  property needs it; the environment is a function from names to values.  The meaning of
  instructions is a parameter of the semantics: an anchor may read and change the machine
  state, any other instruction computes its result from its operands and always returns
  (\<open>isSafeToSpeculativelyExecute\<close> is what justifies the latter for hoisted ones).

  \<^bold>\<open>Loops and bounds.\<close>  No loop carries fuel.  Data-flow iterations are \<open>while_option\<close>, shown
  to end by counting bits; the scheduling loop, the loops that grow traces and the seed loop
  are \<open>partial_function (option)\<close>, shown to return on every input (the number of unscheduled
  nodes, of unvisited blocks decreases); the depth-first sort terminates on any graph, by the
  unvisited nodes.  Only \<open>run_func\<close>, the semantics, counts steps, because programs may run
  forever; its theorems hold for every count.  An \<open>int\<close> is an integer: a critical path is at
  most ten times the number of nodes (\<open>critical_bound\<close>) and a pressure delta is bounded by
  the number of operands (\<open>pressureDelta_bounds\<close>), so neither wraps for functions that fit into memory.  \<open>unsigned\<close> counters are natural numbers; they are bounded
  by the numbers of instructions, values and edge slots, and equal the 32-bit words of the code as
  long as these sizes fit (\<open>counters_do_not_wrap\<close>).
  \<open>atoi\<close> is modelled for numbers that fit an \<open>int\<close>; C leaves the others undefined, and the
  properties of settings assume the range.

  \<^bold>\<open>What modelling showed.\<close>  Blocks of frequency 0 may lie in no trace, against the comment
  of \<open>identifyTraces\<close> (\<open>cold_block_untraced\<close>).  The local graph has nodes for PHIs that are
  never scheduled, so users of a PHI of their own block are never moved
  (\<open>phi_users_not_scheduled\<close>).  The pressure estimate counts a repeated dying operand twice
  (\<open>pressure_delta_repeated\<close>), and the budget does not bound the tracked pressure
  (\<open>budget_exceeded_pair\<close>).  The kill sets of the reaching analysis are always empty
  (\<open>reaching_kills_nothing\<close>).  None of this endangers the meaning of the code.

  \<^bold>\<open>Not modelled.\<close>  The release of graphs (\<open>~DDG\<close>), the registration of LLVM's own command-line flags
  and targets by the driver, hashing and growth of LLVM's containers, and the scripts, benchmarks
  and tests, which are written in other languages.
\<close>

section \<open>The passes\<close>

text \<open>C2.  Every pass that the plugin registers returns on every well-formed function, whatever the
  profile, the environment and the counters; the result is well-formed, holds the same
  instructions, and is in SSA form if the input was.\<close>

theorem passes_keep_functions:
  assumes "wf_func F" "dom_sound (pe_an env) F" "parse_pass name = Some k"
  shows "\<exists>G ct'. run_pass env k F ct = Some (G, ct') \<and> wf_func G \<and> same_insts F G \<and> (ssa F \<longrightarrow> ssa G)"
proof (cases k)
  case (GlobalPass p)
  obtain G ct' traces tst where "globalSchedulerPass_run env p F ct = Some (G, ct')"
    "global_inv (pe_an env) traces [] F G"
    by (rule globalSchedulerPass_result [OF assms(1,2)])
  then show ?thesis by (auto simp: GlobalPass run_pass_def global_inv_def)
next
  case LocalPass
  obtain lv where "computeLiveness F = Some lv" by (rule computeLiveness_result [OF assms(1)])
  moreover obtain G peak where "runLocalScheduler \<lparr>lc_index = buildValueIndex (universe F), lc_live = the (computeLiveness F),
      lc_stats = schedStatsEnabled (pe_environ env)\<rparr> F 0 = Some (G, peak)" "same_insts F G" "wf_func G"
      "local_inv \<lparr>sem_pure = \<lambda>i vs. (), sem_effect = \<lambda>i vs m. ((), ())\<rparr> F G"
    by (rule runLocalScheduler_keeps [OF assms(1)])
  ultimately show ?thesis by (simp add: LocalPass run_pass_def localSchedulerPass_run_def local_inv_def)
qed

definition diamond_env :: pass_env where
  "diamond_env = \<lparr>pe_prob = (\<lambda>a b. if b = 2 then 20 else 80), pe_freq = (\<lambda>b. if b = 2 then 3 else 7),
     pe_mkprob = (\<lambda>n d. n), pe_an = no_loops diamond, pe_environ = (\<lambda>name. if name = ''SCHED_STATS'' then Some ''1'' else None)\<rparr>"

definition counters0 :: counters where
  "counters0 = \<lparr>ct_trace = trace_stats0, ct_hoist = resetHoistStats, ct_peak = 0\<rparr>"

lemma diamond_env_sound: "dom_sound (pe_an diamond_env) diamond"
  by (simp add: diamond_env_def diamond_sound)

theorem passes_keep_functions_diamond:
  "\<exists>G ct'. run_pass diamond_env (GlobalPass True) diamond counters0 = Some (G, ct') \<and> wf_func G \<and> same_insts diamond G \<and>
     (ssa diamond \<longrightarrow> ssa G)"
  by (rule passes_keep_functions [OF diamond_wf diamond_env_sound, of "''globalSchedulerPass''"]) (simp add: parse_pass_def)

text \<open>C1.  Every registered pass preserves the meaning of every well-formed SSA function: whatever the
  instructions mean, a run of any length of the result visits the same blocks, computes the same
  conditions and return values and leaves the same machine state after every block.\<close>

theorem passes_preserve_meaning:
  assumes "wf_func F" "ssa F" "dom_sound (pe_an env) F" "parse_pass name = Some k"
  shows "\<exists>G ct'. run_pass env k F ct = Some (G, ct') \<and>
    (\<forall>n s. run_func M G n None (entry_block G) s = run_func M F n None (entry_block F) s)"
  using run_pass_motion [of env F k ct M] assms(1-3) by (metis sound_for_def)

definition diamond_machine :: "(nat, nat list) machine" where
  "diamond_machine = \<lparr>mc_sem = \<lparr>sem_pure = (\<lambda>i vs. sum_list vs + i), sem_effect = (\<lambda>i vs m. (length m, i # vs @ m))\<rparr>,
     mc_next = (\<lambda>i vs m. Some (sum_list vs mod 2)), mc_poison = 0\<rparr>"

theorem passes_preserve_meaning_diamond:
  "\<exists>G ct'. run_pass diamond_env (GlobalPass False) diamond counters0 = Some (G, ct') \<and>
    (\<forall>n s. run_func diamond_machine G n None (entry_block G) s = run_func diamond_machine diamond n None (entry_block diamond) s)"
  by (rule passes_preserve_meaning [OF diamond_wf diamond_ssa diamond_env_sound, of "''globalSchedulerPassNoPressure''"])
    (simp add: parse_pass_def)

text \<open>C3.  The plugin accepts exactly its three pass names, adds for each the pass that it names and
  leaves the pass manager alone otherwise.  However many of these passes have run on a well-formed SSA
  function, each with sound analyses of the code it was given, the function is well-formed and in SSA
  form, holds the same instructions and has the same runs, and every pass can run on it again.\<close>

theorem accepted_passes_compose:
  assumes F: "wf_func F" "ssa F" and runs: "pass_runs F G"
  shows "(\<forall>name fpm fpm'. pi_callback (llvmGetPassPluginInfo addPass api) name fpm = (True, fpm') \<longleftrightarrow>
      (\<exists>k. (name, k) \<in> set [(''localSchedulerPass'', LocalPass), (''globalSchedulerPass'', GlobalPass True),
         (''globalSchedulerPassNoPressure'', GlobalPass False)] \<and> fpm' = addPass fpm k)) \<and>
    (\<forall>name fpm fpm'. pi_callback (llvmGetPassPluginInfo addPass api) name fpm = (False, fpm') \<longrightarrow> fpm' = fpm) \<and>
    wf_func G \<and> ssa G \<and> same_insts F G \<and>
    (\<forall>n s. run_func M G n None (entry_block G) s = run_func M F n None (entry_block F) s) \<and>
    (\<forall>k env ct. dom_sound (pe_an env) G \<longrightarrow> (\<exists>H ct'. run_pass env k G ct = Some (H, ct') \<and> pass_runs F H))"
proof -
  note G = pass_runs_motion [OF runs F, of M]
  have again: "\<exists>H ct'. run_pass env k G ct = Some (H, ct') \<and> pass_runs F H" if d: "dom_sound (pe_an env) G" for k env ct
  proof -
    have "sound_for env G" using G d by (simp add: sound_for_def)
    from run_pass_motion [OF this, of k ct M] obtain H ct' where "run_pass env k G ct = Some (H, ct')" by metis
    then show ?thesis using one_more [OF runs d] by blast
  qed
  have accept: "\<forall>name fpm fpm'. pi_callback (llvmGetPassPluginInfo addPass api) name fpm = (True, fpm') \<longleftrightarrow>
      (\<exists>k. (name, k) \<in> set [(''localSchedulerPass'', LocalPass), (''globalSchedulerPass'', GlobalPass True),
         (''globalSchedulerPassNoPressure'', GlobalPass False)] \<and> fpm' = addPass fpm k)"
    unfolding pass_table_def [symmetric] callback_table(1) by blast
  have "\<forall>name fpm fpm'. pi_callback (llvmGetPassPluginInfo addPass api) name fpm = (False, fpm') \<longrightarrow> fpm' = fpm"
    unfolding callback_table(2) by blast
  with accept G show ?thesis by (intro conjI accept allI impI again) auto
qed

text \<open>The local pass and then the global one, on a function with a loop.\<close>

definition countdown_env :: pass_env where
  "countdown_env = diamond_env\<lparr>pe_an := no_loops countdown\<rparr>"

theorem accepted_passes_compose_countdown:
  "\<exists>G H ct1 ct2. run_pass countdown_env LocalPass countdown counters0 = Some (G, ct1) \<and>
    run_pass countdown_env (GlobalPass True) G ct1 = Some (H, ct2) \<and> wf_func H \<and> ssa H \<and> same_insts countdown H \<and>
    (\<forall>n s. run_func diamond_machine H n None (entry_block H) s =
       run_func diamond_machine countdown n None (entry_block countdown) s)"
proof -
  note step = accepted_passes_compose [OF countdown_wf countdown_ssa, of _ "\<lambda>ks k. ks @ [k]" 1 diamond_machine]
  have sound: "dom_sound (pe_an countdown_env) K" if "same_insts countdown K" for K
    using dom_sound_same [OF that] coarse_sound by (simp add: countdown_env_def no_loops_def)
  obtain G ct1 where G: "run_pass countdown_env LocalPass countdown counters0 = Some (G, ct1)" "pass_runs countdown G"
    using step [OF no_pass] sound by (metis same_insts_refl)
  obtain H ct2 where H: "run_pass countdown_env (GlobalPass True) G ct1 = Some (H, ct2)" "pass_runs countdown H"
    using step [OF G(2)] sound by metis
  show ?thesis using G(1) H(1) step [OF H(2)] by blast
qed

text \<open>C4.  The global pass moves code legally: every instruction ends in its original block, or is no
  anchor and ends in an earlier block of the same trace that dominates its original block, lies in
  the same loop and is no loop header; the anchors of every block stay, in their order.\<close>

theorem global_pass_motion:
  assumes "wf_func F" "dom_sound (pe_an env) F"
  shows "\<exists>G ct' traces tst. globalSchedulerPass_run env usePressure F ct = Some (G, ct') \<and>
    identifyTraces F (pe_prob env) (pe_freq env) (getTraceThreshold (pe_mkprob env) (pe_environ env))
      (schedStatsEnabled (pe_environ env)) (ct_trace ct) = Some (traces, tst) \<and>
    (\<forall>b \<in> set (f_blocks F). \<forall>c \<in> set (f_blocks F). \<forall>i \<in> set (f_body F b) \<inter> set (f_body G c). c = b \<or>
       (\<not> isSchedulingAnchor F i \<and> (\<exists>t \<in> set traces. precedes t c b) \<and> \<not> an_loop_header (pe_an env) c \<and>
        an_loop_for (pe_an env) b = an_loop_for (pe_an env) c \<and> an_dom (pe_an env) c b)) \<and>
    (\<forall>b. filter (isSchedulingAnchor F) (f_body G b) = filter (isSchedulingAnchor F) (f_body F b))"
proof -
  obtain G ct' traces tst where run: "globalSchedulerPass_run env usePressure F ct = Some (G, ct')"
    "identifyTraces F (pe_prob env) (pe_freq env) (getTraceThreshold (pe_mkprob env) (pe_environ env))
       (schedStatsEnabled (pe_environ env)) (ct_trace ct) = Some (traces, tst)"
    "global_inv (pe_an env) traces [] F G"
    by (rule globalSchedulerPass_result [OF assms])
  moreover have "legal_position (pe_an env) traces F G"
    "\<forall>b. filter (isSchedulingAnchor F) (f_body G b) = filter (isSchedulingAnchor F) (f_body F b)"
    using run(3) by (simp_all add: global_inv_def)
  ultimately show ?thesis unfolding legal_position_def isSameLoopOrOuter_iff by blast
qed

theorem global_pass_motion_diamond:
  "\<exists>G ct' traces tst. globalSchedulerPass_run diamond_env True diamond counters0 = Some (G, ct') \<and>
    identifyTraces diamond (pe_prob diamond_env) (pe_freq diamond_env) (getTraceThreshold (pe_mkprob diamond_env) (pe_environ diamond_env))
      (schedStatsEnabled (pe_environ diamond_env)) (ct_trace counters0) = Some (traces, tst) \<and>
    (\<forall>b \<in> set (f_blocks diamond). \<forall>c \<in> set (f_blocks diamond). \<forall>i \<in> set (f_body diamond b) \<inter> set (f_body G c). c = b \<or>
       (\<not> isSchedulingAnchor diamond i \<and> (\<exists>t \<in> set traces. precedes t c b) \<and> \<not> an_loop_header (pe_an diamond_env) c \<and>
        an_loop_for (pe_an diamond_env) b = an_loop_for (pe_an diamond_env) c \<and> an_dom (pe_an diamond_env) c b)) \<and>
    (\<forall>b. filter (isSchedulingAnchor diamond) (f_body G b) = filter (isSchedulingAnchor diamond) (f_body diamond b))"
  by (rule global_pass_motion [OF diamond_wf diamond_env_sound])

text \<open>C28.  The hoist counters of a run of the global pass balance: every candidate is counted either
  as done or under one reason.\<close>

theorem global_pass_counters:
  assumes "wf_func F" "dom_sound (pe_an env) F"
  shows "\<exists>G ct'. globalSchedulerPass_run env usePressure F ct = Some (G, ct') \<and>
    hs_candidates (ct_hoist ct') = hs_done (ct_hoist ct') + hs_blockedDominance (ct_hoist ct') +
      hs_blockedLoop (ct_hoist ct') + hs_blockedOperand (ct_hoist ct') + hs_blockedUnsafe (ct_hoist ct') +
      hs_blockedPressure (ct_hoist ct')"
proof -
  obtain G ct' where "globalSchedulerPass_run env usePressure F ct = Some (G, ct')" "balanced (ct_hoist ct')"
    using globalSchedulerPass_result [OF assms] by metis
  then show ?thesis by (auto simp: balanced_def hs_blocked_def)
qed

theorem global_pass_counters_diamond:
  "\<exists>G ct'. globalSchedulerPass_run diamond_env True diamond counters0 = Some (G, ct') \<and>
    hs_candidates (ct_hoist ct') = hs_done (ct_hoist ct') + hs_blockedDominance (ct_hoist ct') +
      hs_blockedLoop (ct_hoist ct') + hs_blockedOperand (ct_hoist ct') + hs_blockedUnsafe (ct_hoist ct') +
      hs_blockedPressure (ct_hoist ct')"
  by (rule global_pass_counters [OF diamond_wf diamond_env_sound])

text \<open>C29.  No counter wraps around.  For a function whose instructions, values and edge slots are fewer than
  2^32, every counter that is an \<open>unsigned\<close> in the code holds, after a pass, the number that the model
  gives it.\<close>

theorem counters_do_not_wrap:
  assumes "wf_func F" "schedStatsEnabled (pe_environ env)" "run_pass env k F ct = Some (G, ct')"
    and "sizes_fit F" "counters_fit ct"
  shows "counters_fit ct'"
  by (rule run_pass_counters [OF assms])

theorem counters_do_not_wrap_diamond:
  "\<exists>G ct'. run_pass diamond_env (GlobalPass True) diamond counters0 = Some (G, ct') \<and> counters_fit ct'"
proof -
  obtain G ct' where run: "run_pass diamond_env (GlobalPass True) diamond counters0 = Some (G, ct')"
    using globalSchedulerPass_result [OF diamond_wf diamond_env_sound] by (metis run_pass_def pass_kind.case(1))
  have "counters_fit ct'"
  proof (rule counters_do_not_wrap [OF diamond_wf _ run])
    show "schedStatsEnabled (pe_environ diamond_env)" by code_simp
    have "(length (all_insts diamond), length (universe diamond), edge_slots diamond (f_blocks diamond)) = (13, 10, 8)"
      by code_simp
    then show "sizes_fit diamond" by (simp add: sizes_fit_def)
    show "counters_fit counters0"
      by (simp add: counters_fit_iff counter_values_def counters0_def trace_stats0_def resetHoistStats_def)
  qed
  then show ?thesis using run by blast
qed

text \<open>C30.  Collecting statistics only adds output: the code that a pass produces depends neither on
  \<open>SCHED_STATS\<close> nor on the counters left by earlier functions, and when the variable is not set nothing
  is written to the error stream.\<close>

theorem statistics_do_not_matter:
  "map_option fst (run_pass (env\<lparr>pe_environ := e(''SCHED_STATS'' := s)\<rparr>) k F ct) =
     map_option fst (run_pass (env\<lparr>pe_environ := e\<rparr>) k F ct') \<and>
   pass_errs (env\<lparr>pe_environ := e(''SCHED_STATS'' := None)\<rparr>) k F ct =
     map_option (\<lambda>_. []) (run_pass (env\<lparr>pe_environ := e(''SCHED_STATS'' := None)\<rparr>) k F ct)"
proof
  show "map_option fst (run_pass (env\<lparr>pe_environ := e(''SCHED_STATS'' := s)\<rparr>) k F ct) =
      map_option fst (run_pass (env\<lparr>pe_environ := e\<rparr>) k F ct')"
    by (rule run_pass_stats) (simp add: same_settings_def trace_threshold_pct_def getPressureBudget_def)
  show "pass_errs (env\<lparr>pe_environ := e(''SCHED_STATS'' := None)\<rparr>) k F ct =
      map_option (\<lambda>_. []) (run_pass (env\<lparr>pe_environ := e(''SCHED_STATS'' := None)\<rparr>) k F ct)"
    by (cases k) (simp_all add: pass_errs_def run_pass_def globalSchedulerPass_silent localSchedulerPass_silent schedStatsEnabled_def)
qed

text \<open>C5.  The local pass stays inside blocks: each block keeps its instructions and the order of its
  anchors, and in an SSA function every reachable block computes what it did, whatever its
  instructions mean.\<close>

theorem local_pass_blocks:
  assumes "wf_func F"
  shows "\<exists>G ct'. localSchedulerPass_run env F ct = Some (G, ct') \<and>
    (\<forall>b. mset (f_body G b) = mset (f_body F b) \<and>
       filter (isSchedulingAnchor F) (f_body G b) = filter (isSchedulingAnchor F) (f_body F b)) \<and>
    (ssa F \<longrightarrow> (\<forall>b \<in> set (f_blocks F). reachable F b \<longrightarrow>
       (\<forall>st. exec_insts S F (f_body G b) st = exec_insts S F (f_body F b) st)))"
proof -
  obtain lv where lv: "computeLiveness F = Some lv" by (rule computeLiveness_result [OF assms])
  obtain G peak where G: "runLocalScheduler \<lparr>lc_index = buildValueIndex (universe F), lc_live = lv,
      lc_stats = schedStatsEnabled (pe_environ env)\<rparr> F 0 = Some (G, peak)" "same_insts F G" "local_inv S F G"
    by (rule runLocalScheduler_keeps [OF assms])
  have anchors: "isSchedulingAnchor G = isSchedulingAnchor F"
    by (rule anchor_frame) (use G(2) in \<open>simp add: same_insts_def same_frame_def\<close>)
  have "block_view G b = block_view F b" for b using G(3) by (simp add: local_inv_def)
  then have "\<forall>b. mset (f_body G b) = mset (f_body F b) \<and>
      filter (isSchedulingAnchor F) (f_body G b) = filter (isSchedulingAnchor F) (f_body F b)"
    by (simp add: block_view_def anchors)
  then show ?thesis using lv G by (simp add: localSchedulerPass_run_def local_inv_def)
qed

theorem local_pass_blocks_countdown:
  "\<exists>G ct'. localSchedulerPass_run diamond_env countdown counters0 = Some (G, ct') \<and>
    (\<forall>b. mset (f_body G b) = mset (f_body countdown b) \<and>
       filter (isSchedulingAnchor countdown) (f_body G b) = filter (isSchedulingAnchor countdown) (f_body countdown b)) \<and>
    (ssa countdown \<longrightarrow> (\<forall>b \<in> set (f_blocks countdown). reachable countdown b \<longrightarrow>
       (\<forall>st. exec_insts (mc_sem diamond_machine) countdown (f_body G b) st =
         exec_insts (mc_sem diamond_machine) countdown (f_body countdown b) st)))"
  by (rule local_pass_blocks [OF countdown_wf])

section \<open>The passes at work\<close>

text \<open>The global pass moves the sum of \<open>pair\<close> into the entry block.\<close>

definition pair_env :: pass_env where
  "pair_env = \<lparr>pe_prob = (\<lambda>a b. 80), pe_freq = (\<lambda>b. 3), pe_mkprob = (\<lambda>n d. n), pe_an = no_loops pair, pe_environ = Map.empty\<rparr>"

lemma pair_pass:
  "map_option (\<lambda>(G, ct). map (f_body G) [0, 1]) (run_pass pair_env (GlobalPass True) pair counters0) = Some [[1, 0], [2]]"
  by code_simp

text \<open>The local pass moves the division of \<open>countdown\<close>, which takes ten cycles, in front of the
  multiplication; the decrement uses a PHI of the block and is not scheduled, but it stays in a region
  of its own, before the load.\<close>

lemma countdown_pass:
  "map_option (\<lambda>(G, ct). (map (f_body G) [0, 1, 2], ct_peak ct)) (run_pass diamond_env LocalPass countdown counters0) =
     Some ([[0], [1, 2, 3, 5, 4, 6], [7]], 5)"
  by code_simp

end
